(* ===== verification/Noxu_Prelude.thy ===== *)
theory Noxu_Prelude
  imports Main "HOL-Library.Word"
begin

text \<open>
  Shared vocabulary of the development: the machine integer types of the Rust sources,
  the result type of fallible operations, the collections of rewrite rules that the
  component theories extend, and generic lemmas on lists and options.
\<close>

section \<open>Machine integers and results\<close>

type_synonym u8 = "8 word"
type_synonym u16 = "16 word"
type_synonym u32 = "32 word"
type_synonym u64 = "64 word"
type_synonym i8 = "8 word"
type_synonym i32 = "32 word"
type_synonym i64 = "64 word"
type_synonym bytes = "u8 list"
type_synonym ('e, 'a) result = "'e + 'a"

abbreviation Ok :: "'a \<Rightarrow> 'e + 'a" where
  "Ok \<equiv> Inr"

abbreviation Err :: "'e \<Rightarrow> 'e + 'a" where
  "Err \<equiv> Inl"

section \<open>Rule collections\<close>

named_theorems owners_simps \<open>effect of a lock operation on the owner list\<close>
named_theorems waiters_simps \<open>effect of a lock operation on the waiter list\<close>
named_theorems lock_inv_intros \<open>lock operations that keep the lock invariant\<close>

section \<open>Options as short lists\<close>

text \<open>
  Several Rust structs keep the first element of a collection in an \<open>Option\<close> field and
  the others in an optional vector; \<open>opt_list\<close> and \<open>olist\<close> read the two fields as lists.
\<close>

fun opt_list :: "'a option \<Rightarrow> 'a list" where
  "opt_list None = []"
| "opt_list (Some x) = [x]"

fun olist :: "'a list option \<Rightarrow> 'a list" where
  "olist None = []"
| "olist (Some xs) = xs"

lemma opt_list_eq_Nil [simp]: "opt_list x = [] \<longleftrightarrow> x = None"
  by (cases x) auto

lemma olist_eq_Cons [simp]: "olist x = y # ys \<longleftrightarrow> x = Some (y # ys)"
  by (cases x) auto

lemma olist_eq_Nil: "olist x = [] \<longleftrightarrow> x = None \<or> x = Some []"
  by (cases x) auto

lemma olist_map_option [simp]: "f [] = [] \<Longrightarrow> olist (map_option f x) = f (olist x)"
  by (cases x) auto

lemma length_olist: "length (olist x) = (case x of None \<Rightarrow> 0 | Some s \<Rightarrow> length s)"
  by (cases x) auto

lemma set_opt_list [simp]: "set (opt_list x) = set_option x"
  by (cases x) auto

section \<open>List search and removal\<close>

text \<open>\<open>Vec::remove\<close>: the list without the element at an index.\<close>

definition remove_nth :: "nat \<Rightarrow> 'a list \<Rightarrow> 'a list" where
  "remove_nth i xs = take i xs @ drop (Suc i) xs"

lemma remove_nth_0 [simp]: "remove_nth 0 xs = tl xs"
  by (cases xs) (auto simp: remove_nth_def)

lemma remove_nth_Suc [simp]: "remove_nth (Suc i) (x # xs) = x # remove_nth i xs"
  by (simp add: remove_nth_def)

lemma remove_nth_Nil [simp]: "remove_nth i [] = []"
  by (simp add: remove_nth_def)

lemma length_remove_nth: "i < length xs \<Longrightarrow> length (remove_nth i xs) = length xs - 1"
  by (simp add: remove_nth_def)

lemma set_remove_nth_subset: "set (remove_nth i xs) \<subseteq> set xs"
  by (auto simp: remove_nth_def dest: in_set_takeD in_set_dropD)

text \<open>\<open>iter().position(p)\<close>: the index of the first element that satisfies a predicate.\<close>

fun position :: "('a \<Rightarrow> bool) \<Rightarrow> 'a list \<Rightarrow> nat option" where
  "position p [] = None"
| "position p (x # xs) = (if p x then Some 0 else map_option Suc (position p xs))"

lemma position_None [simp]: "position p xs = None \<longleftrightarrow> (\<forall>x \<in> set xs. \<not> p x)"
  by (induction xs) auto

lemma position_Some: "position p xs = Some i \<Longrightarrow> i < length xs \<and> p (xs ! i)"
  by (induction xs arbitrary: i) (auto split: if_splits)

lemma find_eq_position: "List.find p xs = map_option ((!) xs) (position p xs)"
  by (induction xs) (auto simp: option.map_comp comp_def)

text \<open>Removing the first element that satisfies a predicate.\<close>

fun remove_first :: "('a \<Rightarrow> bool) \<Rightarrow> 'a list \<Rightarrow> 'a list" where
  "remove_first p [] = []"
| "remove_first p (x # xs) = (if p x then xs else x # remove_first p xs)"

lemma remove_nth_position:
  "position p xs = Some i \<Longrightarrow> remove_nth i xs = remove_first p xs"
  by (induction xs arbitrary: i) (auto split: if_splits)

lemma remove_first_none: "\<forall>x \<in> set xs. \<not> p x \<Longrightarrow> remove_first p xs = xs"
  by (induction xs) auto

lemma set_remove_first_subset: "set (remove_first p xs) \<subseteq> set xs"
  by (induction xs) auto

lemma distinct_remove_first: "distinct (map f xs) \<Longrightarrow> distinct (map f (remove_first p xs))"
  by (induction xs) (use set_remove_first_subset in fastforce)+

lemma remove_first_key: "distinct (map f xs) \<Longrightarrow> v \<notin> f ` set (remove_first (\<lambda>x. f x = v) xs)"
  by (induction xs) auto

lemma remove_first_append:
  "remove_first p (xs @ ys) =
     (if \<exists>x \<in> set xs. p x then remove_first p xs @ ys else xs @ remove_first p ys)"
  by (induction xs) auto

text \<open>Updating the first element that satisfies a predicate (\<open>iter_mut().find(p)\<close>).\<close>

fun update_first :: "('a \<Rightarrow> bool) \<Rightarrow> ('a \<Rightarrow> 'a) \<Rightarrow> 'a list \<Rightarrow> 'a list" where
  "update_first p f [] = []"
| "update_first p f (x # xs) = (if p x then f x # xs else x # update_first p f xs)"

lemma length_update_first [simp]: "length (update_first p f xs) = length xs"
  by (induction xs) auto

lemma update_first_none: "\<forall>x \<in> set xs. \<not> p x \<Longrightarrow> update_first p f xs = xs"
  by (induction xs) auto

lemma update_first_append:
  "update_first p f (xs @ ys) =
     (if \<exists>x \<in> set xs. p x then update_first p f xs @ ys else xs @ update_first p f ys)"
  by (induction xs) auto

lemma in_set_update_first:
  "y \<in> set (update_first p f xs) \<Longrightarrow> y \<in> set xs \<or> (\<exists>x \<in> set xs. p x \<and> y = f x)"
  by (induction xs) (auto split: if_splits)

lemma map_update_first:
  "(\<And>x. g (f x) = g x) \<Longrightarrow> map g (update_first p f xs) = map g xs"
  by (induction xs) auto

lemma find_append:
  "List.find p (xs @ ys) = (case List.find p xs of None \<Rightarrow> List.find p ys | Some x \<Rightarrow> Some x)"
  by (induction xs) auto

lemma find_None_iff_ball: "List.find p xs = None \<longleftrightarrow> (\<forall>x \<in> set xs. \<not> p x)"
  by (induction xs) auto

lemma find_SomeD: "List.find p xs = Some x \<Longrightarrow> x \<in> set xs \<and> p x"
  by (induction xs) (auto split: if_splits)

end
