(* ===== verification/Lock_Types.thy ===== *)
theory Lock_Types
  imports Noxu_Prelude
begin

text \<open>
  The lock types of \<open>crates/noxu-txn\<close> and their two matrices: \<open>lock_type.rs\<close>
  (\<open>get_conflict\<close>, \<open>get_upgrade\<close>), \<open>lock_conflict.rs\<close>, \<open>lock_upgrade.rs\<close>,
  \<open>lock_grant_type.rs\<close>, \<open>lock_attempt_result.rs\<close> and \<open>lock_info.rs\<close>.  A constructor
  whose name is taken carries a suffix: \<open>None_LT\<close> is \<open>LockType::None\<close>, \<open>Restart_LC\<close> is
  \<open>LockConflict::Restart\<close> and \<open>Existing_LU\<close> is \<open>LockUpgrade::Existing\<close>.
\<close>

section \<open>Data\<close>

datatype LockType =
  Read | Write | RangeRead | RangeWrite | RangeInsert | None_LT | Restart

datatype LockConflict = Allow | Block | Restart_LC

datatype LockUpgrade =
  Illegal | Existing_LU | WritePromote | RangeReadImmed | RangeWriteImmed | RangeWritePromote

datatype LockGrantType =
  New | WaitNew | Promotion | WaitPromotion | Existing | Denied | WaitRestart | NoneNeeded
| IllegalUpgrade

text \<open>
  A \<open>LockInfo\<close> names the locker and the type it holds or waits for.  The \<open>notify\<close> field
  is the waiter's condition-variable pair; the model keeps the identity of the pair, a
  number, so that a theorem can say which waiters a release has signalled.
\<close>

record LockInfo =
  locker_id :: int
  lock_type :: LockType
  notify :: "nat option"

definition LockInfo_new :: "int \<Rightarrow> LockType \<Rightarrow> LockInfo" where
  "LockInfo_new lid t = \<lparr>locker_id = lid, lock_type = t, notify = None\<rparr>"

record LockAttemptResult =
  success :: bool
  lock_grant :: LockGrantType

definition LockAttemptResult_new :: "LockGrantType \<Rightarrow> LockAttemptResult" where
  "LockAttemptResult_new g =
     \<lparr>success = (case g of New \<Rightarrow> True | Promotion \<Rightarrow> True | Existing \<Rightarrow> True | _ \<Rightarrow> False),
      lock_grant = g\<rparr>"

section \<open>Classification of lock types\<close>

fun is_write_lock :: "LockType \<Rightarrow> bool" where
  "is_write_lock Write = True"
| "is_write_lock RangeWrite = True"
| "is_write_lock _ = False"

fun causes_restart :: "LockType \<Rightarrow> bool" where
  "causes_restart RangeRead = True"
| "causes_restart RangeWrite = True"
| "causes_restart _ = False"

section \<open>The conflict matrix\<close>

text \<open>The first argument is the type held, the second the type requested.\<close>

fun get_conflict :: "LockType \<Rightarrow> LockType \<Rightarrow> LockConflict" where
  "get_conflict Read Read = Allow"
| "get_conflict Read Write = Block"
| "get_conflict Read RangeRead = Allow"
| "get_conflict Read RangeWrite = Block"
| "get_conflict Read RangeInsert = Allow"
| "get_conflict Write Read = Block"
| "get_conflict Write Write = Block"
| "get_conflict Write RangeRead = Block"
| "get_conflict Write RangeWrite = Block"
| "get_conflict Write RangeInsert = Allow"
| "get_conflict RangeRead Read = Allow"
| "get_conflict RangeRead Write = Block"
| "get_conflict RangeRead RangeRead = Allow"
| "get_conflict RangeRead RangeWrite = Block"
| "get_conflict RangeRead RangeInsert = Block"
| "get_conflict RangeWrite Read = Block"
| "get_conflict RangeWrite Write = Block"
| "get_conflict RangeWrite RangeRead = Block"
| "get_conflict RangeWrite RangeWrite = Block"
| "get_conflict RangeWrite RangeInsert = Block"
| "get_conflict RangeInsert Read = Allow"
| "get_conflict RangeInsert Write = Allow"
| "get_conflict RangeInsert RangeRead = Restart_LC"
| "get_conflict RangeInsert RangeWrite = Restart_LC"
| "get_conflict RangeInsert RangeInsert = Allow"
| "get_conflict _ _ = Allow"

section \<open>The upgrade matrix\<close>

fun get_upgrade :: "LockType \<Rightarrow> LockType \<Rightarrow> LockUpgrade" where
  "get_upgrade Read Read = Existing_LU"
| "get_upgrade Read Write = WritePromote"
| "get_upgrade Read RangeRead = RangeReadImmed"
| "get_upgrade Read RangeWrite = RangeWritePromote"
| "get_upgrade Read RangeInsert = Illegal"
| "get_upgrade Write Read = Existing_LU"
| "get_upgrade Write Write = Existing_LU"
| "get_upgrade Write RangeRead = RangeWriteImmed"
| "get_upgrade Write RangeWrite = RangeWriteImmed"
| "get_upgrade Write RangeInsert = Illegal"
| "get_upgrade RangeRead Read = Existing_LU"
| "get_upgrade RangeRead Write = RangeWritePromote"
| "get_upgrade RangeRead RangeRead = Existing_LU"
| "get_upgrade RangeRead RangeWrite = RangeWritePromote"
| "get_upgrade RangeRead RangeInsert = Illegal"
| "get_upgrade RangeWrite Read = Existing_LU"
| "get_upgrade RangeWrite Write = Existing_LU"
| "get_upgrade RangeWrite RangeRead = Existing_LU"
| "get_upgrade RangeWrite RangeWrite = Existing_LU"
| "get_upgrade RangeWrite RangeInsert = Illegal"
| "get_upgrade RangeInsert Read = Illegal"
| "get_upgrade RangeInsert Write = Illegal"
| "get_upgrade RangeInsert RangeRead = Illegal"
| "get_upgrade RangeInsert RangeWrite = Illegal"
| "get_upgrade RangeInsert RangeInsert = Existing_LU"
| "get_upgrade None_LT _ = Illegal"
| "get_upgrade _ None_LT = Existing_LU"
| "get_upgrade Restart _ = Illegal"
| "get_upgrade _ Restart = Illegal"

definition is_illegal :: "LockUpgrade \<Rightarrow> bool" where
  "is_illegal u \<longleftrightarrow> u = Illegal"

fun get_upgrade_type :: "LockUpgrade \<Rightarrow> LockType option" where
  "get_upgrade_type Existing_LU = None"
| "get_upgrade_type Illegal = None"
| "get_upgrade_type WritePromote = Some Write"
| "get_upgrade_type RangeReadImmed = Some RangeRead"
| "get_upgrade_type RangeWriteImmed = Some RangeWrite"
| "get_upgrade_type RangeWritePromote = Some RangeWrite"

fun is_promotion :: "LockUpgrade \<Rightarrow> bool" where
  "is_promotion WritePromote = True"
| "is_promotion RangeWritePromote = True"
| "is_promotion _ = False"

fun is_granted :: "LockGrantType \<Rightarrow> bool" where
  "is_granted New = True"
| "is_granted Promotion = True"
| "is_granted Existing = True"
| "is_granted _ = False"

fun must_wait :: "LockGrantType \<Rightarrow> bool" where
  "must_wait WaitNew = True"
| "must_wait WaitPromotion = True"
| "must_wait WaitRestart = True"
| "must_wait _ = False"

section \<open>Facts about the matrices\<close>

text \<open>
  Two lock types are compatible when the matrix allows the second beside the first.  The
  matrix is not symmetric (it answers \<open>Block\<close> one way and \<open>Restart\<close> the other), but
  compatibility is.
\<close>

lemma compatible_sym: "get_conflict a b = Allow \<longleftrightarrow> get_conflict b a = Allow"
  by (cases a; cases b) simp_all

lemma compatible_swap: "get_conflict a b = Allow \<Longrightarrow> get_conflict b a = Allow"
  by (simp only: compatible_sym)

lemma write_lock_compatible:
  "is_write_lock a \<Longrightarrow> get_conflict a b = Allow \<Longrightarrow>
     b = None_LT \<or> b = Restart \<or> (a = Write \<and> b = RangeInsert)"
  by (cases a; cases b) simp_all

text \<open>
  What makes an upgrade safe: a third owner that is compatible both with the type held
  and with the type requested is compatible with the type the holder is upgraded to,
  even where that type is stronger than the one requested.
\<close>

lemma upgrade_keeps_compatible:
  "get_upgrade_type (get_upgrade held req) = Some t \<Longrightarrow>
   get_conflict other held = Allow \<Longrightarrow> get_conflict other req = Allow \<Longrightarrow>
   get_conflict other t = Allow"
  by (cases held; cases req; cases other) auto

text \<open>
  The order behind the matrix: a type that excludes at least as many of the five types
  that a record lock can have.
\<close>

definition stronger :: "LockType \<Rightarrow> LockType \<Rightarrow> bool" where
  "stronger a b \<longleftrightarrow> (\<forall>x \<in> {Read, Write, RangeRead, RangeWrite, RangeInsert}.
     get_conflict x a = Allow \<longrightarrow> get_conflict x b = Allow)"

lemma upgrade_stronger:
  "get_upgrade_type (get_upgrade held req) = Some t \<Longrightarrow> stronger t held \<and> stronger t req"
  by (cases held; cases req) (auto simp: stronger_def)

lemma success_iff_granted: "success (LockAttemptResult_new g) = is_granted g"
  by (cases g) (simp_all add: LockAttemptResult_new_def)

lemma lock_grant_new [simp]: "lock_grant (LockAttemptResult_new g) = g"
  by (simp add: LockAttemptResult_new_def)

lemma LockInfo_new_sels [simp]:
  "locker_id (LockInfo_new i t) = i"
  "lock_type (LockInfo_new i t) = t"
  "notify (LockInfo_new i t) = None"
  by (simp_all add: LockInfo_new_def)

end
