(* ===== verification/Lock_Impl.thy ===== *)
theory Lock_Impl
  imports Lock_Types
begin

text \<open>
  The full lock of \<open>crates/noxu-txn/src/lock_impl.rs\<close>: several owners, a queue of waiters,
  promotion, restart conflicts, lock sharing, stealing.  The definitions keep the four
  fields of the Rust struct and its index loops; the lemmas relate them to the plain lists
  of owners and waiters, on which the invariant is stated.
\<close>

section \<open>State\<close>

record LockImpl =
  first_owner :: "LockInfo option"
  owner_set :: "LockInfo list option"
  first_waiter :: "LockInfo option"
  waiter_list :: "LockInfo list option"

definition LockImpl_new :: LockImpl where
  "LockImpl_new = \<lparr>first_owner = None, owner_set = None, first_waiter = None, waiter_list = None\<rparr>"

definition from_first_owner :: "LockInfo \<Rightarrow> LockImpl" where
  "from_first_owner i =
     \<lparr>first_owner = Some i, owner_set = None, first_waiter = None, waiter_list = None\<rparr>"

definition get_owners_clone :: "LockImpl \<Rightarrow> LockInfo list" where
  "get_owners_clone l = opt_list (first_owner l) @ olist (owner_set l)"

definition get_waiters_clone :: "LockImpl \<Rightarrow> LockInfo list" where
  "get_waiters_clone l = opt_list (first_waiter l) @ olist (waiter_list l)"

definition n_owners :: "LockImpl \<Rightarrow> nat" where
  "n_owners l = (if first_owner l \<noteq> None then 1 else 0) +
     (case owner_set l of None \<Rightarrow> 0 | Some s \<Rightarrow> length s)"

definition n_waiters :: "LockImpl \<Rightarrow> nat" where
  "n_waiters l = (if first_waiter l \<noteq> None then 1 else 0) +
     (case waiter_list l of None \<Rightarrow> 0 | Some s \<Rightarrow> length s)"

section \<open>Private helpers\<close>

definition add_waiter_to_end_of_list :: "LockImpl \<Rightarrow> LockInfo \<Rightarrow> LockImpl" where
  "add_waiter_to_end_of_list l w =
     (case waiter_list l of
        Some ws \<Rightarrow> l\<lparr>waiter_list := Some (ws @ [w])\<rparr>
      | None \<Rightarrow> (if first_waiter l = None then l\<lparr>first_waiter := Some w\<rparr>
                 else l\<lparr>waiter_list := Some [w]\<rparr>))"

definition add_waiter_to_head_of_list :: "LockImpl \<Rightarrow> LockInfo \<Rightarrow> LockImpl" where
  "add_waiter_to_head_of_list l w =
     (case first_waiter l of
        Some cur \<Rightarrow> l\<lparr>waiter_list := Some (cur # olist (waiter_list l)), first_waiter := Some w\<rparr>
      | None \<Rightarrow> l\<lparr>first_waiter := Some w\<rparr>)"

definition add_owner :: "LockImpl \<Rightarrow> LockInfo \<Rightarrow> LockImpl" where
  "add_owner l i =
     (if first_owner l = None then l\<lparr>first_owner := Some i\<rparr>
      else l\<lparr>owner_set := Some (olist (owner_set l) @ [i])\<rparr>)"

definition flush_owner :: "LockImpl \<Rightarrow> int \<Rightarrow> LockImpl \<times> LockInfo option" where
  "flush_owner l lid =
     (case first_owner l of
        Some i \<Rightarrow>
          if locker_id i = lid then (l\<lparr>first_owner := None\<rparr>, Some i)
          else (case owner_set l of
                  None \<Rightarrow> (l, None)
                | Some s \<Rightarrow> (case position (\<lambda>x. locker_id x = lid) s of
                     None \<Rightarrow> (l, None)
                   | Some p \<Rightarrow> (l\<lparr>owner_set := Some (remove_nth p s)\<rparr>, Some (s ! p))))
      | None \<Rightarrow> (case owner_set l of
                  None \<Rightarrow> (l, None)
                | Some s \<Rightarrow> (case position (\<lambda>x. locker_id x = lid) s of
                     None \<Rightarrow> (l, None)
                   | Some p \<Rightarrow> (l\<lparr>owner_set := Some (remove_nth p s)\<rparr>, Some (s ! p)))))"

definition get_owner_lock_info :: "LockImpl \<Rightarrow> int \<Rightarrow> LockInfo option" where
  "get_owner_lock_info l lid =
     (case first_owner l of
        Some i \<Rightarrow> if locker_id i = lid then Some i
                  else List.find (\<lambda>x. locker_id x = lid) (olist (owner_set l))
      | None \<Rightarrow> List.find (\<lambda>x. locker_id x = lid) (olist (owner_set l)))"

definition update_owner_type :: "LockImpl \<Rightarrow> int \<Rightarrow> LockType \<Rightarrow> LockImpl" where
  "update_owner_type l lid t =
     (let upd = update_first (\<lambda>x. locker_id x = lid) (\<lambda>x. x\<lparr>lock_type := t\<rparr>) in
      case first_owner l of
        Some i \<Rightarrow> if locker_id i = lid then l\<lparr>first_owner := Some (i\<lparr>lock_type := t\<rparr>)\<rparr>
                  else l\<lparr>owner_set := map_option upd (owner_set l)\<rparr>
      | None \<Rightarrow> l\<lparr>owner_set := map_option upd (owner_set l)\<rparr>)"

section \<open>Trying a request\<close>

text \<open>
  \<open>owner_at l i\<close> is the owner the loop of \<open>try_lock_with_sharing\<close> reads at index \<open>i\<close>, with
  the index it goes on from: index 0 is \<open>first_owner\<close>, and an empty \<open>first_owner\<close> falls
  through to the first element of \<open>owner_set\<close>.
\<close>

definition owner_at :: "LockImpl \<Rightarrow> nat \<Rightarrow> nat \<times> LockInfo option" where
  "owner_at l i =
     (if i = 0 then
        (if first_owner l \<noteq> None then (0, first_owner l)
         else (1, case olist (owner_set l) of [] \<Rightarrow> None | x # _ \<Rightarrow> Some x))
      else (i, if i - 1 < length (olist (owner_set l)) then Some (olist (owner_set l) ! (i - 1))
               else None))"

text \<open>
  The loop over the owners returns early with a grant (\<open>Inl\<close>) or ends with the three
  variables \<open>upgrade\<close>, \<open>owner_exists\<close> and \<open>owner_conflicts\<close> (\<open>Inr\<close>).
\<close>

function try_lock_loop ::
  "LockImpl \<Rightarrow> LockInfo \<Rightarrow> (int \<Rightarrow> bool) \<Rightarrow> nat \<Rightarrow> LockUpgrade option \<Rightarrow> bool \<Rightarrow> bool \<Rightarrow>
     LockGrantType + (LockUpgrade option \<times> bool \<times> bool)" where
  "try_lock_loop l new_lock shares_fn idx upgrade owner_exists owner_conflicts =
     (case owner_at l idx of
        (_, None) \<Rightarrow> Inr (upgrade, owner_exists, owner_conflicts)
      | (i, Some ow) \<Rightarrow>
          if locker_id new_lock = locker_id ow then
            (let upg = get_upgrade (lock_type ow) (lock_type new_lock) in
             if is_illegal upg then Inl IllegalUpgrade
             else if get_upgrade_type upg = None then Inl Existing
             else try_lock_loop l new_lock shares_fn (i + 1) (Some upg) owner_exists owner_conflicts)
          else if shares_fn (locker_id ow) then
            try_lock_loop l new_lock shares_fn (i + 1) upgrade owner_exists owner_conflicts
          else
            (let conflict = get_conflict (lock_type ow) (lock_type new_lock) in
             if conflict = Restart_LC then Inl WaitRestart
             else try_lock_loop l new_lock shares_fn (i + 1) upgrade True
                    (owner_conflicts \<or> conflict = Block)))"
  by pat_completeness auto
termination
  by (relation "measure (\<lambda>(l, n, f, i, u, e, c). Suc (length (olist (owner_set l))) - i)")
     (auto simp: owner_at_def split: if_splits list.splits)

declare try_lock_loop.simps [simp del]

definition try_lock_with_sharing ::
  "LockImpl \<Rightarrow> LockInfo \<Rightarrow> bool \<Rightarrow> (int \<Rightarrow> bool) \<Rightarrow> LockImpl \<times> LockGrantType" where
  "try_lock_with_sharing l new_lock first_waiter_in_line shares_fn =
     (if n_owners l = 0 then (add_owner l new_lock, New)
      else case try_lock_loop l new_lock shares_fn 0 None False False of
        Inl g \<Rightarrow> (l, g)
      | Inr (Some upg, _, owner_conflicts) \<Rightarrow>
          (if is_illegal upg then (l, IllegalUpgrade)
           else case get_upgrade_type upg of
             None \<Rightarrow> (l, Existing)
           | Some t \<Rightarrow>
               if \<not> owner_conflicts then
                 (update_owner_type l (locker_id new_lock) t,
                  if is_promotion upg then Promotion else Existing)
               else (l, WaitPromotion))
      | Inr (None, owner_exists, owner_conflicts) \<Rightarrow>
          (if \<not> owner_conflicts \<and> (\<not> owner_exists \<or> first_waiter_in_line)
           then (add_owner l new_lock, New) else (l, WaitNew)))"

definition try_lock :: "LockImpl \<Rightarrow> LockInfo \<Rightarrow> bool \<Rightarrow> LockImpl \<times> LockGrantType" where
  "try_lock l new_lock first_waiter_in_line =
     try_lock_with_sharing l new_lock first_waiter_in_line (\<lambda>_. False)"

section \<open>Lock requests\<close>

text \<open>
  \<open>waiter_at\<close> is the waiter at an index as the restart scan of \<open>lock_with_sharing\<close> reads it:
  index 0 is \<open>first_waiter\<close>, and the scan ends at the first empty slot, also when that slot
  is an empty \<open>first_waiter\<close>.
\<close>

definition waiter_at :: "LockImpl \<Rightarrow> nat \<Rightarrow> LockInfo option" where
  "waiter_at l i =
     (if i = 0 then first_waiter l
      else if i - 1 < length (olist (waiter_list l)) then Some (olist (waiter_list l) ! (i - 1))
      else None)"

function restart_scan :: "LockImpl \<Rightarrow> LockType \<Rightarrow> int \<Rightarrow> (int \<Rightarrow> bool) \<Rightarrow> nat \<Rightarrow> bool" where
  "restart_scan l request_type lid shares_fn idx =
     (case waiter_at l idx of
        None \<Rightarrow> False
      | Some w \<Rightarrow>
          if lock_type w \<noteq> Restart \<and> lid \<noteq> locker_id w \<and> \<not> shares_fn (locker_id w) \<and>
             get_conflict (lock_type w) request_type = Restart_LC
          then True
          else restart_scan l request_type lid shares_fn (idx + 1))"
  by pat_completeness auto
termination
  by (relation "measure (\<lambda>(l, t, i, f, idx). Suc (length (olist (waiter_list l))) - idx)")
     (auto simp: waiter_at_def split: if_splits)

declare restart_scan.simps [simp del]

definition lock_with_sharing ::
  "LockImpl \<Rightarrow> LockType \<Rightarrow> int \<Rightarrow> bool \<Rightarrow> bool \<Rightarrow> (int \<Rightarrow> bool) \<Rightarrow> LockImpl \<times> LockAttemptResult" where
  "lock_with_sharing l request_type lid non_blocking jump_ahead_of_waiters shares_fn =
     (let new_lock = LockInfo_new lid request_type;
          (l1, grant) = try_lock_with_sharing l new_lock
                          (jump_ahead_of_waiters \<or> n_waiters l = 0) shares_fn
      in if must_wait grant then
           (let grant1 = (if causes_restart request_type \<and> grant \<noteq> WaitRestart \<and>
                             restart_scan l1 request_type lid shares_fn 0
                          then WaitRestart else grant)
            in if non_blocking then (l1, LockAttemptResult_new Denied)
               else if grant1 = WaitPromotion
               then (add_waiter_to_head_of_list l1 new_lock, LockAttemptResult_new grant1)
               else (add_waiter_to_end_of_list l1
                       (if grant1 = WaitRestart then new_lock\<lparr>lock_type := Restart\<rparr> else new_lock),
                     LockAttemptResult_new grant1))
         else (l1, LockAttemptResult_new grant))"

definition lock :: "LockImpl \<Rightarrow> LockType \<Rightarrow> int \<Rightarrow> bool \<Rightarrow> bool \<Rightarrow> LockImpl \<times> LockAttemptResult" where
  "lock l request_type lid non_blocking jump_ahead_of_waiters =
     lock_with_sharing l request_type lid non_blocking jump_ahead_of_waiters (\<lambda>_. False)"

section \<open>Releasing\<close>

text \<open>
  The owner at an index as the loop of \<open>range_insert_conflict_with_sharing\<close> reads it: unlike
  \<open>owner_at\<close>, an empty \<open>first_owner\<close> ends the loop.
\<close>

definition range_owner_at :: "LockImpl \<Rightarrow> nat \<Rightarrow> LockInfo option" where
  "range_owner_at l i =
     (if i = 0 then first_owner l
      else if i - 1 < length (olist (owner_set l)) then Some (olist (owner_set l) ! (i - 1))
      else None)"

function range_insert_loop :: "LockImpl \<Rightarrow> int \<Rightarrow> (int \<Rightarrow> bool) \<Rightarrow> nat \<Rightarrow> bool" where
  "range_insert_loop l waiter_locker shares_fn idx =
     (case range_owner_at l idx of
        None \<Rightarrow> False
      | Some ow \<Rightarrow>
          if locker_id ow \<noteq> waiter_locker \<and> \<not> shares_fn (locker_id ow) \<and> lock_type ow = RangeInsert
          then True
          else range_insert_loop l waiter_locker shares_fn (idx + 1))"
  by pat_completeness auto
termination
  by (relation "measure (\<lambda>(l, w, f, idx). Suc (length (olist (owner_set l))) - idx)")
     (auto simp: range_owner_at_def split: if_splits)

declare range_insert_loop.simps [simp del]

definition range_insert_conflict_with_sharing :: "LockImpl \<Rightarrow> int \<Rightarrow> (int \<Rightarrow> bool) \<Rightarrow> bool" where
  "range_insert_conflict_with_sharing l waiter_locker shares_fn =
     range_insert_loop l waiter_locker shares_fn 0"

text \<open>What a request leaves alone: no lock attempt touches the two waiter fields.\<close>

lemma add_owner_waiter_fields [simp]:
  "first_waiter (add_owner l i) = first_waiter l"
  "waiter_list (add_owner l i) = waiter_list l"
  by (simp_all add: add_owner_def)

lemma update_owner_type_waiter_fields [simp]:
  "first_waiter (update_owner_type l i t) = first_waiter l"
  "waiter_list (update_owner_type l i t) = waiter_list l"
  by (simp_all add: update_owner_type_def Let_def split: option.splits)

lemma try_lock_waiter_fields:
  "first_waiter (fst (try_lock_with_sharing l i b f)) = first_waiter l \<and>
   waiter_list (fst (try_lock_with_sharing l i b f)) = waiter_list l"
  by (auto simp: try_lock_with_sharing_def split: sum.splits option.splits)

text \<open>
  The waiter that the release loop reads at an index, with the index it goes on from: an
  empty \<open>first_waiter\<close> falls through to \<open>waiter_list\<close>.
\<close>

definition release_waiter_at :: "LockImpl \<Rightarrow> nat \<Rightarrow> nat \<times> LockInfo option" where
  "release_waiter_at l i =
     (if i = 0 then
        (if first_waiter l \<noteq> None then (0, first_waiter l)
         else (1, case olist (waiter_list l) of [] \<Rightarrow> None | x # _ \<Rightarrow> Some x))
      else (i, if i - 1 < length (olist (waiter_list l)) then Some (olist (waiter_list l) ! (i - 1))
               else None))"

text \<open>The attempt to turn one waiter into an owner; a \<open>Restart\<close> waiter is never granted.\<close>

definition release_try :: "LockImpl \<Rightarrow> LockInfo \<Rightarrow> (int \<Rightarrow> bool) \<Rightarrow> LockImpl \<times> LockGrantType" where
  "release_try l w shares_fn =
     (if lock_type w = Restart then
        (l, if range_insert_conflict_with_sharing l (locker_id w) shares_fn then WaitNew else New)
      else try_lock l w True)"

definition release_remove_waiter :: "LockImpl \<Rightarrow> nat \<Rightarrow> LockImpl" where
  "release_remove_waiter l i =
     (if i = 0 then l\<lparr>first_waiter := None\<rparr>
      else l\<lparr>waiter_list := map_option (remove_nth (i - 1)) (waiter_list l)\<rparr>)"

lemma release_try_waiter_fields [simp]:
  "first_waiter (fst (release_try l w f)) = first_waiter l"
  "waiter_list (fst (release_try l w f)) = waiter_list l"
  by (simp_all add: release_try_def try_lock_def try_lock_waiter_fields)

lemma release_step_shrinks:
  "release_waiter_at l i = (j, Some w) \<Longrightarrow>
     n_waiters (release_remove_waiter (fst (release_try l w f)) j) < n_waiters l"
  by (auto simp: release_waiter_at_def release_remove_waiter_def n_waiters_def length_remove_nth
      split: if_splits option.splits list.splits)

text \<open>
  The loop collects the lockers that became owners and the notify pairs it has signalled;
  it stops at the first waiter that cannot be granted.
\<close>

function release_loop ::
  "LockImpl \<Rightarrow> (int \<Rightarrow> bool) \<Rightarrow> nat \<Rightarrow> int list \<Rightarrow> nat list \<Rightarrow> LockImpl \<times> int list \<times> nat list" where
  "release_loop l shares_fn waiter_idx notify_set signalled =
     (case release_waiter_at l waiter_idx of
        (_, None) \<Rightarrow> (l, notify_set, signalled)
      | (i, Some w) \<Rightarrow>
          (if is_granted (snd (release_try l w shares_fn)) then
             release_loop (release_remove_waiter (fst (release_try l w shares_fn)) i) shares_fn i
               (notify_set @ [locker_id w]) (signalled @ opt_list (notify w))
           else (fst (release_try l w shares_fn), notify_set, signalled)))"
  by pat_completeness auto
termination
  by (relation "measure (\<lambda>(l, f, i, ns, sg). n_waiters l)") (auto simp: release_step_shrinks)

declare release_loop.simps [simp del]

definition release_with_sharing ::
  "LockImpl \<Rightarrow> int \<Rightarrow> (int \<Rightarrow> bool) \<Rightarrow> LockImpl \<times> (int list \<times> nat list) option" where
  "release_with_sharing l lid shares_fn =
     (case flush_owner l lid of
        (l1, None) \<Rightarrow> (l1, None)
      | (l1, Some _) \<Rightarrow>
          (if n_waiters l1 = 0 then (l1, Some ([], []))
           else (case release_loop l1 shares_fn 0 [] [] of (l2, ns, sg) \<Rightarrow> (l2, Some (ns, sg)))))"

definition release :: "LockImpl \<Rightarrow> int \<Rightarrow> LockImpl \<times> (int list \<times> nat list) option" where
  "release l lid = release_with_sharing l lid (\<lambda>_. False)"

section \<open>Demotion, stealing, waiter removal and queries\<close>

definition demote :: "LockImpl \<Rightarrow> int \<Rightarrow> LockImpl" where
  "demote l lid =
     (case get_owner_lock_info l lid of
        None \<Rightarrow> l
      | Some i \<Rightarrow>
          if is_write_lock (lock_type i)
          then update_owner_type l lid (if lock_type i = RangeWrite then RangeRead else Read)
          else l)"

definition steal_lock_preemptable ::
  "LockImpl \<Rightarrow> int \<Rightarrow> (int \<Rightarrow> bool) \<Rightarrow> LockImpl \<times> int list" where
  "steal_lock_preemptable l lid preemptable_fn =
     (let victim = (\<lambda>i. locker_id i \<noteq> lid \<and> preemptable_fn (locker_id i));
          (l1, p1) = (case first_owner l of
                        Some i \<Rightarrow> if victim i then (l\<lparr>first_owner := None\<rparr>, [locker_id i]) else (l, [])
                      | None \<Rightarrow> (l, []))
      in case owner_set l1 of
           None \<Rightarrow> (l1, p1)
         | Some s \<Rightarrow> (l1\<lparr>owner_set := Some (filter (\<lambda>i. \<not> victim i) s)\<rparr>,
                      p1 @ map locker_id (filter victim s)))"

definition steal_lock :: "LockImpl \<Rightarrow> int \<Rightarrow> LockImpl \<times> int list" where
  "steal_lock l lid = steal_lock_preemptable l lid (\<lambda>_. True)"

definition flush_waiter :: "LockImpl \<Rightarrow> int \<Rightarrow> LockImpl" where
  "flush_waiter l lid =
     (let rest = l\<lparr>waiter_list := map_option (filter (\<lambda>i. locker_id i \<noteq> lid)) (waiter_list l)\<rparr> in
      case first_waiter l of
        Some w \<Rightarrow> if locker_id w = lid then l\<lparr>first_waiter := None\<rparr> else rest
      | None \<Rightarrow> rest)"

definition set_waiter_notify :: "LockImpl \<Rightarrow> int \<Rightarrow> nat \<Rightarrow> LockImpl" where
  "set_waiter_notify l lid n =
     (let rest = l\<lparr>waiter_list := map_option
                     (update_first (\<lambda>i. locker_id i = lid) (\<lambda>i. i\<lparr>notify := Some n\<rparr>)) (waiter_list l)\<rparr> in
      case first_waiter l of
        Some w \<Rightarrow> if locker_id w = lid then l\<lparr>first_waiter := Some (w\<lparr>notify := Some n\<rparr>)\<rparr> else rest
      | None \<Rightarrow> rest)"

definition is_owner :: "LockImpl \<Rightarrow> int \<Rightarrow> LockType \<Rightarrow> bool" where
  "is_owner l lid t =
     (case get_owner_lock_info l lid of None \<Rightarrow> False | Some i \<Rightarrow> lock_type i = t)"

definition is_owned_write_lock :: "LockImpl \<Rightarrow> int \<Rightarrow> bool" where
  "is_owned_write_lock l lid =
     (case get_owner_lock_info l lid of None \<Rightarrow> False | Some i \<Rightarrow> is_write_lock (lock_type i))"

definition get_owned_lock_type :: "LockImpl \<Rightarrow> int \<Rightarrow> LockType option" where
  "get_owned_lock_type l lid = map_option lock_type (get_owner_lock_info l lid)"

definition is_waiter :: "LockImpl \<Rightarrow> int \<Rightarrow> bool" where
  "is_waiter l lid =
     ((case first_waiter l of Some w \<Rightarrow> locker_id w = lid | None \<Rightarrow> False) \<or>
      list_ex (\<lambda>i. locker_id i = lid) (olist (waiter_list l)))"

definition get_write_owner_locker_id :: "LockImpl \<Rightarrow> int option" where
  "get_write_owner_locker_id l =
     (case first_owner l of
        Some i \<Rightarrow> if is_write_lock (lock_type i) then Some (locker_id i)
                  else map_option locker_id (List.find (\<lambda>i. is_write_lock (lock_type i)) (olist (owner_set l)))
      | None \<Rightarrow> map_option locker_id (List.find (\<lambda>i. is_write_lock (lock_type i)) (olist (owner_set l))))"

section \<open>The four fields as two lists\<close>

lemma n_owners_length: "n_owners l = length (get_owners_clone l)"
  by (cases "first_owner l") (auto simp: n_owners_def get_owners_clone_def length_olist)

lemma n_waiters_length: "n_waiters l = length (get_waiters_clone l)"
  by (cases "first_waiter l") (auto simp: n_waiters_def get_waiters_clone_def length_olist)

lemma owners_new [owners_simps]: "get_owners_clone LockImpl_new = []"
  by (simp add: get_owners_clone_def LockImpl_new_def)

lemma waiters_new [waiters_simps]: "get_waiters_clone LockImpl_new = []"
  by (simp add: get_waiters_clone_def LockImpl_new_def)

lemma waiters_add_end [waiters_simps]:
  "get_waiters_clone (add_waiter_to_end_of_list l w) = get_waiters_clone l @ [w]"
  by (auto simp: get_waiters_clone_def add_waiter_to_end_of_list_def split: option.splits)

lemma waiters_add_head [waiters_simps]:
  "get_waiters_clone (add_waiter_to_head_of_list l w) = w # get_waiters_clone l"
  by (auto simp: get_waiters_clone_def add_waiter_to_head_of_list_def split: option.splits)

lemma owners_add_waiter [owners_simps]:
  "get_owners_clone (add_waiter_to_end_of_list l w) = get_owners_clone l"
  "get_owners_clone (add_waiter_to_head_of_list l w) = get_owners_clone l"
  by (auto simp: get_owners_clone_def add_waiter_to_end_of_list_def
      add_waiter_to_head_of_list_def split: option.splits)

text \<open>
  A new owner goes to the front when \<open>first_owner\<close> is free and to the back otherwise, so
  only the set of owners and the distinctness of their lockers are order-independent.
\<close>

lemma owners_add_owner:
  "get_owners_clone (add_owner l i) =
     (if first_owner l = None then i # get_owners_clone l else get_owners_clone l @ [i])"
  by (cases "first_owner l") (auto simp: get_owners_clone_def add_owner_def)

lemma set_owners_add_owner [owners_simps]:
  "set (get_owners_clone (add_owner l i)) = insert i (set (get_owners_clone l))"
  by (simp add: owners_add_owner)

lemma distinct_owners_add_owner [owners_simps]:
  "distinct (map f (get_owners_clone (add_owner l i))) \<longleftrightarrow>
     f i \<notin> f ` set (get_owners_clone l) \<and> distinct (map f (get_owners_clone l))"
  by (auto simp: owners_add_owner)

lemma waiters_add_owner [waiters_simps]: "get_waiters_clone (add_owner l i) = get_waiters_clone l"
  by (simp add: get_waiters_clone_def)

lemma waiters_update_owner_type [waiters_simps]:
  "get_waiters_clone (update_owner_type l i t) = get_waiters_clone l"
  by (simp add: get_waiters_clone_def)

lemma owners_update_owner_type [owners_simps]:
  "get_owners_clone (update_owner_type l lid t) =
     update_first (\<lambda>x. locker_id x = lid) (\<lambda>x. x\<lparr>lock_type := t\<rparr>) (get_owners_clone l)"
  by (cases "first_owner l")
     (auto simp: get_owners_clone_def update_owner_type_def update_first_append Let_def)

lemma get_owner_lock_info_find:
  "get_owner_lock_info l lid = List.find (\<lambda>x. locker_id x = lid) (get_owners_clone l)"
  by (cases "first_owner l") (auto simp: get_owner_lock_info_def get_owners_clone_def)

lemma owners_flush_owner [owners_simps]:
  "get_owners_clone (fst (flush_owner l lid)) =
     remove_first (\<lambda>x. locker_id x = lid) (get_owners_clone l)"
  by (cases "first_owner l"; cases "owner_set l")
     (auto simp: get_owners_clone_def flush_owner_def remove_nth_position remove_first_none
           split: option.splits)

lemma flush_owner_removed:
  "snd (flush_owner l lid) = List.find (\<lambda>x. locker_id x = lid) (get_owners_clone l)"
  by (cases "first_owner l"; cases "owner_set l")
     (auto simp: get_owners_clone_def flush_owner_def find_eq_position
           split: option.splits)

lemma waiters_flush_owner [waiters_simps]:
  "get_waiters_clone (fst (flush_owner l lid)) = get_waiters_clone l"
  by (auto simp: get_waiters_clone_def flush_owner_def split: option.splits)

lemma owners_steal [owners_simps]:
  "get_owners_clone (fst (steal_lock_preemptable l lid p)) =
     filter (\<lambda>i. \<not> (locker_id i \<noteq> lid \<and> p (locker_id i))) (get_owners_clone l)"
  by (cases "first_owner l"; cases "owner_set l")
     (auto simp: steal_lock_preemptable_def get_owners_clone_def Let_def)

lemma steal_preempted:
  "snd (steal_lock_preemptable l lid p) =
     map locker_id (filter (\<lambda>i. locker_id i \<noteq> lid \<and> p (locker_id i)) (get_owners_clone l))"
  by (cases "first_owner l"; cases "owner_set l")
     (auto simp: steal_lock_preemptable_def get_owners_clone_def Let_def)

lemma waiters_steal [waiters_simps]:
  "get_waiters_clone (fst (steal_lock_preemptable l lid p)) = get_waiters_clone l"
  by (auto simp: steal_lock_preemptable_def get_waiters_clone_def Let_def split: option.splits)

lemma owners_waiter_ops [owners_simps]:
  "get_owners_clone (flush_waiter l lid) = get_owners_clone l"
  "get_owners_clone (set_waiter_notify l lid n) = get_owners_clone l"
  by (auto simp: flush_waiter_def set_waiter_notify_def get_owners_clone_def Let_def
      split: option.splits)

lemma waiters_set_waiter_notify [waiters_simps]:
  "get_waiters_clone (set_waiter_notify l lid n) =
     update_first (\<lambda>i. locker_id i = lid) (\<lambda>i. i\<lparr>notify := Some n\<rparr>) (get_waiters_clone l)"
  by (cases "first_waiter l")
     (auto simp: set_waiter_notify_def get_waiters_clone_def Let_def)

lemma flush_waiter_subset: "set (get_waiters_clone (flush_waiter l lid)) \<subseteq> set (get_waiters_clone l)"
  by (cases "first_waiter l") (auto simp: flush_waiter_def get_waiters_clone_def Let_def)

lemma is_waiter_iff: "is_waiter l lid \<longleftrightarrow> lid \<in> locker_id ` set (get_waiters_clone l)"
  by (cases "first_waiter l") (auto simp: is_waiter_def get_waiters_clone_def list_ex_iff)

lemma get_write_owner_find:
  "get_write_owner_locker_id l =
     map_option locker_id (List.find (\<lambda>i. is_write_lock (lock_type i)) (get_owners_clone l))"
  by (cases "first_owner l") (auto simp: get_write_owner_locker_id_def get_owners_clone_def)

section \<open>The index loops as list scans\<close>

text \<open>The reference form of the owner loop: a recursion over the list of owners.\<close>

fun owner_scan ::
  "LockInfo list \<Rightarrow> LockInfo \<Rightarrow> (int \<Rightarrow> bool) \<Rightarrow> LockUpgrade option \<Rightarrow> bool \<Rightarrow> bool \<Rightarrow>
     LockGrantType + (LockUpgrade option \<times> bool \<times> bool)" where
  "owner_scan [] new_lock f u e c = Inr (u, e, c)"
| "owner_scan (ow # os) new_lock f u e c =
     (if locker_id new_lock = locker_id ow then
        (let upg = get_upgrade (lock_type ow) (lock_type new_lock) in
         if is_illegal upg then Inl IllegalUpgrade
         else if get_upgrade_type upg = None then Inl Existing
         else owner_scan os new_lock f (Some upg) e c)
      else if f (locker_id ow) then owner_scan os new_lock f u e c
      else if get_conflict (lock_type ow) (lock_type new_lock) = Restart_LC then Inl WaitRestart
      else owner_scan os new_lock f u True
             (c \<or> get_conflict (lock_type ow) (lock_type new_lock) = Block))"

lemma try_lock_loop_Suc:
  "try_lock_loop l n f (Suc i) u e c = owner_scan (drop i (olist (owner_set l))) n f u e c"
proof (induction "length (olist (owner_set l)) - i" arbitrary: i u e c)
  case 0
  then show ?case by (subst try_lock_loop.simps) (simp add: owner_at_def)
next
  case (Suc k)
  then have i: "i < length (olist (owner_set l))" by simp
  have IH: "try_lock_loop l n f (Suc (Suc i)) u e c =
      owner_scan (drop (Suc i) (olist (owner_set l))) n f u e c" for u e c
    using Suc by simp
  show ?case
    using i by (subst try_lock_loop.simps)
      (simp add: owner_at_def IH Cons_nth_drop_Suc [symmetric] Let_def)
qed

lemma try_lock_loop_scan:
  "try_lock_loop l n f 0 u e c = owner_scan (get_owners_clone l) n f u e c"
proof (cases "first_owner l")
  case None
  then show ?thesis
    by (subst try_lock_loop.simps)
      (auto simp: owner_at_def get_owners_clone_def try_lock_loop_Suc Let_def numeral_2_eq_2
        split: list.splits)
next
  case (Some ow)
  then show ?thesis
    by (subst try_lock_loop.simps)
      (simp add: owner_at_def get_owners_clone_def try_lock_loop_Suc Let_def)
qed

lemma range_insert_loop_Suc:
  "range_insert_loop l w f (Suc i) =
     list_ex (\<lambda>ow. locker_id ow \<noteq> w \<and> \<not> f (locker_id ow) \<and> lock_type ow = RangeInsert)
       (drop i (olist (owner_set l)))"
proof (induction "length (olist (owner_set l)) - i" arbitrary: i)
  case 0
  then show ?case by (subst range_insert_loop.simps) (simp add: range_owner_at_def)
next
  case (Suc k)
  then have "i < length (olist (owner_set l))" by simp
  with Suc show ?case
    by (subst range_insert_loop.simps)
      (simp add: range_owner_at_def Cons_nth_drop_Suc [symmetric])
qed

text \<open>
  With a first owner in place the check for range inserts sees every owner; with
  \<open>first_owner\<close> empty it sees none.
\<close>

lemma range_insert_conflict_first:
  assumes "first_owner l \<noteq> None"
  shows "range_insert_conflict_with_sharing l w f \<longleftrightarrow>
     (\<exists>ow \<in> set (get_owners_clone l).
        locker_id ow \<noteq> w \<and> \<not> f (locker_id ow) \<and> lock_type ow = RangeInsert)"
  using assms
  by (auto simp: range_insert_conflict_with_sharing_def range_insert_loop.simps [of l w f 0]
      range_owner_at_def range_insert_loop_Suc get_owners_clone_def list_ex_iff)

lemma range_insert_conflict_no_first:
  "first_owner l = None \<Longrightarrow> \<not> range_insert_conflict_with_sharing l w f"
  by (simp add: range_insert_conflict_with_sharing_def range_insert_loop.simps [of l w f 0]
      range_owner_at_def)

lemma restart_scan_Suc:
  "restart_scan l t lid f (Suc i) =
     list_ex (\<lambda>w. lock_type w \<noteq> Restart \<and> lid \<noteq> locker_id w \<and> \<not> f (locker_id w) \<and>
        get_conflict (lock_type w) t = Restart_LC) (drop i (olist (waiter_list l)))"
proof (induction "length (olist (waiter_list l)) - i" arbitrary: i)
  case 0
  then show ?case by (subst restart_scan.simps) (simp add: waiter_at_def)
next
  case (Suc k)
  then have "i < length (olist (waiter_list l))" by simp
  with Suc show ?case
    by (subst restart_scan.simps) (simp add: waiter_at_def Cons_nth_drop_Suc [symmetric])
qed

lemma restart_scan_first:
  assumes "first_waiter l \<noteq> None"
  shows "restart_scan l t lid f 0 \<longleftrightarrow>
     (\<exists>w \<in> set (get_waiters_clone l). lock_type w \<noteq> Restart \<and> lid \<noteq> locker_id w \<and>
        \<not> f (locker_id w) \<and> get_conflict (lock_type w) t = Restart_LC)"
  using assms
  by (auto simp: restart_scan.simps [of l t lid f 0] waiter_at_def restart_scan_Suc
      get_waiters_clone_def list_ex_iff)

section \<open>What a scan establishes\<close>

lemma owner_scan_conflict_mono: "owner_scan os n f u e True = Inr (u', e', c') \<Longrightarrow> c'"
  by (induction os n f u e True rule: owner_scan.induct) (auto simp: Let_def split: if_splits)

lemma owner_scan_no_conflict:
  "owner_scan os n f u e c = Inr (u', e', False) \<Longrightarrow>
     \<forall>ow \<in> set os. locker_id ow \<noteq> locker_id n \<longrightarrow>
        f (locker_id ow) \<or> get_conflict (lock_type ow) (lock_type n) = Allow"
proof (induction os n f u e c rule: owner_scan.induct)
  case (2 ow os n f u e c)
  then show ?case
    by (cases "get_conflict (lock_type ow) (lock_type n)")
       (auto simp: Let_def split: if_splits dest: owner_scan_conflict_mono)
qed simp

lemma owner_scan_upgrade:
  "owner_scan os n f u e c = Inr (u', e', c') \<Longrightarrow>
     u' = u \<or> (\<exists>ow \<in> set os. locker_id ow = locker_id n \<and>
       u' = Some (get_upgrade (lock_type ow) (lock_type n)))"
  by (induction os n f u e c rule: owner_scan.induct) (auto simp: Let_def split: if_splits)

lemma owner_scan_not_owner:
  "owner_scan os n f u e c = Inr (None, e', c') \<Longrightarrow>
     u = None \<and> locker_id n \<notin> locker_id ` set os"
  by (induction os n f u e c rule: owner_scan.induct) (auto simp: Let_def split: if_splits)

lemma owner_scan_early:
  "owner_scan os n f u e c = Inl g \<Longrightarrow>
     g = IllegalUpgrade \<or> g = WaitRestart \<or>
     (g = Existing \<and> (\<exists>ow \<in> set os. locker_id ow = locker_id n \<and>
        get_upgrade (lock_type ow) (lock_type n) = Existing_LU))"
proof (induction os n f u e c rule: owner_scan.induct)
  case (2 ow os n f u e c)
  then show ?case
    by (cases "get_upgrade (lock_type ow) (lock_type n)")
       (auto simp: Let_def is_illegal_def split: if_splits)
qed simp

section \<open>The lock invariant\<close>

text \<open>
  \<open>shares\<close> is the relation \<open>sharesLocksWith\<close> of the lock manager.  No locker appears twice
  among the owners, and any two owners that do not share locks hold compatible types; the
  types that stand for "no lock" never own, and only waiters are marked \<open>Restart\<close>.
\<close>

definition record_type :: "LockType \<Rightarrow> bool" where
  "record_type t \<longleftrightarrow> t \<noteq> None_LT \<and> t \<noteq> Restart"

definition owners_compatible :: "(int \<Rightarrow> int \<Rightarrow> bool) \<Rightarrow> LockInfo list \<Rightarrow> bool" where
  "owners_compatible shares os \<longleftrightarrow>
     distinct (map locker_id os) \<and>
     (\<forall>a \<in> set os. record_type (lock_type a)) \<and>
     (\<forall>a \<in> set os. \<forall>b \<in> set os. locker_id a \<noteq> locker_id b \<longrightarrow>
        shares (locker_id a) (locker_id b) \<or> get_conflict (lock_type a) (lock_type b) = Allow)"

definition waiters_wf :: "LockInfo list \<Rightarrow> bool" where
  "waiters_wf ws \<longleftrightarrow> (\<forall>w \<in> set ws. lock_type w \<noteq> None_LT)"

lemma waiters_wf_map: "waiters_wf ws \<longleftrightarrow> None_LT \<notin> set (map lock_type ws)"
  by (force simp: waiters_wf_def)

definition lock_inv :: "(int \<Rightarrow> int \<Rightarrow> bool) \<Rightarrow> LockImpl \<Rightarrow> bool" where
  "lock_inv shares l \<longleftrightarrow>
     owners_compatible shares (get_owners_clone l) \<and> waiters_wf (get_waiters_clone l)"

lemma lock_inv_owners: "lock_inv shares l \<Longrightarrow> owners_compatible shares (get_owners_clone l)"
  by (simp add: lock_inv_def)

lemma lock_inv_new [lock_inv_intros]: "lock_inv shares LockImpl_new"
  by (simp add: lock_inv_def owners_compatible_def waiters_wf_def owners_simps waiters_simps)

lemma owners_compatible_subset:
  "owners_compatible shares os \<Longrightarrow> set os' \<subseteq> set os \<Longrightarrow> distinct (map locker_id os') \<Longrightarrow>
     owners_compatible shares os'"
  unfolding owners_compatible_def by blast

lemma owners_compatible_unique:
  "owners_compatible shares os \<Longrightarrow> a \<in> set os \<Longrightarrow> b \<in> set os \<Longrightarrow> locker_id a = locker_id b \<Longrightarrow> a = b"
  by (auto simp: owners_compatible_def distinct_map dest: inj_onD)

lemma owners_compatible_pairD:
  "owners_compatible shares os \<Longrightarrow> a \<in> set os \<Longrightarrow> b \<in> set os \<Longrightarrow> locker_id a \<noteq> locker_id b \<Longrightarrow>
     shares (locker_id a) (locker_id b) \<or> get_conflict (lock_type a) (lock_type b) = Allow"
  by (simp add: owners_compatible_def)

lemma owners_compatible_insert:
  assumes "owners_compatible shares os" and "symp shares"
    and "set os' = insert n (set os)" and "distinct (map locker_id os')"
    and "record_type (lock_type n)"
    and "\<forall>ow \<in> set os. locker_id ow \<noteq> locker_id n \<longrightarrow>
       shares (locker_id n) (locker_id ow) \<or> get_conflict (lock_type ow) (lock_type n) = Allow"
  shows "owners_compatible shares os'"
proof -
  have "shares (locker_id a) (locker_id b) \<or> get_conflict (lock_type a) (lock_type b) = Allow"
    if "a \<in> set os'" "b \<in> set os'" "locker_id a \<noteq> locker_id b" for a b
    using that assms(1,3,6) sympD [OF assms(2)] compatible_swap
    unfolding owners_compatible_def by (metis insert_iff)
  with assms(1,3,4,5) show ?thesis by (auto simp: owners_compatible_def)
qed

text \<open>
  Changing the type of one owner keeps compatibility when every other owner that does not
  share locks allows the new type.
\<close>

lemma in_retyped_owners:
  "distinct (map locker_id os) \<Longrightarrow>
   b \<in> set (update_first (\<lambda>x. locker_id x = lid) (\<lambda>x. x\<lparr>lock_type := t\<rparr>) os) \<Longrightarrow>
     b \<in> set os \<and> locker_id b \<noteq> lid \<or> locker_id b = lid \<and> lock_type b = t"
  by (induction os) (auto simp: image_iff split: if_splits)

lemma owners_compatible_retype:
  assumes inv: "owners_compatible shares os" and sym: "symp shares" and t: "record_type t"
    and ok: "\<forall>ow \<in> set os. locker_id ow \<noteq> lid \<longrightarrow>
       shares lid (locker_id ow) \<or> get_conflict (lock_type ow) t = Allow"
  shows "owners_compatible shares
     (update_first (\<lambda>x. locker_id x = lid) (\<lambda>x. x\<lparr>lock_type := t\<rparr>) os)" (is "owners_compatible _ ?os")
proof -
  have old: "b \<in> set os \<and> locker_id b \<noteq> lid \<or> locker_id b = lid \<and> lock_type b = t"
    if "b \<in> set ?os" for b
    using that inv in_retyped_owners unfolding owners_compatible_def by blast
  have "distinct (map locker_id ?os)"
    using inv by (simp add: owners_compatible_def map_update_first)
  moreover have "record_type (lock_type b)" if "b \<in> set ?os" for b
    using old [OF that] inv t by (auto simp: owners_compatible_def)
  moreover have "shares (locker_id a) (locker_id b) \<or> get_conflict (lock_type a) (lock_type b) = Allow"
    if "a \<in> set ?os" "b \<in> set ?os" "locker_id a \<noteq> locker_id b" for a b
  proof -
    have both: "shares (locker_id a) (locker_id b) \<or> get_conflict (lock_type a) (lock_type b) = Allow"
      if "a \<in> set os" "b \<in> set os" using that \<open>locker_id a \<noteq> locker_id b\<close> inv
      by (auto simp: owners_compatible_def)
    from old [OF that(1)] show ?thesis
    proof (elim disjE conjE)
      assume a: "a \<in> set os" "locker_id a \<noteq> lid"
      from old [OF that(2)] show ?thesis
        using a both ok sympD [OF sym] by blast
    next
      assume a: "locker_id a = lid" "lock_type a = t"
      with old [OF that(2)] that(3) have "b \<in> set os" "locker_id b \<noteq> lid" by auto
      with ok have "shares lid (locker_id b) \<or> get_conflict (lock_type b) t = Allow" by blast
      with a show ?thesis by (auto dest: compatible_swap)
    qed
  qed
  ultimately show ?thesis by (simp add: owners_compatible_def)
qed

lemma owners_compatible_add_owner:
  assumes "owners_compatible shares (get_owners_clone l)" and "symp shares"
    and "locker_id n \<notin> locker_id ` set (get_owners_clone l)" and "record_type (lock_type n)"
    and "\<forall>ow \<in> set (get_owners_clone l). locker_id ow \<noteq> locker_id n \<longrightarrow>
       shares (locker_id n) (locker_id ow) \<or> get_conflict (lock_type ow) (lock_type n) = Allow"
  shows "owners_compatible shares (get_owners_clone (add_owner l n))"
  by (rule owners_compatible_insert [OF assms(1,2) _ _ assms(4,5)])
     (use assms(1,3) in \<open>simp_all add: owners_simps owners_compatible_def\<close>)

lemma try_lock_cases:
  "try_lock_with_sharing l n b f =
     (if get_owners_clone l = [] then (add_owner l n, New)
      else case owner_scan (get_owners_clone l) n f None False False of
        Inl g \<Rightarrow> (l, g)
      | Inr (Some upg, _, c) \<Rightarrow>
          (if is_illegal upg then (l, IllegalUpgrade)
           else case get_upgrade_type upg of
             None \<Rightarrow> (l, Existing)
           | Some t \<Rightarrow> if \<not> c then (update_owner_type l (locker_id n) t,
                                    if is_promotion upg then Promotion else Existing)
                       else (l, WaitPromotion))
      | Inr (None, e, c) \<Rightarrow>
          (if \<not> c \<and> (\<not> e \<or> b) then (add_owner l n, New) else (l, WaitNew)))"
  by (simp add: try_lock_with_sharing_def n_owners_length try_lock_loop_scan)

lemma upgrade_record_type: "get_upgrade_type u = Some t \<Longrightarrow> record_type t"
  by (cases u) (auto simp: record_type_def)

lemma try_lock_owners_compatible:
  assumes inv: "owners_compatible shares (get_owners_clone l)" and sym: "symp shares"
    and f: "\<And>i. f i \<Longrightarrow> shares (locker_id n) i" and n: "record_type (lock_type n)"
  shows "owners_compatible shares (get_owners_clone (fst (try_lock_with_sharing l n b f)))"
proof (cases "get_owners_clone l = []")
  case True
  with inv sym n show ?thesis
    using owners_compatible_add_owner [of shares l n] by (simp add: try_lock_cases)
next
  case False
  let ?os = "get_owners_clone l"
  show ?thesis
  proof (cases "owner_scan ?os n f None False False")
    case (Inl g)
    with False inv show ?thesis by (simp add: try_lock_cases)
  next
    case (Inr r)
    then obtain u e c where r: "owner_scan ?os n f None False False = Inr (u, e, c)"
      by (cases r) auto
    have ok: "\<forall>ow \<in> set ?os. locker_id ow \<noteq> locker_id n \<longrightarrow>
        shares (locker_id n) (locker_id ow) \<or> get_conflict (lock_type ow) (lock_type n) = Allow"
      if "\<not> c" using owner_scan_no_conflict [of ?os n f None False False u e] r that f by auto
    show ?thesis
    proof (cases u)
      case None
      with owner_scan_not_owner r have "locker_id n \<notin> locker_id ` set ?os" by blast
      with ok have "owners_compatible shares (get_owners_clone (add_owner l n))" if "\<not> c"
        using owners_compatible_add_owner [OF inv sym _ n] that by blast
      with False r None inv show ?thesis by (simp add: try_lock_cases)
    next
      case (Some upg)
      then obtain ow where ow: "ow \<in> set ?os" "locker_id ow = locker_id n"
        "upg = get_upgrade (lock_type ow) (lock_type n)"
        using owner_scan_upgrade [OF r] by auto
      have retype: "owners_compatible shares (get_owners_clone (update_owner_type l (locker_id n) t))"
        if "\<not> c" "get_upgrade_type upg = Some t" for t
        unfolding owners_update_owner_type
      proof (rule owners_compatible_retype [OF inv sym upgrade_record_type [OF that(2)]], intro ballI impI)
        fix x assume x: "x \<in> set ?os" "locker_id x \<noteq> locker_id n"
        show "shares (locker_id n) (locker_id x) \<or> get_conflict (lock_type x) t = Allow"
          using ok [OF that(1)] x inv ow that(2) sympD [OF sym]
            upgrade_keeps_compatible [of "lock_type ow" "lock_type n" t "lock_type x"]
          unfolding owners_compatible_def by metis
      qed
      from False r Some inv retype show ?thesis
        by (auto simp: try_lock_cases split: option.splits)
    qed
  qed
qed

lemma try_lock_lock_inv [lock_inv_intros]:
  assumes "lock_inv shares l" and "symp shares" and "\<And>i. f i \<Longrightarrow> shares (locker_id n) i"
    and "record_type (lock_type n)"
  shows "lock_inv shares (fst (try_lock_with_sharing l n b f))"
  using assms try_lock_owners_compatible
  by (simp add: lock_inv_def get_waiters_clone_def try_lock_waiter_fields)

lemma lock_with_sharing_owners:
  "get_owners_clone (fst (lock_with_sharing l t lid nb j f)) =
     get_owners_clone (fst (try_lock_with_sharing l (LockInfo_new lid t) (j \<or> n_waiters l = 0) f))"
  by (auto simp: lock_with_sharing_def Let_def owners_simps split: prod.splits)

lemma lock_with_sharing_waiters:
  "set (get_waiters_clone (fst (lock_with_sharing l t lid nb j f))) \<subseteq>
     set (get_waiters_clone l) \<union> {LockInfo_new lid t, LockInfo_new lid Restart}"
proof -
  let ?r = "try_lock_with_sharing l (LockInfo_new lid t) (j \<or> n_waiters l = 0) f"
  have "get_waiters_clone (fst ?r) = get_waiters_clone l"
    by (simp add: get_waiters_clone_def try_lock_waiter_fields)
  then show ?thesis
    by (cases ?r) (auto simp: lock_with_sharing_def Let_def waiters_simps LockInfo_new_def)
qed

lemma lock_with_sharing_lock_inv [lock_inv_intros]:
  assumes "lock_inv shares l" and "symp shares" and "\<And>i. f i \<Longrightarrow> shares lid i" and "record_type t"
  shows "lock_inv shares (fst (lock_with_sharing l t lid nb j f))"
proof -
  have "owners_compatible shares (get_owners_clone (fst (lock_with_sharing l t lid nb j f)))"
    unfolding lock_with_sharing_owners
    using assms by (intro try_lock_owners_compatible) (simp_all add: lock_inv_def)
  moreover have "waiters_wf (get_waiters_clone (fst (lock_with_sharing l t lid nb j f)))"
    using assms(1,4) lock_with_sharing_waiters [of l t lid nb j f]
    by (auto simp: lock_inv_def waiters_wf_def record_type_def)
  ultimately show ?thesis by (simp add: lock_inv_def)
qed

lemma flush_owner_lock_inv [lock_inv_intros]:
  assumes "lock_inv shares l"
  shows "lock_inv shares (fst (flush_owner l lid))"
proof -
  have "owners_compatible shares (remove_first (\<lambda>x. locker_id x = lid) (get_owners_clone l))"
    by (rule owners_compatible_subset [of shares "get_owners_clone l"])
      (use assms in \<open>simp_all add: lock_inv_def set_remove_first_subset distinct_remove_first
        owners_compatible_def\<close>)
  with assms show ?thesis by (simp add: lock_inv_def owners_simps waiters_simps)
qed

lemma release_remove_waiter_owners [owners_simps]:
  "get_owners_clone (release_remove_waiter l i) = get_owners_clone l"
  by (simp add: release_remove_waiter_def get_owners_clone_def)

lemma release_remove_waiter_subset:
  "set (get_waiters_clone (release_remove_waiter l i)) \<subseteq> set (get_waiters_clone l)"
  by (auto simp: release_remove_waiter_def get_waiters_clone_def split: if_splits
      dest: subsetD [OF set_remove_nth_subset])

lemma release_waiter_at_mem:
  "release_waiter_at l i = (j, Some w) \<Longrightarrow> w \<in> set (get_waiters_clone l)"
  by (auto simp: release_waiter_at_def get_waiters_clone_def split: if_splits list.splits)

lemma release_try_lock_inv:
  assumes "lock_inv shares l" and "symp shares" and "w \<in> set (get_waiters_clone l)"
  shows "lock_inv shares (fst (release_try l w f))"
  using assms
  by (auto simp: release_try_def try_lock_def lock_inv_def [of shares l] waiters_wf_def record_type_def
      intro!: try_lock_lock_inv)

lemma release_loop_lock_inv:
  assumes "symp shares"
  shows "lock_inv shares l \<Longrightarrow> lock_inv shares (fst (release_loop l f i ns sg))"
proof (induction l f i ns sg rule: release_loop.induct)
  case (1 l f i ns sg)
  show ?case
  proof (cases "release_waiter_at l i")
    case (Pair j ow)
    show ?thesis
    proof (cases ow)
      case None
      with Pair 1 show ?thesis by (subst release_loop.simps) simp
    next
      case (Some w)
      let ?l = "fst (release_try l w f)"
      have l: "lock_inv shares ?l"
        using release_try_lock_inv [OF "1.prems" assms] release_waiter_at_mem Pair Some by blast
      then have "lock_inv shares (release_remove_waiter ?l j)"
        using release_remove_waiter_subset [of ?l j]
        by (auto simp: lock_inv_def owners_simps waiters_wf_def)
      with Pair Some l 1 show ?thesis by (subst release_loop.simps) simp
    qed
  qed
qed

lemma release_with_sharing_lock_inv [lock_inv_intros]:
  assumes "lock_inv shares l" and "symp shares"
  shows "lock_inv shares (fst (release_with_sharing l lid f))"
proof (cases "flush_owner l lid")
  case (Pair l1 r)
  with flush_owner_lock_inv [OF assms(1), of lid] have "lock_inv shares l1" by simp
  with Pair release_loop_lock_inv [OF assms(2), of l1 f 0 "[]" "[]"] show ?thesis
    by (auto simp: release_with_sharing_def split: prod.splits option.splits)
qed

lemma demote_lock_inv [lock_inv_intros]:
  assumes inv: "lock_inv shares l" and sym: "symp shares"
  shows "lock_inv shares (demote l lid)"
proof (cases "get_owner_lock_info l lid")
  case None
  with inv show ?thesis by (simp add: demote_def)
next
  case (Some i)
  then have i: "i \<in> set (get_owners_clone l)" "locker_id i = lid"
    by (auto simp: get_owner_lock_info_find dest: find_SomeD)
  define t where "t = (if lock_type i = RangeWrite then RangeRead else Read)"
  have weaker: "get_conflict x t = Allow" if "is_write_lock (lock_type i)"
    "get_conflict x (lock_type i) = Allow" for x
    using that unfolding t_def by (cases x; cases "lock_type i") auto
  have "owners_compatible shares (get_owners_clone (update_owner_type l lid t))"
    if w: "is_write_lock (lock_type i)" unfolding owners_update_owner_type
  proof (rule owners_compatible_retype [OF _ sym], goal_cases)
    case 1
    with inv show ?case by (simp add: lock_inv_def)
  next
    case 2
    show ?case by (simp add: t_def record_type_def)
  next
    case 3
    have "shares lid (locker_id x) \<or> get_conflict (lock_type x) t = Allow"
      if "x \<in> set (get_owners_clone l)" "locker_id x \<noteq> lid" for x
      using owners_compatible_pairD [of shares "get_owners_clone l" i x] inv i that
        weaker [OF w, of "lock_type x"] compatible_swap [of "lock_type i" "lock_type x"]
      by (auto simp: lock_inv_def)
    then show ?case by simp
  qed
  with Some inv show ?thesis
    by (simp add: demote_def lock_inv_def waiters_simps t_def)
qed

lemma steal_lock_inv [lock_inv_intros]:
  assumes "lock_inv shares l"
  shows "lock_inv shares (fst (steal_lock_preemptable l lid p))"
proof -
  let ?p = "\<lambda>i. \<not> (locker_id i \<noteq> lid \<and> p (locker_id i))"
  have "owners_compatible shares (filter ?p (get_owners_clone l))"
    by (rule owners_compatible_subset [of shares "get_owners_clone l"])
      (use assms in \<open>auto simp: lock_inv_def owners_compatible_def distinct_map_filter\<close>)
  with assms show ?thesis by (simp add: lock_inv_def owners_simps waiters_simps)
qed

lemma flush_waiter_lock_inv [lock_inv_intros]:
  "lock_inv shares l \<Longrightarrow> lock_inv shares (flush_waiter l lid)"
  using flush_waiter_subset [of l lid] by (auto simp: lock_inv_def owners_simps waiters_wf_def)

lemma set_waiter_notify_lock_inv [lock_inv_intros]:
  "lock_inv shares l \<Longrightarrow> lock_inv shares (set_waiter_notify l lid n)"
  by (simp add: lock_inv_def owners_simps waiters_simps waiters_wf_map map_update_first)

section \<open>A release grants a prefix of the queue\<close>

lemma try_lock_denied:
  "\<not> is_granted (snd (try_lock_with_sharing l n b f)) \<Longrightarrow> fst (try_lock_with_sharing l n b f) = l"
  by (auto simp: try_lock_cases split: sum.splits option.splits if_splits)

lemma release_try_denied: "\<not> is_granted (snd (release_try l w f)) \<Longrightarrow> fst (release_try l w f) = l"
  by (auto simp: release_try_def try_lock_def try_lock_denied split: if_splits)

lemma try_lock_owner_ids:
  "locker_id ` set (get_owners_clone l) \<subseteq>
     locker_id ` set (get_owners_clone (fst (try_lock_with_sharing l n b f)))"
proof -
  have "locker_id ` set (get_owners_clone (update_owner_type l i t)) = locker_id ` set (get_owners_clone l)" for i t
    unfolding owners_update_owner_type by (simp flip: set_map add: map_update_first)
  then show ?thesis
    by (auto simp: try_lock_cases owners_simps split: sum.splits option.splits if_splits)
qed

lemma try_lock_granted_owner:
  assumes "is_granted (snd (try_lock_with_sharing l n b f))"
  shows "locker_id n \<in> locker_id ` set (get_owners_clone (fst (try_lock_with_sharing l n b f)))"
proof (cases "get_owners_clone l = []")
  case True
  then show ?thesis by (simp add: try_lock_cases owners_simps)
next
  case False
  let ?os = "get_owners_clone l"
  show ?thesis
  proof (cases "locker_id n \<in> locker_id ` set ?os")
    case True
    with try_lock_owner_ids show ?thesis by blast
  next
    case notin: False
    show ?thesis
    proof (cases "owner_scan ?os n f None False False")
      case (Inl g)
      with owner_scan_early [OF Inl] notin assms False show ?thesis
        by (auto simp: try_lock_cases image_iff)
    next
      case (Inr r)
      then obtain u e c where r: "owner_scan ?os n f None False False = Inr (u, e, c)"
        by (cases r) auto
      with owner_scan_upgrade [OF r] notin have "u = None" by (auto simp: image_iff)
      with r False assms show ?thesis
        by (auto simp: try_lock_cases owners_simps split: if_splits)
    qed
  qed
qed

lemma try_lock_owner_ids_upper:
  "locker_id ` set (get_owners_clone (fst (try_lock_with_sharing l n b f))) \<subseteq>
     insert (locker_id n) (locker_id ` set (get_owners_clone l))"
proof -
  have "locker_id ` set (get_owners_clone (update_owner_type l i t)) = locker_id ` set (get_owners_clone l)" for i t
    unfolding owners_update_owner_type by (simp flip: set_map add: map_update_first)
  then show ?thesis
    by (auto simp: try_lock_cases owners_simps split: sum.splits option.splits if_splits)
qed

lemma release_try_owner_ids:
  assumes "is_granted (snd (release_try l w f))"
  shows "locker_id ` set (get_owners_clone (fst (release_try l w f))) =
    locker_id ` set (get_owners_clone l) \<union> (if lock_type w = Restart then {} else {locker_id w})"
proof (cases "lock_type w = Restart")
  case False
  with assms show ?thesis
    using try_lock_owner_ids [of l w True "\<lambda>_. False"] try_lock_granted_owner [of l w True "\<lambda>_. False"]
      try_lock_owner_ids_upper [of l w True "\<lambda>_. False"]
    unfolding release_try_def try_lock_def by auto
qed (simp add: release_try_def)

text \<open>
  The indices at which the release loop arrives: 0, or 1 once \<open>first_waiter\<close> is empty.  In
  both cases the waiter it reads is the head of the queue, and removing it leaves the tail.
\<close>

definition at_head :: "LockImpl \<Rightarrow> nat \<Rightarrow> bool" where
  "at_head l i \<longleftrightarrow> i = 0 \<or> (i = 1 \<and> first_waiter l = None)"

lemma release_waiter_at_head:
  assumes "at_head l i"
  shows "release_waiter_at l i = (j, None) \<Longrightarrow> get_waiters_clone l = []"
    and "release_waiter_at l i = (j, Some w) \<Longrightarrow> get_waiters_clone l \<noteq> [] \<and> w = hd (get_waiters_clone l)"
  using assms
  by (auto simp: at_head_def release_waiter_at_def get_waiters_clone_def split: if_splits list.splits)
     (auto simp: neq_Nil_conv hd_conv_nth)

lemma release_remove_head:
  assumes "at_head l i" and "release_waiter_at l i = (j, Some w)"
    and "first_waiter l' = first_waiter l" and "waiter_list l' = waiter_list l"
  shows "get_waiters_clone (release_remove_waiter l' j) = tl (get_waiters_clone l)"
    and "at_head (release_remove_waiter l' j) j"
  using assms
  by (auto simp: at_head_def release_waiter_at_def release_remove_waiter_def get_waiters_clone_def
      split: if_splits list.splits)

lemma release_loop_prefix:
  assumes "at_head l i"
  shows "\<exists>k \<le> length (get_waiters_clone l).
     case release_loop l f i ns sg of (l', ns', sg') \<Rightarrow>
       get_waiters_clone l' = drop k (get_waiters_clone l) \<and>
       ns' = ns @ map locker_id (take k (get_waiters_clone l)) \<and>
       sg' = sg @ concat (map (\<lambda>w. opt_list (notify w)) (take k (get_waiters_clone l))) \<and>
       locker_id ` set (get_owners_clone l') = locker_id ` set (get_owners_clone l) \<union>
         locker_id ` {w \<in> set (take k (get_waiters_clone l)). lock_type w \<noteq> Restart} \<and>
       (get_waiters_clone l' \<noteq> [] \<longrightarrow>
          \<not> is_granted (snd (release_try l' (hd (get_waiters_clone l')) f)))"
  using assms
proof (induction l f i ns sg rule: release_loop.induct)
  case (1 l f i ns sg)
  obtain j ow where at: "release_waiter_at l i = (j, ow)" by fastforce
  let ?ws = "get_waiters_clone l"
  show ?case
  proof (cases ow)
    case None
    with at release_waiter_at_head(1) [OF "1.prems"] have "?ws = []" by blast
    with at None show ?thesis by (subst release_loop.simps) simp
  next
    case (Some w)
    with at have at': "release_waiter_at l i = (j, Some w)" by simp
    note hd = release_waiter_at_head(2) [OF "1.prems" at']
    let ?l1 = "fst (release_try l w f)"
    show ?thesis
    proof (cases "is_granted (snd (release_try l w f))")
      case False
      with at' hd show ?thesis
        by (subst release_loop.simps) (auto simp: release_try_denied)
    next
      case True
      let ?l2 = "release_remove_waiter ?l1 j"
      have tl: "get_waiters_clone ?l2 = tl ?ws" and head: "at_head ?l2 j"
        using release_remove_head [OF "1.prems" at', of ?l1] by simp_all
      have ids: "locker_id ` set (get_owners_clone ?l2) =
          locker_id ` set (get_owners_clone l) \<union> (if lock_type w = Restart then {} else {locker_id w})"
        using release_try_owner_ids [OF True] by (simp add: owners_simps)
      obtain l' ns' sg' where r: "release_loop ?l2 f j (ns @ [locker_id w]) (sg @ opt_list (notify w)) = (l', ns', sg')"
        by (cases "release_loop ?l2 f j (ns @ [locker_id w]) (sg @ opt_list (notify w))") auto
      from "1.IH" [OF at [symmetric] Some True head] r obtain k where
        k: "k \<le> length (tl ?ws)" "get_waiters_clone l' = drop k (tl ?ws)"
          "ns' = ns @ [locker_id w] @ map locker_id (take k (tl ?ws))"
          "sg' = sg @ opt_list (notify w) @ concat (map (\<lambda>w. opt_list (notify w)) (take k (tl ?ws)))"
          "locker_id ` set (get_owners_clone l') = locker_id ` set (get_owners_clone ?l2) \<union>
             locker_id ` {w \<in> set (take k (tl ?ws)). lock_type w \<noteq> Restart}"
          "get_waiters_clone l' \<noteq> [] \<longrightarrow> \<not> is_granted (snd (release_try l' (hd (get_waiters_clone l')) f))"
        unfolding tl by auto
      have eq: "release_loop l f i ns sg = (l', ns', sg')"
        using r at' True by (subst release_loop.simps) simp
      obtain ws where ws: "?ws = w # ws" using hd by (cases ?ws) auto
      show ?thesis
        unfolding eq using k
        by (intro exI [of _ "Suc k"]) (auto simp: ws ids)
    qed
  qed
qed

lemma release_owner_ids:
  "locker_id ` set (get_owners_clone (fst (release_with_sharing l lid f))) \<subseteq>
     locker_id ` set (remove_first (\<lambda>x. locker_id x = lid) (get_owners_clone l)) \<union>
     locker_id ` set (get_waiters_clone l)"
proof -
  obtain l1 rm where fl: "flush_owner l lid = (l1, rm)" by fastforce
  have l1: "get_owners_clone l1 = remove_first (\<lambda>x. locker_id x = lid) (get_owners_clone l)"
    "get_waiters_clone l1 = get_waiters_clone l"
    using owners_flush_owner [of l lid] waiters_flush_owner [of l lid] fl by simp_all
  obtain l2 ns sg where lp: "release_loop l1 f 0 [] [] = (l2, ns, sg)"
    by (cases "release_loop l1 f 0 [] []") auto
  have "locker_id ` set (get_owners_clone l2) \<subseteq>
      locker_id ` set (get_owners_clone l1) \<union> locker_id ` set (get_waiters_clone l1)"
    using release_loop_prefix [where l = l1 and i = 0 and f = f and ns = "[]" and sg = "[]"]
    unfolding lp by (auto simp: at_head_def dest!: in_set_takeD)
  then show ?thesis using fl lp l1 by (auto simp: release_with_sharing_def split: option.splits)
qed

section \<open>What a lock attempt leaves behind\<close>

lemma existing_stronger: "get_upgrade held req = Existing_LU \<Longrightarrow> record_type req \<Longrightarrow> stronger held req"
  by (cases held; cases req) (auto simp: stronger_def record_type_def)

lemma stronger_refl: "stronger t t"
  by (simp add: stronger_def)

lemma in_update_first_new:
  "x \<in> set xs \<Longrightarrow> p x \<Longrightarrow> \<exists>y \<in> set xs. p y \<and> f y \<in> set (update_first p f xs)"
  by (induction xs) auto

text \<open>A granted request leaves its locker as an owner of a type at least as strong.\<close>

lemma try_lock_granted_stronger:
  assumes g: "is_granted (snd (try_lock_with_sharing l n b f))" and t: "record_type (lock_type n)"
  shows "\<exists>ow \<in> set (get_owners_clone (fst (try_lock_with_sharing l n b f))).
     locker_id ow = locker_id n \<and> stronger (lock_type ow) (lock_type n)"
proof (cases "get_owners_clone l = []")
  case True
  then show ?thesis by (simp add: try_lock_cases owners_simps stronger_refl)
next
  case False
  let ?os = "get_owners_clone l"
  show ?thesis
  proof (cases "owner_scan ?os n f None False False")
    case (Inl e)
    with g False owner_scan_early [OF Inl] show ?thesis
      by (auto simp: try_lock_cases intro: existing_stronger [OF _ t])
  next
    case (Inr r)
    then obtain u e c where r: "owner_scan ?os n f None False False = Inr (u, e, c)"
      by (cases r) auto
    show ?thesis
    proof (cases u)
      case None
      with False r g show ?thesis
        by (auto simp: try_lock_cases owners_simps stronger_refl split: if_splits)
    next
      case (Some upg)
      then obtain ow where ow: "ow \<in> set ?os" "locker_id ow = locker_id n"
        "upg = get_upgrade (lock_type ow) (lock_type n)"
        using owner_scan_upgrade [OF r] by auto
      show ?thesis
      proof (cases "get_upgrade_type upg")
        case None
        have "upg = Existing_LU \<longrightarrow> stronger (lock_type ow) (lock_type n)"
          using existing_stronger [OF ow(3) [symmetric, THEN trans] t] by blast
        with None False r Some g ow show ?thesis
          by (cases upg) (auto simp: try_lock_cases is_illegal_def)
      next
        case (Some ty)
        from in_update_first_new [of ow ?os "\<lambda>x. locker_id x = locker_id n" "\<lambda>x. x\<lparr>lock_type := ty\<rparr>"] ow
        obtain y where "locker_id y = locker_id n"
          "y\<lparr>lock_type := ty\<rparr> \<in> set (get_owners_clone (update_owner_type l (locker_id n) ty))"
          by (auto simp: owners_simps)
        moreover have "stronger ty (lock_type n)" using upgrade_stronger Some ow(3) by blast
        ultimately show ?thesis
          using False r \<open>u = Some upg\<close> Some g
          by (auto simp: try_lock_cases is_illegal_def split: if_splits intro: bexI [of _ "y\<lparr>lock_type := ty\<rparr>"])
      qed
    qed
  qed
qed

lemma try_lock_grant_cases:
  "snd (try_lock_with_sharing l n b f) \<in>
     {New, Promotion, Existing, WaitNew, WaitPromotion, WaitRestart, IllegalUpgrade}"
proof (cases "owner_scan (get_owners_clone l) n f None False False")
  case (Inl g)
  then show ?thesis using owner_scan_early [OF Inl] by (auto simp: try_lock_cases)
next
  case (Inr r)
  then show ?thesis by (cases r) (auto simp: try_lock_cases split: option.splits if_splits)
qed

lemma waiters_try_lock [waiters_simps]:
  "get_waiters_clone (fst (try_lock_with_sharing l n b f)) = get_waiters_clone l"
  by (simp add: get_waiters_clone_def try_lock_waiter_fields)

lemma lock_attempt_full:
  fixes l :: LockImpl
  assumes t: "record_type t" and r: "lock_with_sharing l t lid nb j f = (l', r)"
  shows "success r \<longrightarrow> get_waiters_clone l' = get_waiters_clone l \<and>
       (\<exists>ow \<in> set (get_owners_clone l'). locker_id ow = lid \<and> stronger (lock_type ow) t)"
    and "\<not> success r \<longrightarrow> get_owners_clone l' = get_owners_clone l"
    and "\<not> success r \<and> \<not> must_wait (lock_grant r) \<longrightarrow> l' = l \<and> lock_grant r \<in> {Denied, IllegalUpgrade}"
    and "must_wait (lock_grant r) \<longrightarrow> \<not> success r \<and> \<not> nb \<and>
       get_waiters_clone l' =
         (if lock_grant r = WaitPromotion then LockInfo_new lid t # get_waiters_clone l
          else get_waiters_clone l @ [LockInfo_new lid (if lock_grant r = WaitRestart then Restart else t)])"
proof -
  let ?n = "LockInfo_new lid t" and ?b = "j \<or> n_waiters l = 0"
  obtain l1 g where tr: "try_lock_with_sharing l ?n ?b f = (l1, g)" by fastforce
  have gr: "g \<in> {New, Promotion, Existing, WaitNew, WaitPromotion, WaitRestart, IllegalUpgrade}"
    using try_lock_grant_cases [of l ?n ?b f] tr by simp
  have den: "\<not> is_granted g \<Longrightarrow> l1 = l" using try_lock_denied [of l ?n ?b f] tr by simp
  have own: "is_granted g \<Longrightarrow> \<exists>ow \<in> set (get_owners_clone l1). locker_id ow = lid \<and> stronger (lock_type ow) t"
    using try_lock_granted_stronger [of l ?n ?b f] tr t by simp
  have w: "get_waiters_clone l1 = get_waiters_clone l"
    using waiters_try_lock [of l ?n ?b f] tr by simp
  have ne: "?n\<lparr>lock_type := Restart\<rparr> = LockInfo_new lid Restart" by (simp add: LockInfo_new_def)
  note d = lock_with_sharing_def Let_def tr success_iff_granted owners_simps waiters_simps ne
  show "success r \<longrightarrow> get_waiters_clone l' = get_waiters_clone l \<and>
       (\<exists>ow \<in> set (get_owners_clone l'). locker_id ow = lid \<and> stronger (lock_type ow) t)"
    using r gr own w by (auto simp: d split: if_splits)
  show "\<not> success r \<longrightarrow> get_owners_clone l' = get_owners_clone l"
    using r gr den by (auto simp: d split: if_splits)
  show "\<not> success r \<and> \<not> must_wait (lock_grant r) \<longrightarrow> l' = l \<and> lock_grant r \<in> {Denied, IllegalUpgrade}"
    using r gr den by (auto simp: d split: if_splits)
  show "must_wait (lock_grant r) \<longrightarrow> \<not> success r \<and> \<not> nb \<and>
       get_waiters_clone l' =
         (if lock_grant r = WaitPromotion then LockInfo_new lid t # get_waiters_clone l
          else get_waiters_clone l @ [LockInfo_new lid (if lock_grant r = WaitRestart then Restart else t)])"
    using r gr w by (auto simp: d split: if_splits)
qed

section \<open>Illegal upgrades and sole owners\<close>

lemma owner_scan_illegal:
  "owner_scan os n f u e c = Inl IllegalUpgrade \<Longrightarrow>
     \<exists>ow \<in> set os. locker_id ow = locker_id n \<and> is_illegal (get_upgrade (lock_type ow) (lock_type n))"
  by (induction os n f u e c rule: owner_scan.induct) (auto simp: Let_def split: if_splits)

lemma lock_grant_illegal:
  assumes "lock_grant (snd (lock_with_sharing l t lid nb j f)) = IllegalUpgrade"
  shows "\<exists>ow \<in> set (get_owners_clone l). locker_id ow = lid \<and> is_illegal (get_upgrade (lock_type ow) t)"
proof -
  let ?n = "LockInfo_new lid t" and ?os = "get_owners_clone l"
  have "snd (try_lock_with_sharing l ?n (j \<or> n_waiters l = 0) f) = IllegalUpgrade"
    using assms by (auto simp: lock_with_sharing_def LockAttemptResult_new_def Let_def split: prod.splits if_splits)
  then show ?thesis
    using owner_scan_illegal [of ?os ?n f None False False] owner_scan_upgrade [of ?os ?n f None False False]
    by (auto simp: try_lock_cases LockInfo_new_def split: if_splits sum.splits option.splits)
qed

lemma sole_owner_lock:
  assumes "\<forall>ow \<in> set (get_owners_clone l). locker_id ow = lid \<and> \<not> is_illegal (get_upgrade (lock_type ow) t)"
    and "distinct (map locker_id (get_owners_clone l))"
  shows "success (snd (lock_with_sharing l t lid nb j f))"
proof -
  let ?n = "LockInfo_new lid t"
  have "get_owners_clone l = [] \<or> (\<exists>ow. get_owners_clone l = [ow])"
    using assms by (cases "get_owners_clone l" rule: remdups_adj.cases) auto
  then have "is_granted (snd (try_lock_with_sharing l ?n (j \<or> n_waiters l = 0) f))"
    using assms(1) by (auto simp: try_lock_cases LockInfo_new_def Let_def split: option.splits)
  moreover obtain l1 g where "try_lock_with_sharing l ?n (j \<or> n_waiters l = 0) f = (l1, g)" by fastforce
  ultimately show ?thesis
    by (cases g) (simp_all add: lock_with_sharing_def LockAttemptResult_new_def Let_def)
qed

end
