(* ===== verification/Lock_Enum.thy ===== *)
theory Lock_Enum
  imports Lock_Impl
begin

text \<open>
  The thin lock of \<open>crates/noxu-txn/src/thin_lock_impl.rs\<close>, for one owner and no waiters, and
  the enum \<open>Lock\<close> of \<open>lock.rs\<close> that starts thin and turns full when a second locker arrives.
  The interface that the lock manager relies on is the locale \<open>record_lock\<close>; both the full
  lock and the enum are instances of it.  The main results: the thin representation cannot
  be told from the full one, no sequence of operations lets two lockers hold conflicting
  locks, and a release grants the longest grantable prefix of the queue and signals it.
\<close>

section \<open>Thin locks\<close>

record ThinLockImpl =
  thin_owner :: "LockInfo option"

definition ThinLockImpl_new :: ThinLockImpl where
  "ThinLockImpl_new = \<lparr>thin_owner = None\<rparr>"

text \<open>
  \<open>thin_lock\<close> answers \<open>Inl\<close> with the existing owner when the lock must turn full
  (\<open>MutateToFull\<close>).
\<close>

definition thin_lock ::
  "ThinLockImpl \<Rightarrow> LockType \<Rightarrow> int \<Rightarrow> LockInfo + (ThinLockImpl \<times> LockAttemptResult)" where
  "thin_lock th request_type lid =
     (case thin_owner th of
        Some ow \<Rightarrow>
          if locker_id ow \<noteq> lid then Inl ow
          else
            (let upgrade = get_upgrade (lock_type ow) request_type in
             if is_illegal upgrade then Inr (th, LockAttemptResult_new IllegalUpgrade)
             else case get_upgrade_type upgrade of
               Some t \<Rightarrow> Inr (th\<lparr>thin_owner := Some (ow\<lparr>lock_type := t\<rparr>)\<rparr>,
                              LockAttemptResult_new (if is_promotion upgrade then Promotion else Existing))
             | None \<Rightarrow> Inr (th, LockAttemptResult_new Existing))
      | None \<Rightarrow> Inr (th\<lparr>thin_owner := Some (LockInfo_new lid request_type)\<rparr>, LockAttemptResult_new New))"

definition thin_release :: "ThinLockImpl \<Rightarrow> int \<Rightarrow> ThinLockImpl \<times> (int list \<times> nat list) option" where
  "thin_release th lid =
     (case thin_owner th of
        Some ow \<Rightarrow> if locker_id ow = lid then (th\<lparr>thin_owner := None\<rparr>, Some ([], [])) else (th, None)
      | None \<Rightarrow> (th, None))"

text \<open>The locker argument is ignored, as in the source.\<close>

definition thin_demote :: "ThinLockImpl \<Rightarrow> int \<Rightarrow> ThinLockImpl" where
  "thin_demote th _ =
     (case thin_owner th of
        Some ow \<Rightarrow>
          if is_write_lock (lock_type ow)
          then th\<lparr>thin_owner := Some (ow\<lparr>lock_type := (if lock_type ow = RangeWrite then RangeRead else Read)\<rparr>)\<rparr>
          else th
      | None \<Rightarrow> th)"

definition thin_steal_lock_preemptable ::
  "ThinLockImpl \<Rightarrow> int \<Rightarrow> (int \<Rightarrow> bool) \<Rightarrow> ThinLockImpl \<times> int list" where
  "thin_steal_lock_preemptable th lid preemptable_fn =
     (case thin_owner th of
        Some ow \<Rightarrow> if locker_id ow \<noteq> lid \<and> preemptable_fn (locker_id ow)
                   then (th\<lparr>thin_owner := None\<rparr>, [locker_id ow]) else (th, [])
      | None \<Rightarrow> (th, []))"

definition thin_is_owner :: "ThinLockImpl \<Rightarrow> int \<Rightarrow> LockType \<Rightarrow> bool" where
  "thin_is_owner th lid t =
     (case thin_owner th of Some ow \<Rightarrow> locker_id ow = lid \<and> lock_type ow = t | None \<Rightarrow> False)"

definition thin_is_owned_write_lock :: "ThinLockImpl \<Rightarrow> int \<Rightarrow> bool" where
  "thin_is_owned_write_lock th lid =
     (case thin_owner th of Some ow \<Rightarrow> locker_id ow = lid \<and> is_write_lock (lock_type ow) | None \<Rightarrow> False)"

definition thin_get_owned_lock_type :: "ThinLockImpl \<Rightarrow> int \<Rightarrow> LockType option" where
  "thin_get_owned_lock_type th lid =
     (case thin_owner th of Some ow \<Rightarrow> if locker_id ow = lid then Some (lock_type ow) else None
      | None \<Rightarrow> None)"

definition thin_get_write_owner_locker_id :: "ThinLockImpl \<Rightarrow> int option" where
  "thin_get_write_owner_locker_id th =
     (case thin_owner th of Some ow \<Rightarrow> if is_write_lock (lock_type ow) then Some (locker_id ow) else None
      | None \<Rightarrow> None)"

definition thin_n_owners :: "ThinLockImpl \<Rightarrow> nat" where
  "thin_n_owners th = (if thin_owner th \<noteq> None then 1 else 0)"

section \<open>The lock enum\<close>

datatype Lock = Thin ThinLockImpl | Full LockImpl

definition Lock_new_thin :: Lock where
  "Lock_new_thin = Thin ThinLockImpl_new"

fun Lock_lock_with_sharing ::
  "Lock \<Rightarrow> LockType \<Rightarrow> int \<Rightarrow> bool \<Rightarrow> bool \<Rightarrow> (int \<Rightarrow> bool) \<Rightarrow> Lock \<times> LockAttemptResult" where
  "Lock_lock_with_sharing (Thin th) t lid non_blocking jump shares_fn =
     (case thin_lock th t lid of
        Inr (th', r) \<Rightarrow> (Thin th', r)
      | Inl existing_owner \<Rightarrow>
          (case lock_with_sharing (from_first_owner existing_owner) t lid non_blocking jump shares_fn of
             (full, r) \<Rightarrow> (Full full, r)))"
| "Lock_lock_with_sharing (Full l) t lid non_blocking jump shares_fn =
     (case lock_with_sharing l t lid non_blocking jump shares_fn of (l', r) \<Rightarrow> (Full l', r))"

fun Lock_release_with_sharing ::
  "Lock \<Rightarrow> int \<Rightarrow> (int \<Rightarrow> bool) \<Rightarrow> Lock \<times> (int list \<times> nat list) option" where
  "Lock_release_with_sharing (Thin th) lid shares_fn =
     (case thin_release th lid of (th', r) \<Rightarrow> (Thin th', r))"
| "Lock_release_with_sharing (Full l) lid shares_fn =
     (case release_with_sharing l lid shares_fn of (l', r) \<Rightarrow> (Full l', r))"

fun Lock_demote :: "Lock \<Rightarrow> int \<Rightarrow> Lock" where
  "Lock_demote (Thin th) lid = Thin (thin_demote th lid)"
| "Lock_demote (Full l) lid = Full (demote l lid)"

fun Lock_steal_lock_preemptable :: "Lock \<Rightarrow> int \<Rightarrow> (int \<Rightarrow> bool) \<Rightarrow> Lock \<times> int list" where
  "Lock_steal_lock_preemptable (Thin th) lid p =
     (case thin_steal_lock_preemptable th lid p of (th', v) \<Rightarrow> (Thin th', v))"
| "Lock_steal_lock_preemptable (Full l) lid p =
     (case steal_lock_preemptable l lid p of (l', v) \<Rightarrow> (Full l', v))"

fun Lock_flush_waiter :: "Lock \<Rightarrow> int \<Rightarrow> Lock" where
  "Lock_flush_waiter (Thin th) lid = Thin th"
| "Lock_flush_waiter (Full l) lid = Full (flush_waiter l lid)"

fun Lock_set_waiter_notify :: "Lock \<Rightarrow> int \<Rightarrow> nat \<Rightarrow> Lock" where
  "Lock_set_waiter_notify (Thin th) lid n = Thin th"
| "Lock_set_waiter_notify (Full l) lid n = Full (set_waiter_notify l lid n)"

fun Lock_get_owners_clone :: "Lock \<Rightarrow> LockInfo list" where
  "Lock_get_owners_clone (Thin th) = opt_list (thin_owner th)"
| "Lock_get_owners_clone (Full l) = get_owners_clone l"

fun Lock_get_waiters_clone :: "Lock \<Rightarrow> LockInfo list" where
  "Lock_get_waiters_clone (Thin th) = []"
| "Lock_get_waiters_clone (Full l) = get_waiters_clone l"

definition Lock_get_owner_ids :: "Lock \<Rightarrow> int list" where
  "Lock_get_owner_ids l = map locker_id (Lock_get_owners_clone l)"

fun Lock_is_owner :: "Lock \<Rightarrow> int \<Rightarrow> LockType \<Rightarrow> bool" where
  "Lock_is_owner (Thin th) lid t = thin_is_owner th lid t"
| "Lock_is_owner (Full l) lid t = is_owner l lid t"

fun Lock_is_owned_write_lock :: "Lock \<Rightarrow> int \<Rightarrow> bool" where
  "Lock_is_owned_write_lock (Thin th) lid = thin_is_owned_write_lock th lid"
| "Lock_is_owned_write_lock (Full l) lid = is_owned_write_lock l lid"

fun Lock_get_owned_lock_type :: "Lock \<Rightarrow> int \<Rightarrow> LockType option" where
  "Lock_get_owned_lock_type (Thin th) lid = thin_get_owned_lock_type th lid"
| "Lock_get_owned_lock_type (Full l) lid = get_owned_lock_type l lid"

fun Lock_get_write_owner_locker_id :: "Lock \<Rightarrow> int option" where
  "Lock_get_write_owner_locker_id (Thin th) = thin_get_write_owner_locker_id th"
| "Lock_get_write_owner_locker_id (Full l) = get_write_owner_locker_id l"

fun Lock_n_owners :: "Lock \<Rightarrow> nat" where
  "Lock_n_owners (Thin th) = thin_n_owners th"
| "Lock_n_owners (Full l) = n_owners l"

fun Lock_n_waiters :: "Lock \<Rightarrow> nat" where
  "Lock_n_waiters (Thin th) = 0"
| "Lock_n_waiters (Full l) = n_waiters l"

section \<open>A thin lock behaves as the full lock with one owner\<close>

definition thin_full :: "ThinLockImpl \<Rightarrow> LockImpl" where
  "thin_full th = LockImpl_new\<lparr>first_owner := thin_owner th\<rparr>"

fun full_view :: "Lock \<Rightarrow> LockImpl" where
  "full_view (Thin th) = thin_full th"
| "full_view (Full l) = l"

lemma from_first_owner_thin: "from_first_owner ow = thin_full \<lparr>thin_owner = Some ow\<rparr>"
  by (simp add: from_first_owner_def thin_full_def LockImpl_new_def)

lemma thin_full_owners [simp]:
  "get_owners_clone (thin_full th) = opt_list (thin_owner th)"
  "get_waiters_clone (thin_full th) = []"
  "first_owner (thin_full th) = thin_owner th"
  "owner_set (thin_full th) = None"
  "first_waiter (thin_full th) = None"
  "waiter_list (thin_full th) = None"
  by (simp_all add: thin_full_def LockImpl_new_def get_owners_clone_def get_waiters_clone_def)

lemma full_view_owners [simp]:
  "get_owners_clone (full_view l) = Lock_get_owners_clone l"
  "get_waiters_clone (full_view l) = Lock_get_waiters_clone l"
  by (cases l; simp)+

lemma thin_lock_full:
  assumes "thin_lock th t lid = Inr (th', r)"
  shows "lock_with_sharing (thin_full th) t lid nb j f = (thin_full th', r)"
proof (cases "thin_owner th")
  case None
  with assms show ?thesis
    by (auto simp: thin_lock_def lock_with_sharing_def try_lock_cases thin_full_def add_owner_def
        LockImpl_new_def get_owners_clone_def)
next
  case (Some ow)
  with assms have ow: "locker_id ow = lid" by (auto simp: thin_lock_def split: if_splits)
  show ?thesis
  proof (cases "get_upgrade (lock_type ow) t = Illegal")
    case True
    with Some ow assms show ?thesis
      by (auto simp: thin_lock_def lock_with_sharing_def try_lock_cases is_illegal_def Let_def)
  next
    case False
    then show ?thesis
      using Some ow assms
      by (cases "get_upgrade_type (get_upgrade (lock_type ow) t)")
        (auto simp: thin_lock_def lock_with_sharing_def try_lock_cases is_illegal_def Let_def
          update_owner_type_def thin_full_def LockImpl_new_def get_owners_clone_def split: if_splits)
  qed
qed

lemma full_view_lock:
  "lock_with_sharing (full_view l) t lid nb j f =
     (let (l', r) = Lock_lock_with_sharing l t lid nb j f in (full_view l', r))"
proof (cases l)
  case (Thin th)
  show ?thesis
  proof (cases "thin_lock th t lid")
    case (Inl ow)
    then have "thin_owner th = Some ow" by (auto simp: thin_lock_def Let_def split: option.splits if_splits)
    then have "thin_full th = from_first_owner ow"
      by (simp add: from_first_owner_def thin_full_def LockImpl_new_def)
    with Thin Inl show ?thesis by (simp split: prod.splits)
  next
    case (Inr r)
    with Thin thin_lock_full show ?thesis by (cases r) (auto split: prod.splits)
  qed
qed (simp split: prod.splits)

lemma full_view_release:
  "release_with_sharing (full_view l) lid f =
     (let (l', r) = Lock_release_with_sharing l lid f in (full_view l', r))"
proof (cases l)
  case (Thin th)
  then show ?thesis
    by (auto simp: release_with_sharing_def thin_release_def flush_owner_def n_waiters_length
        get_waiters_clone_def thin_full_def LockImpl_new_def split: option.splits)
qed (simp split: prod.splits)

lemma full_view_steal:
  "steal_lock_preemptable (full_view l) lid p =
     (let (l', v) = Lock_steal_lock_preemptable l lid p in (full_view l', v))"
proof (cases l)
  case (Thin th)
  then show ?thesis
    by (auto simp: steal_lock_preemptable_def thin_steal_lock_preemptable_def thin_full_def
        LockImpl_new_def split: option.splits)
qed (simp split: prod.splits)

lemma full_view_waiter_ops:
  "flush_waiter (full_view l) lid = full_view (Lock_flush_waiter l lid)"
  "set_waiter_notify (full_view l) lid n = full_view (Lock_set_waiter_notify l lid n)"
  by (cases l; auto simp: flush_waiter_def set_waiter_notify_def thin_full_def LockImpl_new_def)+

lemma full_view_demote:
  assumes "lid \<in> set (Lock_get_owner_ids l)"
  shows "demote (full_view l) lid = full_view (Lock_demote l lid)"
proof (cases l)
  case (Thin th)
  with assms show ?thesis
    by (auto simp: demote_def thin_demote_def get_owner_lock_info_def update_owner_type_def
        Lock_get_owner_ids_def thin_full_def LockImpl_new_def split: option.splits)
qed simp

section \<open>The interface the lock manager relies on\<close>

text \<open>
  One operation on a record lock, as the lock manager issues them.  A steal names the
  lockers that may not be preempted.
\<close>

datatype lock_event =
  EvLock LockType int bool bool
| EvRelease int
| EvDemote int
| EvSteal int "int list"
| EvFlushWaiter int
| EvSetNotify int nat

fun event_wf :: "lock_event \<Rightarrow> bool" where
  "event_wf (EvLock t _ _ _) = record_type t"
| "event_wf _ = True"

locale record_lock =
  fixes owners :: "'l \<Rightarrow> LockInfo list"
    and waiters :: "'l \<Rightarrow> LockInfo list"
    and acquire :: "'l \<Rightarrow> LockType \<Rightarrow> int \<Rightarrow> bool \<Rightarrow> bool \<Rightarrow> (int \<Rightarrow> bool) \<Rightarrow> 'l \<times> LockAttemptResult"
    and rel :: "'l \<Rightarrow> int \<Rightarrow> (int \<Rightarrow> bool) \<Rightarrow> 'l \<times> (int list \<times> nat list) option"
    and dem :: "'l \<Rightarrow> int \<Rightarrow> 'l"
    and steal :: "'l \<Rightarrow> int \<Rightarrow> (int \<Rightarrow> bool) \<Rightarrow> 'l \<times> int list"
    and flushw :: "'l \<Rightarrow> int \<Rightarrow> 'l"
    and notif :: "'l \<Rightarrow> int \<Rightarrow> nat \<Rightarrow> 'l"
    and fresh :: 'l
    and inv :: "(int \<Rightarrow> int \<Rightarrow> bool) \<Rightarrow> 'l \<Rightarrow> bool"
  assumes inv_owners: "inv sh l \<Longrightarrow> owners_compatible sh (owners l)"
    and inv_fresh: "inv sh fresh"
    and inv_acquire: "inv sh l \<Longrightarrow> symp sh \<Longrightarrow> record_type t \<Longrightarrow> inv sh (fst (acquire l t lid nb j (sh lid)))"
    and inv_rel: "inv sh l \<Longrightarrow> symp sh \<Longrightarrow> inv sh (fst (rel l lid f))"
    and inv_dem: "inv sh l \<Longrightarrow> symp sh \<Longrightarrow> inv sh (dem l lid)"
    and inv_steal: "inv sh l \<Longrightarrow> inv sh (fst (steal l lid p))"
    and inv_flushw: "inv sh l \<Longrightarrow> inv sh (flushw l lid)"
    and inv_notif: "inv sh l \<Longrightarrow> inv sh (notif l lid n)"
begin

definition apply_event :: "(int \<Rightarrow> int \<Rightarrow> bool) \<Rightarrow> lock_event \<Rightarrow> 'l \<Rightarrow> 'l" where
  "apply_event sh e l =
     (case e of
        EvLock t lid nb j \<Rightarrow> fst (acquire l t lid nb j (sh lid))
      | EvRelease lid \<Rightarrow> fst (rel l lid (sh lid))
      | EvDemote lid \<Rightarrow> dem l lid
      | EvSteal lid np \<Rightarrow> fst (steal l lid (\<lambda>i. i \<notin> set np))
      | EvFlushWaiter lid \<Rightarrow> flushw l lid
      | EvSetNotify lid n \<Rightarrow> notif l lid n)"

lemma apply_event_inv: "inv sh l \<Longrightarrow> symp sh \<Longrightarrow> event_wf e \<Longrightarrow> inv sh (apply_event sh e l)"
  by (cases e)
     (simp_all add: apply_event_def inv_acquire inv_rel inv_dem inv_steal inv_flushw inv_notif)

lemma run_inv: "symp sh \<Longrightarrow> list_all event_wf es \<Longrightarrow> inv sh l \<Longrightarrow> inv sh (fold (apply_event sh) es l)"
  by (induction es arbitrary: l) (simp_all add: apply_event_inv)

lemma write_excludes:
  assumes "inv sh l" and "a \<in> set (owners l)" and "b \<in> set (owners l)"
    and "locker_id a \<noteq> locker_id b" and "\<not> sh (locker_id a) (locker_id b)"
    and "is_write_lock (lock_type a)"
  shows "lock_type a = Write \<and> lock_type b = RangeInsert"
proof -
  note c = inv_owners [OF assms(1)]
  have "get_conflict (lock_type a) (lock_type b) = Allow"
    using owners_compatible_pairD [OF c assms(2-4)] assms(5) by simp
  moreover have "record_type (lock_type b)" using c assms(3) by (simp add: owners_compatible_def)
  ultimately show ?thesis
    using write_lock_compatible [OF assms(6)] by (auto simp: record_type_def)
qed

end

interpretation full: record_lock
  get_owners_clone get_waiters_clone lock_with_sharing release_with_sharing demote
  steal_lock_preemptable flush_waiter set_waiter_notify LockImpl_new lock_inv
  by unfold_locales (simp_all add: lock_inv_owners lock_inv_intros)

definition Lock_inv :: "(int \<Rightarrow> int \<Rightarrow> bool) \<Rightarrow> Lock \<Rightarrow> bool" where
  "Lock_inv shares l \<longleftrightarrow> lock_inv shares (full_view l)"

lemma Lock_inv_thin_demote: "Lock_inv shares (Thin th) \<Longrightarrow> symp shares \<Longrightarrow> Lock_inv shares (Thin (thin_demote th lid))"
  by (auto simp: Lock_inv_def lock_inv_def thin_demote_def owners_compatible_def record_type_def
      split: option.splits)

interpretation lk: record_lock
  Lock_get_owners_clone Lock_get_waiters_clone Lock_lock_with_sharing Lock_release_with_sharing
  Lock_demote Lock_steal_lock_preemptable Lock_flush_waiter Lock_set_waiter_notify Lock_new_thin
  Lock_inv
proof (unfold_locales, goal_cases)
  case (1 sh l)
  then show ?case by (simp add: Lock_inv_def lock_inv_def)
next
  case (2 sh)
  show ?case
    by (simp add: Lock_inv_def Lock_new_thin_def ThinLockImpl_new_def lock_inv_def owners_compatible_def
        waiters_wf_def)
next
  case (3 sh l t lid nb j)
  then have "lock_inv sh (fst (lock_with_sharing (full_view l) t lid nb j (sh lid)))"
    by (simp add: Lock_inv_def full.inv_acquire)
  then show ?case by (simp add: full_view_lock Lock_inv_def split: prod.splits)
next
  case (4 sh l lid f)
  then have "lock_inv sh (fst (release_with_sharing (full_view l) lid f))"
    by (simp add: Lock_inv_def full.inv_rel)
  then show ?case by (simp add: full_view_release Lock_inv_def split: prod.splits)
next
  case (5 sh l lid)
  then show ?case
    by (cases l) (auto simp: Lock_inv_thin_demote, simp add: Lock_inv_def full.inv_dem)
next
  case (6 sh l lid p)
  then have "lock_inv sh (fst (steal_lock_preemptable (full_view l) lid p))"
    by (simp add: Lock_inv_def full.inv_steal)
  then show ?case by (simp add: full_view_steal Lock_inv_def split: prod.splits)
next
  case (7 sh l lid)
  then show ?case by (simp add: Lock_inv_def full.inv_flushw flip: full_view_waiter_ops)
next
  case (8 sh l lid n)
  then show ?case by (simp add: Lock_inv_def full.inv_notif flip: full_view_waiter_ops)
qed

section \<open>Properties of record locks\<close>

fun Lock_event :: "(int \<Rightarrow> int \<Rightarrow> bool) \<Rightarrow> lock_event \<Rightarrow> Lock \<Rightarrow> Lock" where
  "Lock_event sh (EvLock t lid nb j) l = fst (Lock_lock_with_sharing l t lid nb j (sh lid))"
| "Lock_event sh (EvRelease lid) l = fst (Lock_release_with_sharing l lid (sh lid))"
| "Lock_event sh (EvDemote lid) l = Lock_demote l lid"
| "Lock_event sh (EvSteal lid np) l = fst (Lock_steal_lock_preemptable l lid (\<lambda>i. i \<notin> set np))"
| "Lock_event sh (EvFlushWaiter lid) l = Lock_flush_waiter l lid"
| "Lock_event sh (EvSetNotify lid n) l = Lock_set_waiter_notify l lid n"

lemma Lock_event_apply: "Lock_event sh = lk.apply_event sh"
proof (intro ext)
  fix e l
  show "Lock_event sh e l = lk.apply_event sh e l" by (cases e) (simp_all add: lk.apply_event_def)
qed

lemma Lock_run_inv:
  "symp sh \<Longrightarrow> list_all event_wf es \<Longrightarrow> Lock_inv sh (fold (Lock_event sh) es Lock_new_thin)"
  unfolding Lock_event_apply by (rule lk.run_inv) (auto intro: lk.inv_fresh)

lemmas lock_eval =
  Lock_new_thin_def ThinLockImpl_new_def thin_lock_def thin_release_def thin_demote_def
  LockInfo_new_def LockAttemptResult_new_def is_illegal_def from_first_owner_def
  lock_with_sharing_def try_lock_cases get_owners_clone_def get_waiters_clone_def n_waiters_def
  add_owner_def update_owner_type_def add_waiter_to_end_of_list_def add_waiter_to_head_of_list_def
  release_with_sharing_def flush_owner_def release_loop.simps release_waiter_at_def release_try_def
  release_remove_waiter_def try_lock_def range_insert_conflict_with_sharing_def
  range_insert_loop.simps range_owner_at_def restart_scan.simps waiter_at_def flush_waiter_def
  set_waiter_notify_def

text \<open>
  C1. Mutual exclusion.  After any sequence of lock, release, demote, steal, flush and
  notify operations on a fresh lock, two distinct owners that do not share locks hold
  types the conflict matrix allows together; in particular, beside a write lock there can
  only be a range-insert lock, and beside a range-write lock nothing.
\<close>

theorem lock_mutual_exclusion:
  assumes "symp sh" and "list_all event_wf es"
    and "a \<in> set (Lock_get_owners_clone (fold (Lock_event sh) es Lock_new_thin))"
    and "b \<in> set (Lock_get_owners_clone (fold (Lock_event sh) es Lock_new_thin))"
    and "locker_id a \<noteq> locker_id b" and "\<not> sh (locker_id a) (locker_id b)"
  shows "get_conflict (lock_type a) (lock_type b) = Allow \<and>
    (is_write_lock (lock_type a) \<longrightarrow> lock_type a = Write \<and> lock_type b = RangeInsert)"
proof -
  note inv = Lock_run_inv [OF assms(1,2)]
  show ?thesis
    using owners_compatible_pairD [OF lk.inv_owners [OF inv] assms(3-5)] assms(6)
      lk.write_excludes [OF inv assms(3-6)] by blast
qed

theorem lock_mutual_exclusion_witness:
  "let es = [EvLock Write 1 False False, EvLock RangeInsert 2 False False, EvLock Read 3 False False];
       a = LockInfo_new 1 Write; b = LockInfo_new 2 RangeInsert
   in set (Lock_get_owners_clone (fold (Lock_event (\<lambda>_ _. False)) es Lock_new_thin)) = {a, b} \<and>
      get_conflict (lock_type a) (lock_type b) = Allow"
proof -
  let ?es = "[EvLock Write 1 False False, EvLock RangeInsert 2 False False, EvLock Read 3 False False]"
  let ?a = "LockInfo_new 1 Write" and ?b = "LockInfo_new 2 RangeInsert"
  have os: "set (Lock_get_owners_clone (fold (Lock_event (\<lambda>_ _. False)) ?es Lock_new_thin)) = {?a, ?b}"
    by (simp add: lock_eval)
  have "get_conflict (lock_type ?a) (lock_type ?b) = Allow"
    using lock_mutual_exclusion [of "\<lambda>_ _. False" ?es ?a ?b] unfolding os
    by (simp add: symp_def record_type_def)
  with os show ?thesis by simp
qed



text \<open>
  C7. A release is a FIFO hand-over.  When the caller owned the lock, the lockers that
  become unblocked are a prefix of the queue, in order; the owners are those that were, but
  for the caller, and the unblocked lockers that are not restart markers; exactly their notify pairs are signalled; the rest of
  the queue is untouched, and its head could not be granted: no grantable waiter is left
  asleep behind a release.  When the caller was no owner, nothing happens.
\<close>

theorem release_hands_over:
  assumes r: "Lock_release_with_sharing l lid f = (l', res)"
  shows "case res of
     None \<Rightarrow> lid \<notin> set (Lock_get_owner_ids l) \<and>
             Lock_get_owners_clone l' = Lock_get_owners_clone l \<and>
             Lock_get_waiters_clone l' = Lock_get_waiters_clone l
   | Some (ns, sg) \<Rightarrow>
       lid \<in> set (Lock_get_owner_ids l) \<and>
       (\<exists>k \<le> length (Lock_get_waiters_clone l).
          let granted = take k (Lock_get_waiters_clone l) in
          ns = map locker_id granted \<and>
          sg = concat (map (\<lambda>w. opt_list (notify w)) granted) \<and>
          Lock_get_waiters_clone l' = drop k (Lock_get_waiters_clone l) \<and>
          set (Lock_get_owner_ids l') =
            set (map locker_id (remove_first (\<lambda>x. locker_id x = lid) (Lock_get_owners_clone l) @
                                filter (\<lambda>w. lock_type w \<noteq> Restart) granted)) \<and>
          (Lock_get_waiters_clone l' \<noteq> [] \<longrightarrow>
             \<not> is_granted (snd (release_try (full_view l') (hd (Lock_get_waiters_clone l')) f))))"
proof -
  have v: "release_with_sharing (full_view l) lid f = (full_view l', res)"
    using r by (simp add: full_view_release)
  obtain l1 rm where fl: "flush_owner (full_view l) lid = (l1, rm)" by fastforce
  have rm: "rm = List.find (\<lambda>x. locker_id x = lid) (Lock_get_owners_clone l)"
    and ws: "get_waiters_clone l1 = Lock_get_waiters_clone l"
    using flush_owner_removed [of "full_view l" lid] waiters_flush_owner [of "full_view l" lid] fl
    by simp_all
  have os1: "get_owners_clone l1 = remove_first (\<lambda>x. locker_id x = lid) (Lock_get_owners_clone l)"
    using owners_flush_owner [of "full_view l" lid] fl by simp
  have own: "rm \<noteq> None \<longleftrightarrow> lid \<in> set (Lock_get_owner_ids l)"
    unfolding rm Lock_get_owner_ids_def by (auto simp: find_None_iff)
  show ?thesis
  proof (cases rm)
    case None
    have os: "get_owners_clone l1 = Lock_get_owners_clone l"
      using os1 None rm by (simp add: remove_first_none find_None_iff_ball)
    from v fl None have "full_view l' = l1" "res = None" by (auto simp: release_with_sharing_def)
    with os ws own None full_view_owners [of l'] show ?thesis by simp
  next
    case (Some i)
    show ?thesis
    proof (cases "n_waiters l1 = 0")
      case True
      with v fl Some have "full_view l' = l1" "res = Some ([], [])"
        by (auto simp: release_with_sharing_def)
      moreover from True ws have "Lock_get_waiters_clone l = []" by (simp add: n_waiters_length)
      ultimately show ?thesis
        using own Some ws os1 full_view_owners [of l'] by (auto simp: Lock_get_owner_ids_def)
    next
      case False
      obtain l2 ns sg where lp: "release_loop l1 f 0 [] [] = (l2, ns, sg)"
        by (cases "release_loop l1 f 0 [] []") auto
      with v fl Some False have l2: "full_view l' = l2" "res = Some (ns, sg)"
        by (auto simp: release_with_sharing_def)
      show ?thesis
        using release_loop_prefix [where l = l1 and i = 0 and f = f and ns = "[]" and sg = "[]"] own Some
        unfolding lp ws l2(2) by (simp add: at_head_def Lock_get_owner_ids_def Let_def os1 image_Un flip: l2(1)) blast
    qed
  qed
qed

theorem release_hands_over_witness:
  "let l = fold (Lock_event (\<lambda>_ _. False))
       [EvLock Write 1 False False, EvLock Read 2 False False, EvSetNotify 2 7,
        EvLock Read 3 False False, EvLock Write 4 False False] Lock_new_thin;
       (l', res) = Lock_release_with_sharing l 1 (\<lambda>_. False)
   in res = Some ([2, 3], [7]) \<and> Lock_get_waiters_clone l' = [LockInfo_new 4 Write] \<and>
      set (Lock_get_owner_ids l') = {2, 3}"
proof -
  let ?l = "fold (Lock_event (\<lambda>_ _. False))
       [EvLock Write 1 False False, EvLock Read 2 False False, EvSetNotify 2 7,
        EvLock Read 3 False False, EvLock Write 4 False False] Lock_new_thin"
  obtain l' res where lr: "Lock_release_with_sharing ?l 1 (\<lambda>_. False) = (l', res)" by fastforce
  have res: "res = Some ([2, 3], [7])" and ws: "Lock_get_waiters_clone l' = [LockInfo_new 4 Write]"
    using lr by (auto simp: lock_eval)
  have q: "Lock_get_waiters_clone ?l =
      [\<lparr>locker_id = 2, lock_type = Read, notify = Some 7\<rparr>, LockInfo_new 3 Read, LockInfo_new 4 Write]"
    by (simp add: lock_eval)
  define ws where "ws = Lock_get_waiters_clone ?l"
  define os where "os = remove_first (\<lambda>x. locker_id x = 1) (Lock_get_owners_clone ?l)"
  have os: "os = []" unfolding os_def by (simp add: lock_eval)
  from release_hands_over [OF lr] have "\<exists>k. [2, 3] = map locker_id (take k ws) \<and>
      set (Lock_get_owner_ids l') =
        set (map locker_id (os @ filter (\<lambda>w. lock_type w \<noteq> Restart) (take k ws)))"
    unfolding res option.case prod.case Let_def ws_def [symmetric] os_def [symmetric]
    by (elim conjE exE) (intro exI conjI)
  then obtain k where k: "[2, 3] = map locker_id (take k ws)"
    "set (Lock_get_owner_ids l') =
       set (map locker_id (os @ filter (\<lambda>w. lock_type w \<noteq> Restart) (take k ws)))"
    by (elim exE conjE)
  have "min 3 k = 2" using arg_cong [OF k(1), of length] unfolding ws_def q by simp
  then have "k = 2" by (simp add: min_def split: if_splits)
  then have "take k ws = [\<lparr>locker_id = 2, lock_type = Read, notify = Some 7\<rparr>, LockInfo_new 3 Read]"
    unfolding ws_def q by simp
  with k(2) have "set (Lock_get_owner_ids l') = {2, 3}" by (simp add: os del: set_filter set_map set_append)
  then show ?thesis unfolding Let_def lr using res ws by simp
qed



text \<open>
  C9. The two representations disagree on a demotion by a locker that does not own the
  lock: the full lock ignores it, while the thin lock, whose \<open>demote\<close> ignores its locker
  argument, downgrades the write lock of whoever owns it.
\<close>

theorem thin_demote_ignores_locker:
  assumes "thin_owner th = Some ow" and "locker_id ow \<noteq> lid" and "is_write_lock (lock_type ow)"
  shows "demote (full_view (Thin th)) lid = full_view (Thin th) \<and>
    \<not> is_write_lock (lock_type (hd (Lock_get_owners_clone (Lock_demote (Thin th) lid))))"
  using assms
  by (auto simp: demote_def get_owner_lock_info_def thin_demote_def)

theorem thin_demote_ignores_locker_witness:
  "let th = \<lparr>thin_owner = Some (LockInfo_new 1 Write)\<rparr>
   in demote (full_view (Thin th)) 2 = full_view (Thin th) \<and>
      \<not> is_write_lock (lock_type (hd (Lock_get_owners_clone (Lock_demote (Thin th) 2))))"
  using thin_demote_ignores_locker [of "\<lparr>thin_owner = Some (LockInfo_new 1 Write)\<rparr>"
      "LockInfo_new 1 Write" 2] by (simp add: Let_def)


end
