(* ===== verification/Deadlock_Detector.thy ===== *)
theory Deadlock_Detector
  imports Noxu_Prelude
begin

text \<open>
  The waits-for graph search of \<open>crates/noxu-txn/src/deadlock_detector.rs\<close>.  The graph is
  an association list from a waiting locker to the lockers it waits for; the order of a
  successor list stands for the iteration order of the source's hash set, so every result
  holds for any order.  The results: a reported cycle is a cycle of the graph, no cycle
  through the requester is missed, and the victim is a function of the set of lockers on
  the cycle alone.
\<close>

type_synonym graph = "(int \<times> int list) list"

section \<open>Depth-first search\<close>

text \<open>
  \<open>dfs_loop\<close> is the loop over the successors of a node inside \<open>dfs\<close>: it extends the path,
  stops at the target, searches from the successor unless that was visited, and takes the
  successor off the path again.  The result carries the visited set and the path, which
  the source updates in place.
\<close>

function dfs_loop :: "graph \<Rightarrow> int \<Rightarrow> int list \<Rightarrow> int set \<Rightarrow> int list \<Rightarrow> bool \<times> int set \<times> int list" where
  "dfs_loop waits_for target [] visited path = (False, visited, path)"
| "dfs_loop waits_for target (nxt # rest) visited path =
     (if nxt = target then (True, visited, path @ [nxt])
      else case (if nxt \<in> visited then (False, visited, path @ [nxt])
                 else case map_of waits_for nxt of
                   None \<Rightarrow> (False, insert nxt visited, path @ [nxt])
                 | Some ns \<Rightarrow> dfs_loop waits_for target ns (insert nxt visited) (path @ [nxt]))
           of (True, v, p) \<Rightarrow> (True, v, p)
            | (False, v, p) \<Rightarrow> dfs_loop waits_for target rest v (butlast p))"
  by pat_completeness auto

lemma dfs_loop_dom_visited:
  "dfs_loop_dom (g, t, ns, vis, p) \<Longrightarrow> vis \<subseteq> fst (snd (dfs_loop g t ns vis p))"
proof (induction g t ns vis p rule: dfs_loop.pinduct)
  case (1 g t vis p)
  then show ?case by (simp add: dfs_loop.psimps)
next
  case (2 g t n ns vis p)
  let ?inner = "if n \<in> vis then (False, vis, p @ [n])
     else case map_of g n of
       None \<Rightarrow> (False, insert n vis, p @ [n])
     | Some ms \<Rightarrow> dfs_loop g t ms (insert n vis) (p @ [n])"
  show ?case
  proof (cases "n = t")
    case True
    with 2 show ?thesis by (simp add: dfs_loop.psimps)
  next
    case False
    obtain b v q where i: "?inner = (b, v, q)" by (cases ?inner)
    have v: "vis \<subseteq> v"
    proof (cases "n \<in> vis \<or> map_of g n = None")
      case True
      with i show ?thesis by (auto split: if_splits)
    next
      case nv: False
      then obtain ms where ms: "map_of g n = Some ms" by auto
      with nv i have "dfs_loop g t ms (insert n vis) (p @ [n]) = (b, v, q)" by simp
      with "2.IH"(1) [OF False _ ms] nv show ?thesis by auto
    qed
    show ?thesis
    proof (cases b)
      case True
      with 2(1) False i v show ?thesis by (simp add: dfs_loop.psimps)
    next
      case nb: False
      have "v \<subseteq> fst (snd (dfs_loop g t ns v (butlast q)))"
        using "2.IH"(2) [OF False, of b "(v, q)" v q] i nb by simp
      with v 2(1) False i nb show ?thesis by (simp add: dfs_loop.psimps)
    qed
  qed
qed

termination dfs_loop
proof (relation "measures [\<lambda>(g, t, ns, vis, p). card (fst ` set g - vis), \<lambda>(g, t, ns, vis, p). length ns]",
    goal_cases)
  case 1
  show ?case by simp
next
  case (2 g t n ns vis p ms)
  then have "n \<in> fst ` set g - vis" by (auto dest: map_of_SomeD intro: rev_image_eqI)
  then have "card (fst ` set g - insert n vis) < card (fst ` set g - vis)"
    by (intro psubset_card_mono) auto
  then show ?case by simp
next
  case (3 g t n ns vis p b vq v q)
  have "vis \<subseteq> v"
  proof (cases "n \<in> vis \<or> map_of g n = None")
    case True
    with 3 show ?thesis by (auto split: if_splits)
  next
    case False
    then obtain ms where ms: "map_of g n = Some ms" by auto
    with False 3 have "dfs_loop g t ms (insert n vis) (p @ [n]) = (b, v, q)" by auto
    with dfs_loop_dom_visited [of g t ms "insert n vis" "p @ [n]"] 3(5) False ms
    show ?thesis by auto
  qed
  then have "card (fst ` set g - v) \<le> card (fst ` set g - vis)" by (intro card_mono) auto
  then show ?case by auto
qed

declare dfs_loop.simps [simp del]

definition dfs :: "int \<Rightarrow> int \<Rightarrow> graph \<Rightarrow> int set \<Rightarrow> int list \<Rightarrow> bool \<times> int set \<times> int list" where
  "dfs current target waits_for visited path =
     (if current \<in> visited then (False, visited, path)
      else case map_of waits_for current of
        None \<Rightarrow> (False, insert current visited, path)
      | Some ns \<Rightarrow> dfs_loop waits_for target ns (insert current visited) path)"

lemma dfs_loop_Nil [simp]: "dfs_loop g t [] vis p = (False, vis, p)"
  by (simp add: dfs_loop.simps)

lemma dfs_loop_Cons:
  "dfs_loop g t (n # ns) vis p =
     (if n = t then (True, vis, p @ [n])
      else case dfs n t g vis (p @ [n]) of
        (True, v, q) \<Rightarrow> (True, v, q)
      | (False, v, q) \<Rightarrow> dfs_loop g t ns v (butlast q))"
  by (simp add: dfs_loop.simps(2) dfs_def)

section \<open>Detection and victim selection\<close>

fun detect :: "int \<Rightarrow> int list \<Rightarrow> graph \<Rightarrow> int list option" where
  "detect requester_id [] waits_for = None"
| "detect requester_id (owner_id # owner_ids) waits_for =
     (if owner_id = requester_id then detect requester_id owner_ids waits_for
      else case dfs owner_id requester_id waits_for {} [requester_id, owner_id] of
        (True, _, path) \<Rightarrow> Some path
      | (False, _, _) \<Rightarrow> detect requester_id owner_ids waits_for)"

text \<open>Keeping the first occurrence of every element, as the \<open>seen\<close> filter does.\<close>

fun dedup :: "int set \<Rightarrow> int list \<Rightarrow> int list" where
  "dedup seen [] = []"
| "dedup seen (x # xs) = (if x \<in> seen then dedup seen xs else x # dedup (insert x seen) xs)"

text \<open>
  The order on the keys \<open>(count, Reverse(id))\<close>, and \<open>min_by_key\<close>, which keeps the first of
  equal minima.
\<close>

definition victim_before :: "(int \<Rightarrow> nat option) \<Rightarrow> int \<Rightarrow> int \<Rightarrow> bool" where
  "victim_before lock_counts a b \<longleftrightarrow>
     (let ca = (case lock_counts a of None \<Rightarrow> 0 | Some n \<Rightarrow> n);
          cb = (case lock_counts b of None \<Rightarrow> 0 | Some n \<Rightarrow> n)
      in ca < cb \<or> (ca = cb \<and> b < a))"

fun min_by :: "('a \<Rightarrow> 'a \<Rightarrow> bool) \<Rightarrow> 'a list \<Rightarrow> 'a option" where
  "min_by lt [] = None"
| "min_by lt (x # xs) = Some (fold (\<lambda>y best. if lt y best then y else best) xs x)"

text \<open>\<open>None\<close> is the index panic of \<open>cycle[0]\<close> on an empty cycle.\<close>

definition select_victim :: "int list \<Rightarrow> (int \<Rightarrow> nat option) \<Rightarrow> int option" where
  "select_victim cycle lock_counts =
     (case min_by (victim_before lock_counts) (dedup {} cycle) of
        Some v \<Rightarrow> Some v
      | None \<Rightarrow> (case cycle of [] \<Rightarrow> None | x # _ \<Rightarrow> Some x))"

section \<open>Soundness of the search\<close>

text \<open>The locks a locker holds according to the counts.\<close>

definition held :: "(int \<Rightarrow> nat option) \<Rightarrow> int \<Rightarrow> nat" where
  "held lock_counts x = (case lock_counts x of None \<Rightarrow> 0 | Some n \<Rightarrow> n)"

definition edges :: "graph \<Rightarrow> (int \<times> int) set" where
  "edges g = {(a, b). \<exists>ns. map_of g a = Some ns \<and> b \<in> set ns}"

text \<open>A walk: each node of the list has an edge to the next.\<close>

fun walk :: "graph \<Rightarrow> int \<Rightarrow> int list \<Rightarrow> bool" where
  "walk g a [] = True"
| "walk g a (b # bs) = ((a, b) \<in> edges g \<and> walk g b bs)"

lemma walk_trancl: "walk g a bs \<Longrightarrow> bs \<noteq> [] \<Longrightarrow> (a, last bs) \<in> (edges g)\<^sup>+"
proof (induction g a bs rule: walk.induct)
  case (2 g a b bs)
  then show ?case by (cases "bs = []") (auto intro: trancl_into_trancl2)
qed simp

text \<open>
  A successful loop has appended a walk to the target; an unsuccessful one leaves the path
  as it was, has visited every successor it was given, and has explored every node it
  added to the visited set without meeting the target.
\<close>

lemma dfs_loop_spec:
  "case dfs_loop g t ns vis p of (b, vis', p') \<Rightarrow>
     vis \<subseteq> vis' \<and>
     (if b then \<exists>n q. n \<in> set ns \<and> p' = p @ n # q \<and> walk g n q \<and> last (n # q) = t
      else p' = p \<and> (\<forall>n \<in> set ns. n \<noteq> t \<and> n \<in> vis') \<and>
           (\<forall>a \<in> vis' - vis. \<forall>c. (a, c) \<in> edges g \<longrightarrow> c \<noteq> t \<and> c \<in> vis'))"
proof (induction g t ns vis p rule: dfs_loop.induct)
  case (1 g t vis p)
  then show ?case by simp
next
  case (2 g t n ns vis p)
  show ?case
  proof (cases "n = t")
    case True
    then show ?thesis by (auto simp: dfs_loop_Cons intro!: exI [of _ n] exI [of _ "[]"])
  next
    case False
    obtain b v q where d: "dfs n t g vis (p @ [n]) = (b, v, q)" by (cases "dfs n t g vis (p @ [n])")
    have dfs: "vis \<subseteq> v \<and>
       (if b then \<exists>r. q = p @ n # r \<and> walk g n r \<and> last (n # r) = t
        else q = p @ [n] \<and> n \<in> v \<and>
             (\<forall>a \<in> v - vis. \<forall>c. (a, c) \<in> edges g \<longrightarrow> c \<noteq> t \<and> c \<in> v))"
    proof (cases "n \<in> vis")
      case True
      with d show ?thesis by (simp add: dfs_def)
    next
      case nv: False
      show ?thesis
      proof (cases "map_of g n")
        case None
        with nv d show ?thesis by (auto simp: dfs_def edges_def)
      next
        case (Some ms)
        with nv d have l: "dfs_loop g t ms (insert n vis) (p @ [n]) = (b, v, q)"
          by (simp add: dfs_def)
        from "2.IH"(1) [OF False nv Some, unfolded l prod.case] have
          *: "insert n vis \<subseteq> v"
             "if b then \<exists>m r. m \<in> set ms \<and> q = (p @ [n]) @ m # r \<and> walk g m r \<and> last (m # r) = t
              else q = p @ [n] \<and> (\<forall>m \<in> set ms. m \<noteq> t \<and> m \<in> v) \<and>
                   (\<forall>a \<in> v - insert n vis. \<forall>c. (a, c) \<in> edges g \<longrightarrow> c \<noteq> t \<and> c \<in> v)"
          by blast+
        show ?thesis
        proof (cases b)
          case True
          with *(2) obtain m r where m: "m \<in> set ms" "q = (p @ [n]) @ m # r" "walk g m r"
            "last (m # r) = t" by auto
          with Some have "walk g n (m # r)" by (auto simp: edges_def)
          with m have "\<exists>r. q = p @ n # r \<and> walk g n r \<and> last (n # r) = t"
            by (intro exI [of _ "m # r"]) simp
          moreover have "vis \<subseteq> v" using *(1) by blast
          ultimately show ?thesis using True by argo
        next
          case nb: False
          with *(2) have ms: "\<forall>m \<in> set ms. m \<noteq> t \<and> m \<in> v" and q: "q = p @ [n]"
            and rest: "\<forall>a \<in> v - insert n vis. \<forall>c. (a, c) \<in> edges g \<longrightarrow> c \<noteq> t \<and> c \<in> v"
            by argo+
          have "c \<noteq> t \<and> c \<in> v" if "a \<in> v - vis" "(a, c) \<in> edges g" for a c
          proof (cases "a = n")
            case True
            with that(2) Some have "c \<in> set ms" by (simp add: edges_def)
            with ms show ?thesis by blast
          next
            case False
            with that rest show ?thesis by blast
          qed
          with *(1) q nb show ?thesis by simp
        qed
      qed
    qed
    show ?thesis
    proof (cases b)
      case True
      with d False have eq: "dfs_loop g t (n # ns) vis p = (True, v, q)" by (simp add: dfs_loop_Cons)
      obtain r where "q = p @ n # r \<and> walk g n r \<and> last (n # r) = t"
        using dfs unfolding if_P [OF True] by blast
      then have "\<exists>m r. m \<in> set (n # ns) \<and> q = p @ m # r \<and> walk g m r \<and> last (m # r) = t"
        by (intro exI [of _ n] exI [of _ r]) simp
      with dfs show ?thesis unfolding eq by simp
    next
      case nb: False
      with dfs have q: "butlast q = p" by simp
      obtain b2 v2 q2 where l: "dfs_loop g t ns v p = (b2, v2, q2)"
        by (cases "dfs_loop g t ns v p")
      have eq: "dfs_loop g t (n # ns) vis p = (b2, v2, q2)"
        using False d nb q l by (simp add: dfs_loop_Cons)
      have IH: "v \<subseteq> v2 \<and>
        (if b2 then \<exists>m r. m \<in> set ns \<and> q2 = p @ m # r \<and> walk g m r \<and> last (m # r) = t
         else q2 = p \<and> (\<forall>m \<in> set ns. m \<noteq> t \<and> m \<in> v2) \<and>
              (\<forall>a \<in> v2 - v. \<forall>c. (a, c) \<in> edges g \<longrightarrow> c \<noteq> t \<and> c \<in> v2))"
        using "2.IH"(2) [OF False d [unfolded dfs_def, symmetric] _ refl, unfolded q l prod.case] nb
        by blast
      show ?thesis
      proof (cases b2)
        case True
        then obtain m r where "m \<in> set ns \<and> q2 = p @ m # r \<and> walk g m r \<and> last (m # r) = t"
          using IH unfolding if_P [OF True] by blast
        then have "\<exists>m r. m \<in> set (n # ns) \<and> q2 = p @ m # r \<and> walk g m r \<and> last (m # r) = t"
          by (intro exI [of _ m] exI [of _ r]) simp
        moreover have "vis \<subseteq> v2" using IH dfs by blast
        ultimately show ?thesis unfolding eq using True by simp
      next
        case False2: False
        note IHf = IH [unfolded if_not_P [OF False2]] and df = dfs [unfolded if_not_P [OF nb]]
        have "c \<noteq> t \<and> c \<in> v2" if "a \<in> v2 - vis" "(a, c) \<in> edges g" for a c
          using IHf df that by (cases "a \<in> v") blast+
        moreover have "\<forall>m \<in> set (n # ns). m \<noteq> t \<and> m \<in> v2" using IHf df False by auto
        moreover have "vis \<subseteq> v2" "q2 = p" using IHf df by blast+
        ultimately show ?thesis unfolding eq prod.case if_not_P [OF False2] by blast
      qed
    qed
  qed
qed

lemma dfs_fresh_sound:
  assumes "dfs a t g {} p = (True, v, p')"
  shows "\<exists>q. p' = p @ q \<and> q \<noteq> [] \<and> walk g a q \<and> last q = t"
proof (cases "map_of g a")
  case None
  with assms show ?thesis by (simp add: dfs_def)
next
  case (Some ns)
  with assms have l: "dfs_loop g t ns {a} p = (True, v, p')" by (simp add: dfs_def)
  obtain n q where "n \<in> set ns" "p' = p @ n # q" "walk g n q" "last (n # q) = t"
    using dfs_loop_spec [where g = g and t = t and ns = ns and vis = "{a}" and p = p, unfolded l prod.case if_True] by blast
  with Some show ?thesis by (intro exI [of _ "n # q"]) (simp add: edges_def)
qed

lemma closed_not_reached:
  assumes "(a, b) \<in> (edges g)\<^sup>+" and "a \<in> V"
    and "\<forall>x \<in> V. \<forall>y. (x, y) \<in> edges g \<longrightarrow> y \<noteq> t \<and> y \<in> V"
  shows "b \<noteq> t \<and> b \<in> V"
  using assms(1) by (induction rule: trancl_induct) (use assms(2,3) in blast)+

lemma dfs_fresh_complete:
  assumes "dfs a t g {} p = (False, v, p')"
  shows "(a, t) \<notin> (edges g)\<^sup>+"
proof (cases "map_of g a")
  case None
  then have "(a, b) \<notin> (edges g)\<^sup>+" for b by (auto simp: edges_def dest: tranclD)
  then show ?thesis by blast
next
  case (Some ns)
  with assms have l: "dfs_loop g t ns {a} p = (False, v, p')" by (simp add: dfs_def)
  have "a \<in> v" and ns: "\<forall>n \<in> set ns. n \<noteq> t \<and> n \<in> v"
    and rest: "\<forall>x \<in> v - {a}. \<forall>y. (x, y) \<in> edges g \<longrightarrow> y \<noteq> t \<and> y \<in> v"
    using dfs_loop_spec [where g = g and t = t and ns = ns and vis = "{a}" and p = p, unfolded l prod.case if_False] by blast+
  have "\<forall>x \<in> v. \<forall>y. (x, y) \<in> edges g \<longrightarrow> y \<noteq> t \<and> y \<in> v"
  proof (intro ballI allI impI)
    fix x y assume x: "x \<in> v" "(x, y) \<in> edges g"
    show "y \<noteq> t \<and> y \<in> v"
    proof (cases "x = a")
      case True
      with x(2) Some have "y \<in> set ns" by (simp add: edges_def)
      with ns show ?thesis by blast
    next
      case False
      with x rest show ?thesis by blast
    qed
  qed
  from closed_not_reached [OF _ \<open>a \<in> v\<close> this] show ?thesis by blast
qed

section \<open>Properties of the detector\<close>

lemma detect_Some:
  "detect r os g = Some p \<Longrightarrow>
     \<exists>ow q. ow \<in> set os \<and> ow \<noteq> r \<and> p = r # ow # q \<and> q \<noteq> [] \<and> walk g ow q \<and> last q = r"
proof (induction os)
  case (Cons ow os)
  show ?case
  proof (cases "ow = r")
    case True
    with Cons show ?thesis by auto
  next
    case False
    obtain b v q where d: "dfs ow r g {} [r, ow] = (b, v, q)" by (cases "dfs ow r g {} [r, ow]")
    show ?thesis
    proof (cases b)
      case True
      with Cons.prems False d have "p = q" by simp
      with dfs_fresh_sound [of ow r g "[r, ow]" v q] d True False show ?thesis by auto
    next
      case nb: False
      with Cons False d show ?thesis by auto
    qed
  qed
qed simp

lemma detect_None:
  "detect r os g = None \<Longrightarrow> ow \<in> set os \<Longrightarrow> ow \<noteq> r \<Longrightarrow> (ow, r) \<notin> (edges g)\<^sup>+"
proof (induction os)
  case (Cons o1 os)
  show ?case
  proof (cases "o1 = r")
    case True
    with Cons show ?thesis by auto
  next
    case False
    obtain b v q where d: "dfs o1 r g {} [r, o1] = (b, v, q)" by (cases "dfs o1 r g {} [r, o1]")
    with Cons.prems(1) False have nb: "\<not> b" by (cases b) auto
    show ?thesis
    proof (cases "ow = o1")
      case True
      with d nb dfs_fresh_complete show ?thesis by simp
    next
      case ne: False
      with Cons False d nb show ?thesis by auto
    qed
  qed
qed simp

text \<open>
  C11. Deadlock detection is sound and complete.  It reports a deadlock exactly when some
  owner of the lock, other than the requester, waits directly or indirectly for the
  requester; the reported list starts at the requester, goes to an owner of the lock and
  follows waits-for edges back to the requester.
\<close>

theorem detect_correct:
  "(detect r os g \<noteq> None \<longleftrightarrow> (\<exists>ow \<in> set os. ow \<noteq> r \<and> (ow, r) \<in> (edges g)\<^sup>+)) \<and>
   (\<forall>p. detect r os g = Some p \<longrightarrow>
      (\<exists>ow q. ow \<in> set os \<and> ow \<noteq> r \<and> p = r # ow # q \<and> q \<noteq> [] \<and> walk g ow q \<and> last q = r))"
proof -
  have "\<exists>ow \<in> set os. ow \<noteq> r \<and> (ow, r) \<in> (edges g)\<^sup>+" if "detect r os g = Some p" for p
    using detect_Some [OF that] walk_trancl by metis
  moreover have "detect r os g \<noteq> None" if "ow \<in> set os" "ow \<noteq> r" "(ow, r) \<in> (edges g)\<^sup>+" for ow
    using detect_None that by blast
  ultimately show ?thesis using detect_Some by blast
qed

theorem detect_correct_witness:
  "detect 3 [1] [(1, [2]), (2, [3])] = Some [3, 1, 2, 3] \<and>
   (1, 3) \<in> (edges [(1, [2]), (2, [3])])\<^sup>+"
proof -
  have d: "detect 3 [1] [(1, [2]), (2, [3])] = Some [3, 1, 2, 3]"
    by (simp add: dfs_def dfs_loop_Cons)
  then have "\<exists>ow \<in> set [1]. ow \<noteq> 3 \<and> (ow, 3) \<in> (edges [(1, [2]), (2, [3])])\<^sup>+"
    using detect_correct [of 3 "[1]" "[(1, [2]), (2, [3])]"] by (metis option.distinct(1))
  with d show ?thesis by simp
qed

subsection \<open>The victim\<close>

lemma set_dedup: "set (dedup seen xs) = set xs - seen"
  by (induction seen xs rule: dedup.induct) auto

lemma dedup_Nil: "dedup {} xs = [] \<longleftrightarrow> xs = []"
  using set_dedup [of "{}" xs] by (cases xs) auto

lemma victim_before_linear:
  "a \<noteq> b \<Longrightarrow> victim_before lc a b \<or> victim_before lc b a"
  "victim_before lc a b \<Longrightarrow> \<not> victim_before lc b a"
  "victim_before lc a b \<Longrightarrow> victim_before lc b c \<Longrightarrow> victim_before lc a c"
  by (auto simp: victim_before_def Let_def)

lemma not_victim_before_trans:
  "\<not> victim_before lc a b \<Longrightarrow> \<not> victim_before lc b c \<Longrightarrow> \<not> victim_before lc a c"
  by (auto simp: victim_before_def Let_def)

lemma fold_min_by:
  "let m = fold (\<lambda>y best. if victim_before lc y best then y else best) xs x in
     m \<in> insert x (set xs) \<and> (\<forall>y \<in> insert x (set xs). \<not> victim_before lc y m)"
proof (induction xs arbitrary: x)
  case Nil
  then show ?case by (auto dest: victim_before_linear(2))
next
  case (Cons z xs)
  let ?w = "if victim_before lc z x then z else x"
  have w: "\<not> victim_before lc x ?w" "\<not> victim_before lc z ?w"
    using victim_before_linear(2) by (auto split: if_splits)
  let ?m = "fold (\<lambda>y best. if victim_before lc y best then y else best) xs ?w"
  from Cons [of ?w] have m: "?m \<in> insert ?w (set xs)" "\<forall>y \<in> insert ?w (set xs). \<not> victim_before lc y ?m"
    by (simp_all add: Let_def)
  have "\<not> victim_before lc x ?m" "\<not> victim_before lc z ?m"
    using not_victim_before_trans [OF w(1), of ?m] not_victim_before_trans [OF w(2), of ?m] m(2) by blast+
  with m show ?case by (auto simp: Let_def split: if_splits)
qed

lemma select_victim_least:
  assumes "select_victim c lc = Some v"
  shows "v \<in> set c \<and> (\<forall>y \<in> set c. \<not> victim_before lc y v)"
proof (cases "dedup {} c")
  case Nil
  with assms show ?thesis by (auto simp: select_victim_def dedup_Nil split: list.splits)
next
  case (Cons x xs)
  then have "set c = insert x (set xs)" using set_dedup [of "{}" c] by simp
  with assms Cons fold_min_by [of lc xs x] show ?thesis by (simp add: select_victim_def Let_def)
qed

lemma select_victim_best:
  assumes "c \<noteq> []"
  shows "\<exists>v. select_victim c lc = Some v \<and> v \<in> set c \<and>
    (\<forall>y \<in> set c. held lc v < held lc y \<or> held lc v = held lc y \<and> y \<le> v)"
proof -
  have least: "held lc v < held lc y \<or> held lc v = held lc y \<and> y \<le> v" if "\<not> victim_before lc y v" for v y
    using that by (auto simp: victim_before_def held_def Let_def)
  obtain v where "select_victim c lc = Some v"
    using assms dedup_Nil [of c] by (cases "dedup {} c") (auto simp: select_victim_def)
  with select_victim_least [OF this] least show ?thesis by blast
qed

text \<open>
  C12. The victim is unique and agreed on.  A non-empty cycle has a victim; it is a member of
  the cycle that holds the fewest locks and, among those, the highest identifier; and it
  depends only on which lockers are on the cycle, so every waiter of a cycle selects the
  same victim, wherever its own search started.
\<close>

theorem select_victim_correct:
  assumes "c \<noteq> []"
  shows "\<exists>v. select_victim c lc = Some v \<and> v \<in> set c \<and>
    (\<forall>y \<in> set c. held lc v < held lc y \<or> held lc v = held lc y \<and> y \<le> v) \<and>
    (\<forall>c'. set c' = set c \<longrightarrow> select_victim c' lc = Some v)"
proof -
  obtain v where v: "select_victim c lc = Some v" "v \<in> set c"
    "\<forall>y \<in> set c. held lc v < held lc y \<or> held lc v = held lc y \<and> y \<le> v"
    using select_victim_best [OF assms] by blast
  have "select_victim c' lc = Some v" if "set c' = set c" for c'
  proof -
    have "c' \<noteq> []" using that assms by auto
    from select_victim_best [OF this] obtain w where w: "select_victim c' lc = Some w" by blast
    with select_victim_least [OF w] select_victim_least [OF v(1)] that victim_before_linear(1)
    show ?thesis by metis
  qed
  with v show ?thesis by blast
qed

theorem select_victim_correct_witness:
  "select_victim [3, 1, 2, 3] [1 \<mapsto> 5, 2 \<mapsto> 2, 3 \<mapsto> 2] = Some 3 \<and>
   select_victim [2, 3, 1, 2] [1 \<mapsto> 5, 2 \<mapsto> 2, 3 \<mapsto> 2] = Some 3"
proof -
  let ?lc = "[1 \<mapsto> 5, 2 \<mapsto> 2, 3 \<mapsto> 2] :: int \<Rightarrow> nat option"
  have "select_victim [3, 1, 2, 3] ?lc = Some 3"
    by (simp add: select_victim_def victim_before_def)
  moreover have "set [2, 3, 1, 2] = set [3, 1, 2, 3 :: int]" by auto
  ultimately show ?thesis using select_victim_correct [of "[3, 1, 2, 3]" ?lc] by (metis list.distinct(1) option.inject)
qed

end
