(* ===== verification/Lock_Manager.thy ===== *)
theory Lock_Manager
  imports Lock_Enum Deadlock_Detector "HOL-Library.AList"
begin

text \<open>
  The lock manager of \<open>noxu-txn/src/lock_manager.rs\<close>: sharded tables of record locks, the
  sharing and preemption registries, the incremental waits-for graph, and the phases of a
  blocking lock request.

  A blocking request leaves the shard mutex while it waits, so it is modelled as the
  sequence of its critical sections: \<open>lock_phase1\<close> (the attempt under the shard mutex),
  \<open>lock_begin_wait\<close> (the checks before the first sleep), and \<open>wait_top\<close> and \<open>wait_wake\<close> (the
  part of an iteration of the wait loop before and after it sleeps).  Other lockers act
  between them.  A condition variable pair is a number; the numbers whose flag was set by a
  release are in the field \<open>signalled\<close>, and an iteration receives the flag as the waiter
  read it, which may be older than the state the iteration acts on.  Durations are natural
  numbers of milliseconds: the code only compares them and subtracts with saturation.  Error
  values carry the identifiers the messages of the source are rendered from, and only the
  variants the lock manager raises are listed.
\<close>

unbundle bit_operations_syntax

section \<open>State\<close>

datatype TxnError =
  LockTimeout nat u64 "int list" LockType int
| TransactionTimeout nat int
| Deadlock "int list" int u64 LockType
| LockNotAvailable u64
| LockPreempted u64
| RangeRestart
| IllegalUpgrade_Err LockType LockType

record LockManager =
  lock_tables :: "(u64 \<times> Lock) list list"
  n_lock_tables :: nat
  lock_requests :: u64
  lock_waits :: u64
  lock_timeouts :: u64
  lock_timeout_ms :: nat
  default_txn_timeout_ms :: nat
  share_registry :: "(int \<times> int) list"
  share_registry_nonempty :: bool
  waiter_graph :: graph
  locker_labels :: "(int \<times> string) list"
  non_preemptable :: "int set"
  preempted :: "int set"
  preempted_nonempty :: bool
  lock_memory_counter :: int
  next_notify :: nat
  signalled :: "nat set"

definition LockManager_with_config :: "nat \<Rightarrow> nat \<Rightarrow> LockManager" where
  "LockManager_with_config timeout_ms n =
     \<lparr>lock_tables = replicate (max n 1) [], n_lock_tables = max n 1, lock_requests = 0,
      lock_waits = 0, lock_timeouts = 0, lock_timeout_ms = timeout_ms, default_txn_timeout_ms = 0,
      share_registry = [], share_registry_nonempty = False, waiter_graph = [], locker_labels = [],
      non_preemptable = {}, preempted = {}, preempted_nonempty = False, lock_memory_counter = 0,
      next_notify = 0, signalled = {}\<rparr>"

section \<open>Tables and memory accounting\<close>

definition LOCK_ENTRY_MEMORY :: int where
  "LOCK_ENTRY_MEMORY = 48 + 32"

text \<open>
  \<open>set_memory_counter\<close> replaces the private counter by the one of the memory budget, before any
  lock is taken; the model keeps the value the counter holds then.
\<close>

definition set_memory_counter :: "LockManager \<Rightarrow> int \<Rightarrow> LockManager" where
  "set_memory_counter lm counter = lm\<lparr>lock_memory_counter := counter\<rparr>"

definition charge_lock_entry :: "LockManager \<Rightarrow> LockManager" where
  "charge_lock_entry lm = lm\<lparr>lock_memory_counter := lock_memory_counter lm + LOCK_ENTRY_MEMORY\<rparr>"

definition credit_lock_entry :: "LockManager \<Rightarrow> LockManager" where
  "credit_lock_entry lm =
     lm\<lparr>lock_memory_counter := max (lock_memory_counter lm - LOCK_ENTRY_MEMORY) 0\<rparr>"

definition get_table_index :: "LockManager \<Rightarrow> u64 \<Rightarrow> nat" where
  "get_table_index lm lsn = unat (lsn AND 0x7fffffff) mod n_lock_tables lm"

definition table_get :: "LockManager \<Rightarrow> nat \<Rightarrow> u64 \<Rightarrow> Lock option" where
  "table_get lm i lsn = map_of (lock_tables lm ! i) lsn"

definition table_put :: "LockManager \<Rightarrow> nat \<Rightarrow> u64 \<Rightarrow> Lock \<Rightarrow> LockManager" where
  "table_put lm i lsn l = lm\<lparr>lock_tables := (lock_tables lm)[i := AList.update lsn l (lock_tables lm ! i)]\<rparr>"

definition table_remove :: "LockManager \<Rightarrow> nat \<Rightarrow> u64 \<Rightarrow> LockManager" where
  "table_remove lm i lsn = lm\<lparr>lock_tables := (lock_tables lm)[i := AList.delete lsn (lock_tables lm ! i)]\<rparr>"

text \<open>\<open>entry(lsn).or_insert_with(Lock::new_thin)\<close>, charging a new entry.\<close>

definition table_entry :: "LockManager \<Rightarrow> nat \<Rightarrow> u64 \<Rightarrow> LockManager \<times> Lock" where
  "table_entry lm i lsn =
     (case table_get lm i lsn of
        Some l \<Rightarrow> (lm, l)
      | None \<Rightarrow> (charge_lock_entry (table_put lm i lsn Lock_new_thin), Lock_new_thin))"

text \<open>Writing a lock back, or dropping its entry once it has neither owner nor waiter.\<close>

definition store_or_drop :: "LockManager \<Rightarrow> nat \<Rightarrow> u64 \<Rightarrow> Lock \<Rightarrow> LockManager" where
  "store_or_drop lm i lsn l =
     (if Lock_n_owners l = 0 \<and> Lock_n_waiters l = 0 then credit_lock_entry (table_remove lm i lsn)
      else table_put lm i lsn l)"

section \<open>Registries\<close>

definition register_locker_label :: "LockManager \<Rightarrow> int \<Rightarrow> string \<Rightarrow> LockManager" where
  "register_locker_label lm lid label = lm\<lparr>locker_labels := AList.update lid label (locker_labels lm)\<rparr>"

definition unregister_locker_label :: "LockManager \<Rightarrow> int \<Rightarrow> LockManager" where
  "unregister_locker_label lm lid = lm\<lparr>locker_labels := AList.delete lid (locker_labels lm)\<rparr>"

definition set_lock_timeout :: "LockManager \<Rightarrow> nat \<Rightarrow> LockManager" where
  "set_lock_timeout lm timeout_ms = lm\<lparr>lock_timeout_ms := timeout_ms\<rparr>"

definition set_default_txn_timeout :: "LockManager \<Rightarrow> nat \<Rightarrow> LockManager" where
  "set_default_txn_timeout lm timeout_ms = lm\<lparr>default_txn_timeout_ms := timeout_ms\<rparr>"

definition register_locker_sharing :: "LockManager \<Rightarrow> int \<Rightarrow> int \<Rightarrow> LockManager" where
  "register_locker_sharing lm lid group_id =
     lm\<lparr>share_registry := AList.update lid group_id (share_registry lm), share_registry_nonempty := True\<rparr>"

definition unregister_locker_sharing :: "LockManager \<Rightarrow> int \<Rightarrow> LockManager" where
  "unregister_locker_sharing lm lid =
     (let reg = AList.delete lid (share_registry lm)
      in lm\<lparr>share_registry := reg, share_registry_nonempty := reg \<noteq> []\<rparr>)"

definition register_non_preemptable :: "LockManager \<Rightarrow> int \<Rightarrow> LockManager" where
  "register_non_preemptable lm lid = lm\<lparr>non_preemptable := insert lid (non_preemptable lm)\<rparr>"

definition unregister_non_preemptable :: "LockManager \<Rightarrow> int \<Rightarrow> LockManager" where
  "unregister_non_preemptable lm lid = lm\<lparr>non_preemptable := non_preemptable lm - {lid}\<rparr>"

definition same_share_group :: "LockManager \<Rightarrow> int \<Rightarrow> int \<Rightarrow> bool" where
  "same_share_group lm a b =
     (case (map_of (share_registry lm) a, map_of (share_registry lm) b) of
        (Some ga, Some gb) \<Rightarrow> ga = gb | _ \<Rightarrow> False)"

definition build_shares_fn :: "LockManager \<Rightarrow> int \<Rightarrow> int \<Rightarrow> bool" where
  "build_shares_fn lm lid =
     (let requester_group = (if share_registry_nonempty lm then map_of (share_registry lm) lid else None);
          registry_snapshot = (if requester_group \<noteq> None then Some (share_registry lm) else None)
      in (\<lambda>owner_id. case (requester_group, registry_snapshot) of
            (Some req_group, Some reg) \<Rightarrow> map_of reg owner_id = Some req_group
          | _ \<Rightarrow> False))"

definition mark_preempted :: "LockManager \<Rightarrow> int list \<Rightarrow> LockManager" where
  "mark_preempted lm victims =
     (if victims = [] then lm
      else lm\<lparr>preempted := preempted lm \<union> set victims, preempted_nonempty := True\<rparr>)"

definition clear_preempted :: "LockManager \<Rightarrow> int \<Rightarrow> LockManager" where
  "clear_preempted lm lid =
     (let p = preempted lm - {lid} in lm\<lparr>preempted := p, preempted_nonempty := p \<noteq> {}\<rparr>)"

definition record_wait :: "LockManager \<Rightarrow> int \<Rightarrow> int list \<Rightarrow> LockManager" where
  "record_wait lm lid owner_ids = lm\<lparr>waiter_graph := AList.update lid owner_ids (waiter_graph lm)\<rparr>"

definition clear_wait :: "LockManager \<Rightarrow> int \<Rightarrow> LockManager" where
  "clear_wait lm lid = lm\<lparr>waiter_graph := AList.delete lid (waiter_graph lm)\<rparr>"

section \<open>Waiting and deadlock checks\<close>

text \<open>The number of locks every locker of a cycle holds, over all shards.\<close>

definition compute_lock_counts :: "LockManager \<Rightarrow> int list \<Rightarrow> int \<Rightarrow> nat option" where
  "compute_lock_counts lm cycle =
     (\<lambda>i. if i \<in> set cycle then
            Some (length (filter (\<lambda>x. x = i)
              (concat (map (\<lambda>(_, l). Lock_get_owner_ids l) (concat (lock_tables lm))))))
          else None)"

definition check_deadlock_for_waiter ::
  "LockManager \<Rightarrow> u64 \<Rightarrow> int \<Rightarrow> LockType \<Rightarrow> int list \<Rightarrow> TxnError option" where
  "check_deadlock_for_waiter lm lsn lid t owner_ids =
     (let waits_for = (case map_of (waiter_graph lm) lid of
                         Some _ \<Rightarrow> waiter_graph lm
                       | None \<Rightarrow> (lid, owner_ids) # waiter_graph lm) in
      case detect lid owner_ids waits_for of
        None \<Rightarrow> None
      | Some cycle \<Rightarrow>
          (let lock_counts = compute_lock_counts lm cycle in
           if list_ex (\<lambda>i. held lock_counts i = 0) cycle then None
           else if select_victim cycle lock_counts = Some lid
           then Some (Deadlock cycle lid lsn t) else None))"

definition validate_ownership_or_flush ::
  "LockManager \<Rightarrow> nat \<Rightarrow> u64 \<Rightarrow> int \<Rightarrow> LockType \<Rightarrow> LockManager \<times> bool" where
  "validate_ownership_or_flush lm i lsn lid t =
     (case table_get lm i lsn of
        None \<Rightarrow> (clear_wait lm lid, False)
      | Some l \<Rightarrow>
          (if Lock_is_owner l lid t then (clear_wait lm lid, True)
           else (clear_wait (store_or_drop lm i lsn (Lock_flush_waiter l lid)) lid, False)))"

fun granted_wait_grant :: "LockGrantType \<Rightarrow> LockType \<Rightarrow> (TxnError, LockGrantType) result" where
  "granted_wait_grant WaitNew _ = Ok New"
| "granted_wait_grant WaitPromotion _ = Ok Promotion"
| "granted_wait_grant WaitRestart _ = Err RangeRestart"
| "granted_wait_grant IllegalUpgrade t = Err (IllegalUpgrade_Err None_LT t)"
| "granted_wait_grant other _ = Ok other"

definition txn_timeout_error :: "int \<Rightarrow> TxnError" where
  "txn_timeout_error lid = TransactionTimeout 0 lid"

section \<open>Lock requests\<close>

text \<open>
  Phase 1 ends the request or leaves it in the queue with the grant it waits for, the
  owners it waits for, and its notify pair.
\<close>

datatype phase1 =
  Returned "(TxnError, LockGrantType) result"
| MustWait LockGrantType "int list" nat

definition attempt_lock ::
  "LockManager \<Rightarrow> u64 \<Rightarrow> int \<Rightarrow> LockType \<Rightarrow> bool \<Rightarrow> bool \<Rightarrow> LockManager \<times> phase1" where
  "attempt_lock lm lsn lid t non_blocking jump_ahead =
     (let i = get_table_index lm lsn; shares = build_shares_fn lm lid;
          (lm1, l) = table_entry lm i lsn;
          (l1, r) = Lock_lock_with_sharing l t lid non_blocking jump_ahead shares;
          lm2 = table_put lm1 i lsn l1 in
      if success r then (lm2, Returned (Ok (lock_grant r)))
      else if lock_grant r = IllegalUpgrade then
        (lm2, Returned (Err (IllegalUpgrade_Err
           (case Lock_get_owned_lock_type l1 lid of Some h \<Rightarrow> h | None \<Rightarrow> None_LT) t)))
      else if lock_grant r = Denied then (lm2, Returned (Err (LockNotAvailable lsn)))
      else
        (let n = next_notify lm2;
             lm3 = table_put lm2 i lsn (Lock_set_waiter_notify l1 lid n) in
         (lm3\<lparr>lock_waits := lock_waits lm3 + 1, next_notify := n + 1\<rparr>,
          MustWait (lock_grant r) (Lock_get_owner_ids l1) n)))"

definition lock_phase1 ::
  "LockManager \<Rightarrow> u64 \<Rightarrow> int \<Rightarrow> LockType \<Rightarrow> bool \<Rightarrow> bool \<Rightarrow> LockManager \<times> phase1" where
  "lock_phase1 lm lsn lid t non_blocking jump_ahead =
     (if t = None_LT then (lm, Returned (Ok NoneNeeded))
      else if t = Restart then (lm, Returned (Err RangeRestart))
      else if preempted_nonempty lm \<and> lid \<in> preempted lm then (lm, Returned (Err (LockPreempted lsn)))
      else attempt_lock (lm\<lparr>lock_requests := lock_requests lm + 1\<rparr>) lsn lid t non_blocking jump_ahead)"

text \<open>The local variables of a waiting request.\<close>

record Waiter =
  w_lsn :: u64
  w_locker :: int
  w_type :: LockType
  w_timeout :: nat
  w_txn_remaining :: "nat option"
  w_grant :: LockGrantType
  w_owner_ids :: "int list"
  w_notify :: nat

datatype wait_state = Finished "(TxnError, LockGrantType) result" | Sleeping nat

text \<open>Leaving the wait with the lock, and leaving it with an error unless the lock was granted.\<close>

definition wait_done :: "LockManager \<Rightarrow> Waiter \<Rightarrow> LockManager \<times> wait_state" where
  "wait_done lm w = (clear_wait lm (w_locker w), Finished (granted_wait_grant (w_grant w) (w_type w)))"

definition wait_exit :: "LockManager \<Rightarrow> Waiter \<Rightarrow> bool \<Rightarrow> TxnError \<Rightarrow> LockManager \<times> wait_state" where
  "wait_exit lm w is_timeout e =
     (case validate_ownership_or_flush lm (get_table_index lm (w_lsn w)) (w_lsn w) (w_locker w) (w_type w) of
        (lm1, True) \<Rightarrow> wait_done lm1 w
      | (lm1, False) \<Rightarrow>
          ((if is_timeout then lm1\<lparr>lock_timeouts := lock_timeouts lm1 + 1\<rparr> else lm1), Finished (Err e)))"

definition txn_expired :: "Waiter \<Rightarrow> nat \<Rightarrow> bool" where
  "txn_expired w elapsed_ms =
     (case w_txn_remaining w of Some budget \<Rightarrow> elapsed_ms \<ge> budget | None \<Rightarrow> False)"

definition lock_timeout_error :: "Waiter \<Rightarrow> TxnError" where
  "lock_timeout_error w = LockTimeout (w_timeout w) (w_lsn w) (w_owner_ids w) (w_type w) (w_locker w)"

definition slice_ms :: "Waiter \<Rightarrow> nat \<Rightarrow> nat" where
  "slice_ms w elapsed_ms =
     (let lock_remaining = (if w_timeout w = 0 then 0 else w_timeout w - elapsed_ms);
          txn_remaining = map_option (\<lambda>budget. max (budget - elapsed_ms) 1) (w_txn_remaining w);
          effective = (case (lock_remaining, txn_remaining) of
              (0, None) \<Rightarrow> 0
            | (0, Some b) \<Rightarrow> b
            | (Suc a, None) \<Rightarrow> Suc a
            | (Suc a, Some b) \<Rightarrow> min (Suc a) b)
      in if effective = 0 then 50 else min effective 50)"

text \<open>The part of the request between the attempt and the first sleep.\<close>

definition lock_begin_wait :: "LockManager \<Rightarrow> Waiter \<Rightarrow> LockManager \<times> wait_state option" where
  "lock_begin_wait lm w =
     (if w_txn_remaining w = Some 0 then apsnd Some (wait_exit lm w True (txn_timeout_error (w_locker w)))
      else
        (let lm1 = record_wait lm (w_locker w) (w_owner_ids w) in
         case check_deadlock_for_waiter lm1 (w_lsn w) (w_locker w) (w_type w) (w_owner_ids w) of
           Some e \<Rightarrow> apsnd Some (wait_exit lm1 w False e)
         | None \<Rightarrow> (lm1, None)))"

text \<open>
  An iteration of the wait loop: \<open>wait_top\<close> up to the sleep, with the flag \<open>seen\<close> read under
  the notify mutex; \<open>wait_wake\<close> after it, with the flag read on waking and again after the
  deadlock check.  \<open>None\<close> sends the loop back to its top.
\<close>

definition wait_top :: "LockManager \<Rightarrow> Waiter \<Rightarrow> bool \<Rightarrow> nat \<Rightarrow> LockManager \<times> wait_state" where
  "wait_top lm w seen elapsed_ms =
     (if seen then wait_done lm w
      else if txn_expired w elapsed_ms then wait_exit lm w True (txn_timeout_error (w_locker w))
      else if w_timeout w \<noteq> 0 \<and> elapsed_ms \<ge> w_timeout w then
        wait_exit lm w True (lock_timeout_error w)
      else (lm, Sleeping (slice_ms w elapsed_ms)))"

definition wait_wake ::
  "LockManager \<Rightarrow> Waiter \<Rightarrow> bool \<Rightarrow> bool \<Rightarrow> bool \<Rightarrow> nat \<Rightarrow> LockManager \<times> wait_state option" where
  "wait_wake lm w seen seen_again timed_out elapsed_ms =
     (if seen then apsnd Some (wait_done lm w)
      else
        (let cur_owner_ids = (case table_get lm (get_table_index lm (w_lsn w)) (w_lsn w) of
                                Some l \<Rightarrow> Lock_get_owner_ids l | None \<Rightarrow> []) in
         case check_deadlock_for_waiter lm (w_lsn w) (w_locker w) (w_type w) cur_owner_ids of
           Some e \<Rightarrow> apsnd Some (wait_exit lm w False e)
         | None \<Rightarrow>
             if seen_again then apsnd Some (wait_done lm w)
             else if timed_out \<and> txn_expired w elapsed_ms then
               apsnd Some (wait_exit lm w True (txn_timeout_error (w_locker w)))
             else if timed_out \<and> w_timeout w > 0 \<and> elapsed_ms \<ge> w_timeout w then
               apsnd Some (wait_exit lm w True (lock_timeout_error w))
             else (lm, None)))"

section \<open>Release, demotion and stealing\<close>

definition signal :: "LockManager \<Rightarrow> (int list \<times> nat list) option \<Rightarrow> LockManager" where
  "signal lm res = (case res of None \<Rightarrow> lm | Some (_, ns) \<Rightarrow> lm\<lparr>signalled := signalled lm \<union> set ns\<rparr>)"

definition release_at :: "LockManager \<Rightarrow> nat \<Rightarrow> u64 \<Rightarrow> int \<Rightarrow> (int \<Rightarrow> bool) \<Rightarrow> LockManager" where
  "release_at lm i lsn lid shares_fn =
     (case table_get lm i lsn of
        None \<Rightarrow> lm
      | Some l \<Rightarrow>
          (case Lock_release_with_sharing l lid shares_fn of
             (l1, res) \<Rightarrow> store_or_drop (signal lm res) i lsn l1))"

definition LockManager_release :: "LockManager \<Rightarrow> u64 \<Rightarrow> int \<Rightarrow> LockManager" where
  "LockManager_release lm lsn lid =
     release_at lm (get_table_index lm lsn) lsn lid (build_shares_fn lm lid)"

text \<open>
  \<open>release_all_for_locker\<close> visits the shards in order; within a shard it first collects the
  positions the locker owns and then releases them one by one.
\<close>

definition owned_lsns :: "LockManager \<Rightarrow> nat \<Rightarrow> int \<Rightarrow> u64 list" where
  "owned_lsns lm i lid =
     map fst (filter (\<lambda>(_, l). Lock_get_owned_lock_type l lid \<noteq> None) (lock_tables lm ! i))"

fun release_lsns ::
  "LockManager \<Rightarrow> nat \<Rightarrow> int \<Rightarrow> (int \<Rightarrow> bool) \<Rightarrow> u64 list \<Rightarrow> nat \<Rightarrow> LockManager \<times> nat" where
  "release_lsns lm i lid shares_fn [] released = (lm, released)"
| "release_lsns lm i lid shares_fn (lsn # lsns) released =
     (if table_get lm i lsn = None then release_lsns lm i lid shares_fn lsns released
      else release_lsns (release_at lm i lsn lid shares_fn) i lid shares_fn lsns (released + 1))"

fun release_shards ::
  "LockManager \<Rightarrow> int \<Rightarrow> (int \<Rightarrow> bool) \<Rightarrow> nat list \<Rightarrow> nat \<Rightarrow> LockManager \<times> nat" where
  "release_shards lm lid shares_fn [] released = (lm, released)"
| "release_shards lm lid shares_fn (i # is) released =
     (case release_lsns lm i lid shares_fn (owned_lsns lm i lid) released of
        (lm1, released1) \<Rightarrow> release_shards lm1 lid shares_fn is released1)"

definition release_all_for_locker :: "LockManager \<Rightarrow> int \<Rightarrow> LockManager \<times> nat" where
  "release_all_for_locker lm lid =
     (case release_shards lm lid (build_shares_fn lm lid) [0..<length (lock_tables lm)] 0 of
        (lm1, released) \<Rightarrow> (clear_preempted lm1 lid, released))"

definition LockManager_demote :: "LockManager \<Rightarrow> u64 \<Rightarrow> int \<Rightarrow> LockManager" where
  "LockManager_demote lm lsn lid =
     (let i = get_table_index lm lsn in
      case table_get lm i lsn of None \<Rightarrow> lm | Some l \<Rightarrow> table_put lm i lsn (Lock_demote l lid))"

definition LockManager_steal_lock :: "LockManager \<Rightarrow> u64 \<Rightarrow> int \<Rightarrow> LockManager" where
  "LockManager_steal_lock lm lsn lid =
     (let i = get_table_index lm lsn; (lm1, l) = table_entry lm i lsn;
          (l1, victims) = Lock_steal_lock_preemptable l lid (\<lambda>_. True) in
      mark_preempted (table_put lm1 i lsn l1) victims)"

definition preemptable_fn :: "LockManager \<Rightarrow> int \<Rightarrow> bool" where
  "preemptable_fn lm =
     (let np = (if non_preemptable lm = {} then None else Some (non_preemptable lm))
      in (\<lambda>owner_id. case np of Some s \<Rightarrow> owner_id \<notin> s | None \<Rightarrow> True))"

definition steal_lock_in_wait :: "LockManager \<Rightarrow> u64 \<Rightarrow> int \<Rightarrow> LockType \<Rightarrow> LockManager \<times> bool" where
  "steal_lock_in_wait lm lsn lid t =
     (let i = get_table_index lm lsn; (lm1, l) = table_entry lm i lsn;
          (l2, victims) = Lock_steal_lock_preemptable (Lock_flush_waiter l lid) lid (preemptable_fn lm);
          (l3, r) = Lock_lock_with_sharing l2 t lid True False (build_shares_fn lm lid) in
      (mark_preempted (table_put lm1 i lsn l3) victims, success r))"

text \<open>
  \<open>lock_importunate_with_timeout\<close>: a non-blocking attempt, then the theft, then an ordinary
  request; the result is that of phase 1 of the request that ends it.
\<close>

definition lock_importunate ::
  "LockManager \<Rightarrow> u64 \<Rightarrow> int \<Rightarrow> LockType \<Rightarrow> bool \<Rightarrow> LockManager \<times> phase1" where
  "lock_importunate lm lsn lid t non_blocking =
     (if t = None_LT then (lm, Returned (Ok NoneNeeded))
      else if t = Restart then (lm, Returned (Err RangeRestart))
      else case lock_phase1 lm lsn lid t True False of
        (lm1, Returned (Err (LockNotAvailable _))) \<Rightarrow>
          (case steal_lock_in_wait lm1 lsn lid t of
             (lm2, True) \<Rightarrow> (lm2, Returned (Ok New))
           | (lm2, False) \<Rightarrow>
               if non_blocking then (lm2, Returned (Err (LockNotAvailable lsn)))
               else lock_phase1 lm2 lsn lid t False False)
      | (lm1, p) \<Rightarrow> (lm1, p))"

section \<open>Queries\<close>

definition lm_get :: "LockManager \<Rightarrow> u64 \<Rightarrow> Lock option" where
  "lm_get lm lsn = table_get lm (get_table_index lm lsn) lsn"

definition probe_read_uncontended :: "LockManager \<Rightarrow> u64 \<Rightarrow> int \<Rightarrow> bool" where
  "probe_read_uncontended lm lsn requester_id =
     (case lm_get lm lsn of
        None \<Rightarrow> True
      | Some l \<Rightarrow>
          if Lock_n_waiters l > 0 then False
          else (case Lock_get_write_owner_locker_id l of None \<Rightarrow> True | Some w \<Rightarrow> w = requester_id))"

definition LockManager_is_owned_write_lock :: "LockManager \<Rightarrow> u64 \<Rightarrow> int \<Rightarrow> bool" where
  "LockManager_is_owned_write_lock lm lsn lid =
     (case lm_get lm lsn of Some l \<Rightarrow> Lock_is_owned_write_lock l lid | None \<Rightarrow> False)"

definition LockManager_get_owned_lock_type :: "LockManager \<Rightarrow> u64 \<Rightarrow> int \<Rightarrow> LockType option" where
  "LockManager_get_owned_lock_type lm lsn lid =
     (case lm_get lm lsn of Some l \<Rightarrow> Lock_get_owned_lock_type l lid | None \<Rightarrow> None)"

definition get_lock_info :: "LockManager \<Rightarrow> u64 \<Rightarrow> nat \<times> nat" where
  "get_lock_info lm lsn =
     (case lm_get lm lsn of Some l \<Rightarrow> (Lock_n_owners l, Lock_n_waiters l) | None \<Rightarrow> (0, 0))"

definition n_total_locks :: "LockManager \<Rightarrow> nat" where
  "n_total_locks lm = sum_list (map length (lock_tables lm))"

definition report_leaked_locks :: "LockManager \<Rightarrow> (u64 \<times> int list) list" where
  "report_leaked_locks lm =
     sort_key fst (map (\<lambda>(lsn, l). (lsn, Lock_get_owner_ids l))
       (filter (\<lambda>(_, l). Lock_n_owners l > 0) (concat (lock_tables lm))))"

section \<open>The tables as one map\<close>

text \<open>
  What a client of the tables relies on: a map from positions to locks, whatever the
  sharding.  \<open>all_entries\<close> lifts a property of single locks to the store.
\<close>

locale lock_store =
  fixes get :: "'s \<Rightarrow> u64 \<Rightarrow> 'l option"
    and put :: "'s \<Rightarrow> u64 \<Rightarrow> 'l \<Rightarrow> 's"
    and rem :: "'s \<Rightarrow> u64 \<Rightarrow> 's"
    and wf :: "'s \<Rightarrow> bool"
  assumes get_put: "wf s \<Longrightarrow> get (put s k l) = (get s)(k \<mapsto> l)"
    and get_rem: "wf s \<Longrightarrow> get (rem s k) = (get s)(k := None)"
    and wf_put: "wf s \<Longrightarrow> wf (put s k l)"
    and wf_rem: "wf s \<Longrightarrow> wf (rem s k)"
begin

definition all_entries :: "('l \<Rightarrow> bool) \<Rightarrow> 's \<Rightarrow> bool" where
  "all_entries P s \<longleftrightarrow> (\<forall>k l. get s k = Some l \<longrightarrow> P l)"

lemma all_entriesD: "all_entries P s \<Longrightarrow> get s k = Some l \<Longrightarrow> P l"
  by (simp add: all_entries_def)

lemma all_entries_put: "wf s \<Longrightarrow> all_entries P s \<Longrightarrow> P l \<Longrightarrow> all_entries P (put s k l)"
  by (simp add: all_entries_def get_put)

lemma all_entries_rem: "wf s \<Longrightarrow> all_entries P s \<Longrightarrow> all_entries P (rem s k)"
  by (simp add: all_entries_def get_rem)

end

definition tables_wf :: "LockManager \<Rightarrow> bool" where
  "tables_wf lm \<longleftrightarrow>
     length (lock_tables lm) = n_lock_tables lm \<and> n_lock_tables lm > 0 \<and>
     (\<forall>i < length (lock_tables lm). distinct (map fst (lock_tables lm ! i)) \<and>
        (\<forall>lsn \<in> fst ` set (lock_tables lm ! i). get_table_index lm lsn = i))"

definition lm_put :: "LockManager \<Rightarrow> u64 \<Rightarrow> Lock \<Rightarrow> LockManager" where
  "lm_put lm lsn l = table_put lm (get_table_index lm lsn) lsn l"

definition lm_remove :: "LockManager \<Rightarrow> u64 \<Rightarrow> LockManager" where
  "lm_remove lm lsn = table_remove lm (get_table_index lm lsn) lsn"

lemma get_table_index_cong: "n_lock_tables lm' = n_lock_tables lm \<Longrightarrow> get_table_index lm' = get_table_index lm"
  by (simp add: get_table_index_def fun_eq_iff)

lemma get_table_index_tables [simp]: "get_table_index (lm\<lparr>lock_tables := x\<rparr>) = get_table_index lm"
  by (rule get_table_index_cong) simp

lemma tables_wf_cong:
  "lock_tables lm' = lock_tables lm \<Longrightarrow> n_lock_tables lm' = n_lock_tables lm \<Longrightarrow> tables_wf lm' = tables_wf lm"
  by (simp add: tables_wf_def get_table_index_cong [of lm' lm])

lemma lm_get_cong:
  "lock_tables lm' = lock_tables lm \<Longrightarrow> n_lock_tables lm' = n_lock_tables lm \<Longrightarrow> lm_get lm' = lm_get lm"
  by (simp add: lm_get_def fun_eq_iff table_get_def get_table_index_cong [of lm' lm])

lemma table_index_bound: "tables_wf lm \<Longrightarrow> get_table_index lm lsn < length (lock_tables lm)"
  by (simp add: tables_wf_def get_table_index_def)

lemma table_put_fields [simp]:
  "n_lock_tables (table_put lm i k l) = n_lock_tables lm"
  "n_lock_tables (table_remove lm i k) = n_lock_tables lm"
  "get_table_index (table_put lm i k l) = get_table_index lm"
  "get_table_index (table_remove lm i k) = get_table_index lm"
  by (simp_all add: table_put_def table_remove_def get_table_index_def fun_eq_iff)

lemma tables_wf_update:
  assumes "tables_wf lm" and "distinct (map fst tab)"
    and "\<forall>lsn \<in> fst ` set tab. get_table_index lm lsn = i"
  shows "tables_wf (lm\<lparr>lock_tables := (lock_tables lm)[i := tab]\<rparr>)"
proof -
  have "get_table_index (lm\<lparr>lock_tables := (lock_tables lm)[i := tab]\<rparr>) = get_table_index lm"
    by (rule get_table_index_cong) simp
  moreover have "(lock_tables lm)[i := tab] ! j = (if i = j then tab else lock_tables lm ! j)"
    if "j < length (lock_tables lm)" for j
    using that by (cases "i = j") simp_all
  ultimately show ?thesis using assms by (auto simp: tables_wf_def)
qed

lemma tables_wf_shard:
  assumes "tables_wf lm"
  shows "distinct (map fst (lock_tables lm ! get_table_index lm lsn))"
    and "k \<in> fst ` set (lock_tables lm ! get_table_index lm lsn) \<Longrightarrow> get_table_index lm k = get_table_index lm lsn"
  using assms table_index_bound [OF assms, of lsn] by (auto simp: tables_wf_def)

lemma keys_delete: "fst ` set (AList.delete k al) \<subseteq> fst ` set al"
  by (auto simp: AList.delete_eq)

lemma tables_wf_put:
  assumes "tables_wf lm"
  shows "tables_wf (lm_put lm lsn l)"
  unfolding lm_put_def table_put_def
proof (rule tables_wf_update [OF assms])
  show "\<forall>k \<in> fst ` set (AList.update lsn l (lock_tables lm ! get_table_index lm lsn)).
      get_table_index lm k = get_table_index lm lsn"
    unfolding AList.dom_update using tables_wf_shard(2) [OF assms] by blast
qed (rule AList.distinct_update [OF tables_wf_shard(1) [OF assms]])

lemma tables_wf_remove:
  assumes "tables_wf lm"
  shows "tables_wf (lm_remove lm lsn)"
  unfolding lm_remove_def table_remove_def
proof (rule tables_wf_update [OF assms])
  show "\<forall>k \<in> fst ` set (AList.delete lsn (lock_tables lm ! get_table_index lm lsn)).
      get_table_index lm k = get_table_index lm lsn"
    by (rule ballI, rule tables_wf_shard(2) [OF assms], erule subsetD [OF keys_delete])
qed (rule AList.distinct_delete [OF tables_wf_shard(1) [OF assms]])

lemma map_of_shard: "get_table_index lm k = i \<Longrightarrow> map_of (lock_tables lm ! i) k = lm_get lm k"
  by (simp add: lm_get_def table_get_def)

lemma lm_get_update:
  assumes "tables_wf lm"
  shows "lm_get (lm\<lparr>lock_tables := (lock_tables lm)[get_table_index lm lsn := tab]\<rparr>) k =
    (if get_table_index lm k = get_table_index lm lsn then map_of tab k else lm_get lm k)"
  using table_index_bound [OF assms, of lsn] by (simp add: lm_get_def table_get_def nth_list_update)

lemma lm_get_put: "tables_wf lm \<Longrightarrow> lm_get (lm_put lm lsn l) = (lm_get lm)(lsn \<mapsto> l)"
  by (auto simp: fun_eq_iff lm_put_def table_put_def lm_get_update AList.update_conv' map_of_shard)

lemma lm_get_remove: "tables_wf lm \<Longrightarrow> lm_get (lm_remove lm lsn) = (lm_get lm)(lsn := None)"
  by (auto simp: fun_eq_iff lm_remove_def table_remove_def lm_get_update AList.delete_conv' map_of_shard)

interpretation tb: lock_store lm_get lm_put lm_remove tables_wf
  by unfold_locales (simp_all add: lm_get_put lm_get_remove tables_wf_put tables_wf_remove)

text \<open>The number of entries, as the memory counter sees it.\<close>

lemma n_total_locks_update:
  assumes "i < length (lock_tables lm)"
  shows "n_total_locks (lm\<lparr>lock_tables := (lock_tables lm)[i := tab]\<rparr>) + length (lock_tables lm ! i) =
    n_total_locks lm + length tab"
proof -
  have "n_total_locks lm = sum_list (take i (map length (lock_tables lm))) +
      length (lock_tables lm ! i) + sum_list (drop (Suc i) (map length (lock_tables lm)))"
    unfolding n_total_locks_def using assms
    by (metis (no_types, lifting) add.assoc id_take_nth_drop length_map nth_map sum_list.Cons sum_list_append)
  moreover have "n_total_locks (lm\<lparr>lock_tables := (lock_tables lm)[i := tab]\<rparr>) =
      sum_list (take i (map length (lock_tables lm))) + length tab +
      sum_list (drop (Suc i) (map length (lock_tables lm)))"
    unfolding n_total_locks_def using assms
    by (simp add: map_update upd_conv_take_nth_drop take_map drop_map)
  ultimately show ?thesis by simp
qed

lemma length_alist_update:
  "length (AList.update k v al) = (if k \<in> fst ` set al then length al else Suc (length al))"
  using arg_cong [OF AList.update_keys [of k v al], of length] by (simp split: if_splits)

lemma length_alist_delete:
  assumes "distinct (map fst al)" and "k \<in> fst ` set al"
  shows "Suc (length (AList.delete k al)) = length al"
  using arg_cong [OF AList.delete_keys [of k al], of length] assms
    distinct_remove1_removeAll [OF assms(1), of k] length_remove1 [of k "map fst al"]
    length_pos_if_in_set [of k "map fst al"] by simp

lemma lm_get_None_iff: "lm_get lm lsn = None \<longleftrightarrow> lsn \<notin> fst ` set (lock_tables lm ! get_table_index lm lsn)"
  by (simp add: lm_get_def table_get_def map_of_eq_None_iff)

lemma n_total_locks_put:
  assumes "tables_wf lm"
  shows "n_total_locks (lm_put lm lsn l) = n_total_locks lm + (if lm_get lm lsn = None then 1 else 0)"
  using n_total_locks_update [OF table_index_bound [OF assms], of lsn
      "AList.update lsn l (lock_tables lm ! get_table_index lm lsn)"]
  by (simp add: lm_put_def table_put_def lm_get_None_iff length_alist_update split: if_splits)

lemma n_total_locks_remove:
  assumes "tables_wf lm" and "lm_get lm lsn \<noteq> None"
  shows "Suc (n_total_locks (lm_remove lm lsn)) = n_total_locks lm"
  using n_total_locks_update [OF table_index_bound [OF assms(1)], of lsn
      "AList.delete lsn (lock_tables lm ! get_table_index lm lsn)"]
    length_alist_delete [OF tables_wf_shard(1) [OF assms(1)], of lsn lsn] assms(2)
  by (simp add: lm_remove_def table_remove_def lm_get_None_iff)

section \<open>The invariant of the manager\<close>

definition lm_inv :: "LockManager \<Rightarrow> bool" where
  "lm_inv lm \<longleftrightarrow>
     tables_wf lm \<and> tb.all_entries (Lock_inv (same_share_group lm)) lm \<and>
     share_registry_nonempty lm = (share_registry lm \<noteq> []) \<and>
     preempted_nonempty lm = (preempted lm \<noteq> {}) \<and>
     lock_memory_counter lm = LOCK_ENTRY_MEMORY * int (n_total_locks lm)"

lemma same_share_group_cong:
  "share_registry lm' = share_registry lm \<Longrightarrow> same_share_group lm' = same_share_group lm"
  by (simp add: same_share_group_def fun_eq_iff)

lemma symp_same_share_group: "symp (same_share_group lm)"
  by (auto simp: symp_def same_share_group_def split: option.splits)

lemma build_shares_same_group:
  assumes "lm_inv lm"
  shows "build_shares_fn lm lid = same_share_group lm lid"
  using assms
  by (auto simp: lm_inv_def build_shares_fn_def same_share_group_def fun_eq_iff split: option.splits)

text \<open>Updates of fields the invariant does not read.\<close>

lemma lm_inv_cong:
  assumes "lock_tables lm' = lock_tables lm" and "n_lock_tables lm' = n_lock_tables lm"
    and "share_registry lm' = share_registry lm"
    and "share_registry_nonempty lm' = share_registry_nonempty lm"
    and "preempted_nonempty lm = (preempted lm \<noteq> {}) \<Longrightarrow> preempted_nonempty lm' = (preempted lm' \<noteq> {})"
    and "lock_memory_counter lm' = lock_memory_counter lm"
  shows "lm_inv lm \<Longrightarrow> lm_inv lm'"
  using assms same_share_group_cong [OF assms(3)] tables_wf_cong [OF assms(1,2)] lm_get_cong [OF assms(1,2)]
  by (simp add: lm_inv_def tb.all_entries_def n_total_locks_def)

lemma lm_inv_with_config: "lm_inv (LockManager_with_config t n)"
  by (simp add: lm_inv_def LockManager_with_config_def tables_wf_def tb.all_entries_def lm_get_def
      table_get_def get_table_index_def n_total_locks_def sum_list_replicate)

lemma lm_inv_frame [lock_inv_intros]:
  assumes "lm_inv lm"
  shows "lm_inv (signal lm res)" and "lm_inv (record_wait lm lid ids)" and "lm_inv (clear_wait lm lid)"
    and "lm_inv (mark_preempted lm vs)" and "lm_inv (clear_preempted lm lid)"
    and "lm_inv (lm\<lparr>lock_requests := a\<rparr>)" and "lm_inv (lm\<lparr>lock_timeouts := a\<rparr>)"
    and "lm_inv (lm\<lparr>lock_waits := a, next_notify := n\<rparr>)"
    and "lm_inv (register_locker_label lm lid lb)" and "lm_inv (unregister_locker_label lm lid)"
    and "lm_inv (set_lock_timeout lm ms)" and "lm_inv (set_default_txn_timeout lm ms)"
    and "lm_inv (register_non_preemptable lm lid)" and "lm_inv (unregister_non_preemptable lm lid)"
  by (rule lm_inv_cong [OF _ _ _ _ _ _ assms];
      auto simp: signal_def record_wait_def clear_wait_def mark_preempted_def clear_preempted_def Let_def
        register_locker_label_def unregister_locker_label_def set_lock_timeout_def
        set_default_txn_timeout_def register_non_preemptable_def unregister_non_preemptable_def
      split: option.splits)+

lemma put_fields [simp]:
  "share_registry (lm_put lm lsn l) = share_registry lm"
  "share_registry_nonempty (lm_put lm lsn l) = share_registry_nonempty lm"
  "preempted (lm_put lm lsn l) = preempted lm"
  "preempted_nonempty (lm_put lm lsn l) = preempted_nonempty lm"
  "lock_memory_counter (lm_put lm lsn l) = lock_memory_counter lm"
  "share_registry (lm_remove lm lsn) = share_registry lm"
  "share_registry_nonempty (lm_remove lm lsn) = share_registry_nonempty lm"
  "preempted (lm_remove lm lsn) = preempted lm"
  "preempted_nonempty (lm_remove lm lsn) = preempted_nonempty lm"
  "lock_memory_counter (lm_remove lm lsn) = lock_memory_counter lm"
  by (simp_all add: lm_put_def table_put_def lm_remove_def table_remove_def)

lemma lm_inv_put:
  assumes "lm_inv lm" and "lm_get lm lsn \<noteq> None" and "Lock_inv (same_share_group lm) l"
  shows "lm_inv (lm_put lm lsn l)"
proof -
  have "same_share_group (lm_put lm lsn l) = same_share_group lm" by (rule same_share_group_cong) simp
  with assms show ?thesis
    by (auto simp: lm_inv_def tables_wf_put tb.all_entries_put n_total_locks_put)
qed

lemma charge_fields [simp]:
  "lm_get (charge_lock_entry lm) = lm_get lm" "lm_get (credit_lock_entry lm) = lm_get lm"
  "tables_wf (charge_lock_entry lm) = tables_wf lm" "tables_wf (credit_lock_entry lm) = tables_wf lm"
  "n_total_locks (charge_lock_entry lm) = n_total_locks lm"
  "n_total_locks (credit_lock_entry lm) = n_total_locks lm"
  "same_share_group (charge_lock_entry lm) = same_share_group lm"
  "same_share_group (credit_lock_entry lm) = same_share_group lm"
  "get_table_index (charge_lock_entry lm) = get_table_index lm"
  "get_table_index (credit_lock_entry lm) = get_table_index lm"
  by (rule lm_get_cong tables_wf_cong same_share_group_cong get_table_index_cong |
      simp add: charge_lock_entry_def credit_lock_entry_def n_total_locks_def)+

lemma charge_entries [simp]:
  "tb.all_entries P (charge_lock_entry lm) = tb.all_entries P lm"
  "tb.all_entries P (credit_lock_entry lm) = tb.all_entries P lm"
  by (simp_all add: tb.all_entries_def)

lemma put_index [simp]:
  "get_table_index (lm_put lm lsn l) = get_table_index lm"
  "get_table_index (lm_remove lm lsn) = get_table_index lm"
  by (simp_all add: lm_put_def lm_remove_def)

lemma put_share_group [simp]:
  "same_share_group (lm_put lm lsn l) = same_share_group lm"
  "same_share_group (lm_remove lm lsn) = same_share_group lm"
  by (rule same_share_group_cong, simp)+

lemma lm_inv_insert:
  assumes "lm_inv lm" and "lm_get lm lsn = None" and "Lock_inv (same_share_group lm) l"
  shows "lm_inv (charge_lock_entry (lm_put lm lsn l))"
  using assms
  by (simp add: lm_inv_def tables_wf_put tb.all_entries_put n_total_locks_put distrib_left)
     (simp add: charge_lock_entry_def)

lemma lm_inv_drop:
  assumes "lm_inv lm" and "lm_get lm lsn \<noteq> None"
  shows "lm_inv (credit_lock_entry (lm_remove lm lsn))"
proof -
  have "Suc (n_total_locks (lm_remove lm lsn)) = n_total_locks lm"
    using n_total_locks_remove [of lm lsn] assms by (simp add: lm_inv_def)
  then show ?thesis
    using assms(1)
    by (auto simp: lm_inv_def tables_wf_remove tb.all_entries_rem)
       (auto simp: credit_lock_entry_def LOCK_ENTRY_MEMORY_def)
qed

text \<open>The access patterns of the operations: find or create the entry, write it back, or drop it.\<close>

lemma table_get_lm: "table_get lm (get_table_index lm lsn) lsn = lm_get lm lsn"
  by (simp add: lm_get_def)

lemma table_entry_eq:
  "table_entry lm (get_table_index lm lsn) lsn =
     (case lm_get lm lsn of
        Some l \<Rightarrow> (lm, l)
      | None \<Rightarrow> (charge_lock_entry (lm_put lm lsn Lock_new_thin), Lock_new_thin))"
  by (simp add: table_entry_def table_get_lm lm_put_def split: option.split)

lemma table_entryD:
  assumes "lm_inv lm" and "table_entry lm (get_table_index lm lsn) lsn = (lm1, l)"
  shows "lm_inv lm1" and "lm_get lm1 = (lm_get lm)(lsn \<mapsto> l)"
    and "l = (case lm_get lm lsn of Some l \<Rightarrow> l | None \<Rightarrow> Lock_new_thin)"
    and "Lock_inv (same_share_group lm) l" and "same_share_group lm1 = same_share_group lm"
    and "get_table_index lm1 = get_table_index lm"
proof -
  have e: "lm1 = (if lm_get lm lsn = None then charge_lock_entry (lm_put lm lsn Lock_new_thin) else lm)"
    and l: "l = (case lm_get lm lsn of Some l \<Rightarrow> l | None \<Rightarrow> Lock_new_thin)"
    using assms(2) by (auto simp: table_entry_eq split: option.splits)
  show "l = (case lm_get lm lsn of Some l \<Rightarrow> l | None \<Rightarrow> Lock_new_thin)" by (fact l)
  show "lm_inv lm1" using assms(1) lm_inv_insert [OF assms(1)] lk.inv_fresh by (simp add: e)
  show "lm_get lm1 = (lm_get lm)(lsn \<mapsto> l)"
    using assms(1) by (auto simp: e l lm_inv_def lm_get_put)
  show "Lock_inv (same_share_group lm) l"
    using assms(1) by (auto simp: l lm_inv_def lk.inv_fresh dest: tb.all_entriesD split: option.splits)
  show "same_share_group lm1 = same_share_group lm" and "get_table_index lm1 = get_table_index lm"
    by (simp_all add: e)
qed

lemma store_or_drop_eq:
  "store_or_drop lm (get_table_index lm lsn) lsn l =
     (if Lock_n_owners l = 0 \<and> Lock_n_waiters l = 0 then credit_lock_entry (lm_remove lm lsn)
      else lm_put lm lsn l)"
  by (simp add: store_or_drop_def lm_remove_def lm_put_def)

lemma lm_inv_store_or_drop:
  "lm_inv lm \<Longrightarrow> lm_get lm lsn \<noteq> None \<Longrightarrow> Lock_inv (same_share_group lm) l \<Longrightarrow>
     lm_inv (store_or_drop lm (get_table_index lm lsn) lsn l)"
  by (simp add: store_or_drop_eq lm_inv_drop lm_inv_put)

lemma lm_get_store_or_drop:
  "tables_wf lm \<Longrightarrow> lm_get (store_or_drop lm (get_table_index lm lsn) lsn l) =
     (lm_get lm)(lsn := (if Lock_n_owners l = 0 \<and> Lock_n_waiters l = 0 then None else Some l))"
  by (simp add: store_or_drop_eq lm_get_put lm_get_remove)

lemma signal_fields [simp]:
  "lm_get (signal lm r) = lm_get lm" "tables_wf (signal lm r) = tables_wf lm"
  "same_share_group (signal lm r) = same_share_group lm" "get_table_index (signal lm r) = get_table_index lm"
  by (rule lm_get_cong tables_wf_cong same_share_group_cong get_table_index_cong;
      simp add: signal_def split: option.splits)+

lemma lm_inv_entryD: "lm_inv lm \<Longrightarrow> lm_get lm lsn = Some l \<Longrightarrow> Lock_inv (same_share_group lm) l"
  by (auto simp: lm_inv_def dest: tb.all_entriesD)

lemma lm_inv_release_at:
  assumes "lm_inv lm"
  shows "lm_inv (release_at lm (get_table_index lm lsn) lsn lid f)"
proof (cases "lm_get lm lsn")
  case None
  with assms show ?thesis by (simp add: release_at_def table_get_lm)
next
  case (Some l)
  obtain l1 r where r: "Lock_release_with_sharing l lid f = (l1, r)" by fastforce
  have "Lock_inv (same_share_group lm) l1"
    using lk.inv_rel [OF lm_inv_entryD [OF assms Some] symp_same_share_group, of lid f] r by simp
  with Some have "lm_inv (store_or_drop (signal lm r) (get_table_index (signal lm r) lsn) lsn l1)"
    by (intro lm_inv_store_or_drop lm_inv_frame assms) simp_all
  with Some r show ?thesis by (simp add: release_at_def table_get_lm)
qed

lemma lm_inv_release [lock_inv_intros]: "lm_inv lm \<Longrightarrow> lm_inv (LockManager_release lm lsn lid)"
  by (simp add: LockManager_release_def lm_inv_release_at)

lemma lm_inv_validate [lock_inv_intros]:
  assumes "lm_inv lm"
  shows "lm_inv (fst (validate_ownership_or_flush lm (get_table_index lm lsn) lsn lid t))"
proof (cases "lm_get lm lsn")
  case None
  with assms show ?thesis by (simp add: validate_ownership_or_flush_def table_get_lm lock_inv_intros)
next
  case (Some l)
  have "Lock_inv (same_share_group lm) (Lock_flush_waiter l lid)"
    by (rule lk.inv_flushw [OF lm_inv_entryD [OF assms Some]])
  with Some assms show ?thesis
    by (simp add: validate_ownership_or_flush_def table_get_lm lm_inv_frame lm_inv_store_or_drop)
qed

text \<open>The attempt of phase 1, with the entry and the outcome of the record lock named.\<close>

lemma attempt_lock_eq:
  assumes "table_entry lm (get_table_index lm lsn) lsn = (lm1, l)"
    and "Lock_lock_with_sharing l t lid nb j (build_shares_fn lm lid) = (l1, r)"
  shows "attempt_lock lm lsn lid t nb j =
    (let lm2 = table_put lm1 (get_table_index lm lsn) lsn l1;
         lm3 = table_put lm2 (get_table_index lm lsn) lsn (Lock_set_waiter_notify l1 lid (next_notify lm2)) in
     if success r then (lm2, Returned (Ok (lock_grant r)))
     else if lock_grant r = IllegalUpgrade then
       (lm2, Returned (Err (IllegalUpgrade_Err
          (case Lock_get_owned_lock_type l1 lid of Some h \<Rightarrow> h | None \<Rightarrow> None_LT) t)))
     else if lock_grant r = Denied then (lm2, Returned (Err (LockNotAvailable lsn)))
     else (lm3\<lparr>lock_waits := lock_waits lm3 + 1, next_notify := next_notify lm2 + 1\<rparr>,
           MustWait (lock_grant r) (Lock_get_owner_ids l1) (next_notify lm2)))"
  using assms by (simp add: attempt_lock_def Let_def)

lemma lm_inv_attempt:
  assumes "lm_inv lm" and "record_type t"
  shows "lm_inv (fst (attempt_lock lm lsn lid t nb j))"
proof -
  obtain lm1 l where e: "table_entry lm (get_table_index lm lsn) lsn = (lm1, l)" by fastforce
  obtain l1 r where r: "Lock_lock_with_sharing l t lid nb j (build_shares_fn lm lid) = (l1, r)" by fastforce
  note en = table_entryD [OF assms(1) e]
  have i1: "Lock_inv (same_share_group lm) l1"
    using lk.inv_acquire [OF en(4) symp_same_share_group assms(2)] r
    by (metis build_shares_same_group [OF assms(1)] fst_conv)
  have p: "table_put lm1 (get_table_index lm lsn) lsn x = lm_put lm1 lsn x" for x
    by (simp add: lm_put_def en(6))
  have p': "table_put (lm_put lm1 lsn l1) (get_table_index lm lsn) lsn x = lm_put (lm_put lm1 lsn l1) lsn x" for x
    by (simp add: lm_put_def en(6))
  have i2: "lm_inv (lm_put lm1 lsn l1)"
    by (rule lm_inv_put) (simp_all add: en i1)
  have "lm_inv (lm_put (lm_put lm1 lsn l1) lsn (Lock_set_waiter_notify l1 lid n))" for n
    by (rule lm_inv_put [OF i2]) (use en i1 in \<open>simp_all add: lm_get_put lm_inv_def lk.inv_notif\<close>)
  with i2 show ?thesis
    unfolding attempt_lock_eq [OF e r] p p' Let_def by (simp add: lm_inv_frame)
qed

lemma lm_inv_phase1 [lock_inv_intros]:
  assumes "lm_inv lm"
  shows "lm_inv (fst (lock_phase1 lm lsn lid t nb j))"
  using assms by (simp add: lock_phase1_def lm_inv_attempt lm_inv_frame record_type_def)

lemma lm_inv_wait_done [lock_inv_intros]: "lm_inv lm \<Longrightarrow> lm_inv (fst (wait_done lm w))"
  by (simp add: wait_done_def lm_inv_frame)

lemma lm_inv_wait_exit [lock_inv_intros]:
  assumes "lm_inv lm"
  shows "lm_inv (fst (wait_exit lm w b e))"
  using lm_inv_validate [OF assms, of "w_lsn w" "w_locker w" "w_type w"]
  by (auto simp: wait_exit_def lm_inv_wait_done lm_inv_frame split: prod.splits bool.splits)

lemma lm_inv_waiting [lock_inv_intros]:
  assumes "lm_inv lm"
  shows "lm_inv (fst (lock_begin_wait lm w))" and "lm_inv (fst (wait_top lm w seen e))"
    and "lm_inv (fst (wait_wake lm w seen seen' timed_out e))"
  using assms
  by (auto simp: lock_begin_wait_def wait_top_def wait_wake_def Let_def lm_inv_wait_exit lm_inv_wait_done
      lm_inv_frame split: option.splits)

lemma lm_inv_demote [lock_inv_intros]:
  assumes "lm_inv lm"
  shows "lm_inv (LockManager_demote lm lsn lid)"
  using assms lm_inv_put [OF assms, of lsn]
  by (auto simp: LockManager_demote_def table_get_lm lk.inv_dem symp_same_share_group
      dest: lm_inv_entryD simp flip: lm_put_def split: option.splits)

lemma lm_inv_steal [lock_inv_intros]:
  assumes "lm_inv lm"
  shows "lm_inv (LockManager_steal_lock lm lsn lid)"
proof -
  obtain lm1 l where e: "table_entry lm (get_table_index lm lsn) lsn = (lm1, l)" by fastforce
  obtain l1 vs where r: "Lock_steal_lock_preemptable l lid (\<lambda>_. True) = (l1, vs)" by fastforce
  note en = table_entryD [OF assms(1) e]
  have "Lock_inv (same_share_group lm1) l1"
    using lk.inv_steal [OF en(4), of lid "\<lambda>_. True"] r by (simp add: en(5))
  then have "lm_inv (lm_put lm1 lsn l1)" by (intro lm_inv_put) (simp_all add: en)
  with e r en(6) show ?thesis
    by (simp add: LockManager_steal_lock_def lm_put_def lm_inv_frame)
qed

lemma lm_inv_steal_in_wait [lock_inv_intros]:
  assumes "lm_inv lm" and "record_type t"
  shows "lm_inv (fst (steal_lock_in_wait lm lsn lid t))"
proof -
  obtain lm1 l where e: "table_entry lm (get_table_index lm lsn) lsn = (lm1, l)" by fastforce
  obtain l2 vs where v: "Lock_steal_lock_preemptable (Lock_flush_waiter l lid) lid (preemptable_fn lm) = (l2, vs)"
    by fastforce
  obtain l3 r where r: "Lock_lock_with_sharing l2 t lid True False (build_shares_fn lm lid) = (l3, r)"
    by fastforce
  note en = table_entryD [OF assms(1) e]
  have "Lock_inv (same_share_group lm) l2"
    using lk.inv_steal [OF lk.inv_flushw [OF en(4)], of lid lid "preemptable_fn lm"] v by simp
  then have "Lock_inv (same_share_group lm1) l3"
    using lk.inv_acquire [OF _ symp_same_share_group assms(2), of lm l2 lid True False] r
    by (simp add: en(5) build_shares_same_group [OF assms(1)])
  then have "lm_inv (lm_put lm1 lsn l3)" by (intro lm_inv_put) (simp_all add: en)
  with e v r en(6) show ?thesis
    by (simp add: steal_lock_in_wait_def lm_put_def lm_inv_frame)
qed

section \<open>Releasing everything a locker owns\<close>

text \<open>What a release makes of an entry.\<close>

definition release_entry :: "int \<Rightarrow> (int \<Rightarrow> bool) \<Rightarrow> Lock option \<Rightarrow> Lock option" where
  "release_entry lid f e =
     (case e of
        None \<Rightarrow> None
      | Some l \<Rightarrow>
          (let l1 = fst (Lock_release_with_sharing l lid f) in
           if Lock_n_owners l1 = 0 \<and> Lock_n_waiters l1 = 0 then None else Some l1))"

lemma lm_get_release_at:
  assumes "tables_wf lm"
  shows "lm_get (release_at lm (get_table_index lm lsn) lsn lid f) =
    (lm_get lm)(lsn := release_entry lid f (lm_get lm lsn))"
proof (cases "lm_get lm lsn")
  case None
  then show ?thesis by (auto simp: release_at_def table_get_lm release_entry_def)
next
  case (Some l)
  then show ?thesis
    using lm_get_store_or_drop [of "signal lm _" lsn] assms
    by (simp add: release_at_def table_get_lm release_entry_def Let_def split: prod.split)
qed

lemma store_or_drop_fields:
  "n_lock_tables (store_or_drop lm i k l) = n_lock_tables lm"
  "share_registry (store_or_drop lm i k l) = share_registry lm"
  "i \<noteq> j \<Longrightarrow> lock_tables (store_or_drop lm i k l) ! j = lock_tables lm ! j"
  by (simp_all add: store_or_drop_def credit_lock_entry_def table_remove_def table_put_def)

lemma release_at_fields:
  shows "n_lock_tables (release_at lm i lsn lid f) = n_lock_tables lm"
    and "share_registry (release_at lm i lsn lid f) = share_registry lm"
    and "i \<noteq> j \<Longrightarrow> lock_tables (release_at lm i lsn lid f) ! j = lock_tables lm ! j"
  by (auto simp: release_at_def store_or_drop_fields signal_def split: option.splits prod.splits)

lemma release_at_index [simp]: "get_table_index (release_at lm i lsn lid f) = get_table_index lm"
  by (rule get_table_index_cong) (rule release_at_fields)

lemma release_lsns_spec:
  assumes "lm_inv lm" and "distinct lsns" and "\<forall>k \<in> set lsns. get_table_index lm k = i \<and> lm_get lm k \<noteq> None"
    and "release_lsns lm i lid f lsns n = (lm', n')"
  shows "lm_inv lm' \<and> n' = n + length lsns \<and> n_lock_tables lm' = n_lock_tables lm \<and>
    share_registry lm' = share_registry lm \<and>
    lm_get lm' = (\<lambda>k. if k \<in> set lsns then release_entry lid f (lm_get lm k) else lm_get lm k) \<and>
    (\<forall>j. i \<noteq> j \<longrightarrow> lock_tables lm' ! j = lock_tables lm ! j)"
  using assms
proof (induction lsns arbitrary: lm n)
  case (Cons a lsns)
  let ?lm = "release_at lm i a lid f"
  have i: "i = get_table_index lm a" and ne: "lm_get lm a \<noteq> None" using Cons.prems(3) by auto
  have g: "lm_get ?lm = (lm_get lm)(a := release_entry lid f (lm_get lm a))"
    using lm_get_release_at Cons.prems(1) by (simp add: i lm_inv_def)
  have "release_lsns ?lm i lid f lsns (n + 1) = (lm', n')"
    using Cons.prems(4) ne i by (simp add: table_get_lm)
  moreover have "lm_inv ?lm" using Cons.prems(1) lm_inv_release_at i by simp
  moreover have "\<forall>k \<in> set lsns. get_table_index ?lm k = i \<and> lm_get ?lm k \<noteq> None"
    using Cons.prems(2,3) g by auto
  ultimately show ?case
    using Cons.IH [of ?lm "n + 1"] Cons.prems(2) g by (auto simp: release_at_fields)
qed simp

lemma in_owned_lsns:
  assumes "tables_wf lm" and "i < length (lock_tables lm)"
  shows "k \<in> set (owned_lsns lm i lid) \<longleftrightarrow>
    get_table_index lm k = i \<and> LockManager_get_owned_lock_type lm k lid \<noteq> None"
proof -
  have d: "distinct (map fst (lock_tables lm ! i))"
    and x: "\<And>a. a \<in> fst ` set (lock_tables lm ! i) \<Longrightarrow> get_table_index lm a = i"
    using assms by (auto simp: tables_wf_def)
  have "k \<in> set (owned_lsns lm i lid) \<longleftrightarrow>
      (\<exists>l. map_of (lock_tables lm ! i) k = Some l \<and> Lock_get_owned_lock_type l lid \<noteq> None)"
    using map_of_eq_Some_iff [OF d] by (force simp: owned_lsns_def)
  also have "\<dots> \<longleftrightarrow> get_table_index lm k = i \<and> LockManager_get_owned_lock_type lm k lid \<noteq> None"
    using x [of k] map_of_shard [of lm k i]
    by (force simp: LockManager_get_owned_lock_type_def split: option.splits dest: map_of_SomeD)
  finally show ?thesis .
qed

lemma distinct_owned_lsns: "tables_wf lm \<Longrightarrow> i < length (lock_tables lm) \<Longrightarrow> distinct (owned_lsns lm i lid)"
  by (simp add: owned_lsns_def tables_wf_def distinct_map_filter)

lemma release_shards_spec:
  assumes "lm_inv lm" and "distinct is" and "\<forall>i \<in> set is. i < length (lock_tables lm)"
    and "release_shards lm lid f is n = (lm', n')"
  shows "lm_inv lm' \<and> n' = n + (\<Sum>i\<leftarrow>is. length (owned_lsns lm i lid)) \<and>
    lm_get lm' = (\<lambda>k. if get_table_index lm k \<in> set is \<and> LockManager_get_owned_lock_type lm k lid \<noteq> None
                      then release_entry lid f (lm_get lm k) else lm_get lm k)"
  using assms
proof (induction "is" arbitrary: lm n)
  case (Cons i "is")
  have wf: "tables_wf lm" using Cons.prems(1) by (simp add: lm_inv_def)
  have i: "i < length (lock_tables lm)" and ni: "i \<notin> set is" using Cons.prems(2,3) by auto
  obtain lm1 n1 where r: "release_lsns lm i lid f (owned_lsns lm i lid) n = (lm1, n1)" by fastforce
  have "\<forall>k \<in> set (owned_lsns lm i lid). get_table_index lm k = i \<and> lm_get lm k \<noteq> None"
    by (auto simp: in_owned_lsns [OF wf i] LockManager_get_owned_lock_type_def split: option.splits)
  note s = release_lsns_spec [OF Cons.prems(1) distinct_owned_lsns [OF wf i] this r]
  have idx: "get_table_index lm1 = get_table_index lm" using s by (intro get_table_index_cong) blast
  have len: "length (lock_tables lm1) = length (lock_tables lm)"
    using s wf by (simp add: lm_inv_def tables_wf_def)
  have other: "owned_lsns lm1 j lid = owned_lsns lm j lid" if "j \<in> set is" for j
    using s that ni by (auto simp: owned_lsns_def)
  have own: "LockManager_get_owned_lock_type lm1 k lid = LockManager_get_owned_lock_type lm k lid"
    if "get_table_index lm k \<in> set is" for k
    using s that ni in_owned_lsns [OF wf i, of k lid] by (auto simp: LockManager_get_owned_lock_type_def)
  have "release_shards lm1 lid f is n1 = (lm', n')" using Cons.prems(4) r by simp
  with Cons.IH [of lm1 n1] s Cons.prems(2,3) len
  have ih: "lm_inv lm'" "n' = n1 + (\<Sum>i\<leftarrow>is. length (owned_lsns lm1 i lid))"
    "lm_get lm' = (\<lambda>k. if get_table_index lm1 k \<in> set is \<and> LockManager_get_owned_lock_type lm1 k lid \<noteq> None
                      then release_entry lid f (lm_get lm1 k) else lm_get lm1 k)" by auto
  have sum: "(\<Sum>i\<leftarrow>is. length (owned_lsns lm1 i lid)) = (\<Sum>i\<leftarrow>is. length (owned_lsns lm i lid))"
    by (intro arg_cong [of _ _ sum_list] map_cong) (simp_all add: other)
  have "lm_get lm' k = (if get_table_index lm k \<in> set (i # is) \<and> LockManager_get_owned_lock_type lm k lid \<noteq> None
      then release_entry lid f (lm_get lm k) else lm_get lm k)" for k
    using s ni own [of k] in_owned_lsns [OF wf i, of k lid] unfolding ih(3) idx by auto
  with ih(1,2) s sum show ?case by auto
qed simp

lemma lm_inv_release_all [lock_inv_intros]:
  assumes "lm_inv lm"
  shows "lm_inv (fst (release_all_for_locker lm lid))"
proof -
  obtain lm1 n where r: "release_shards lm lid (build_shares_fn lm lid) [0..<length (lock_tables lm)] 0 = (lm1, n)"
    by fastforce
  with release_shards_spec [OF assms _ _ r] show ?thesis
    by (simp add: release_all_for_locker_def lm_inv_frame)
qed

section \<open>Reachable managers\<close>

text \<open>
  A locker joins or leaves a sharing group while it owns no lock: lockers register when they
  are created, before they take a lock.
\<close>

definition owns_nothing :: "LockManager \<Rightarrow> int \<Rightarrow> bool" where
  "owns_nothing lm lid \<longleftrightarrow> (\<forall>lsn. LockManager_get_owned_lock_type lm lsn lid = None)"

lemma Lock_owned_type_None:
  "Lock_get_owned_lock_type l lid = None \<longleftrightarrow> lid \<notin> set (Lock_get_owner_ids l)"
  by (cases l)
     (auto simp: Lock_get_owner_ids_def get_owned_lock_type_def get_owner_lock_info_find find_None_iff
       thin_get_owned_lock_type_def split: option.splits)

lemma Lock_inv_regroup:
  assumes "Lock_inv sh l" and "lid \<notin> set (Lock_get_owner_ids l)"
    and "\<And>a b. a \<noteq> lid \<Longrightarrow> b \<noteq> lid \<Longrightarrow> sh' a b = sh a b"
  shows "Lock_inv sh' l"
proof -
  have "locker_id a \<noteq> lid" if "a \<in> set (Lock_get_owners_clone l)" for a
    using that assms(2) by (auto simp: Lock_get_owner_ids_def)
  with assms(1,3) show ?thesis by (simp add: Lock_inv_def lock_inv_def owners_compatible_def)
qed

lemma lm_inv_regroup:
  assumes "lm_inv lm" and "owns_nothing lm lid"
    and "lm' = lm\<lparr>share_registry := reg, share_registry_nonempty := reg \<noteq> []\<rparr>"
    and "\<And>a. a \<noteq> lid \<Longrightarrow> map_of reg a = map_of (share_registry lm) a"
  shows "lm_inv lm'"
proof -
  have g: "lm_get lm' = lm_get lm" and wf: "tables_wf lm' = tables_wf lm"
    by (rule lm_get_cong tables_wf_cong; simp add: assms(3))+
  have "Lock_inv (same_share_group lm') l" if "lm_get lm k = Some l" for k l
  proof (rule Lock_inv_regroup [OF lm_inv_entryD [OF assms(1) that]])
    show "lid \<notin> set (Lock_get_owner_ids l)"
      using assms(2) that unfolding owns_nothing_def LockManager_get_owned_lock_type_def
      by (metis Lock_owned_type_None option.simps(5))
    show "same_share_group lm' a b = same_share_group lm a b" if "a \<noteq> lid" "b \<noteq> lid" for a b
      using that assms(4) by (simp add: same_share_group_def assms(3))
  qed
  with assms(1) g wf show ?thesis
    by (simp add: lm_inv_def tb.all_entries_def assms(3) n_total_locks_def)
qed

lemma lm_inv_sharing [lock_inv_intros]:
  assumes "lm_inv lm" and "owns_nothing lm lid"
  shows "lm_inv (register_locker_sharing lm lid g)" and "lm_inv (unregister_locker_sharing lm lid)"
proof -
  have "AList.update lid g (share_registry lm) \<noteq> []" by (cases "share_registry lm") auto
  then show "lm_inv (register_locker_sharing lm lid g)"
    by (intro lm_inv_regroup [OF assms, where reg = "AList.update lid g (share_registry lm)"])
       (auto simp: register_locker_sharing_def AList.update_conv')
  show "lm_inv (unregister_locker_sharing lm lid)"
    by (intro lm_inv_regroup [OF assms, where reg = "AList.delete lid (share_registry lm)"])
       (auto simp: unregister_locker_sharing_def Let_def AList.delete_conv')
qed

inductive lm_step :: "LockManager \<Rightarrow> LockManager \<Rightarrow> bool" where
  attempt: "lm_step lm (fst (lock_phase1 lm lsn lid t nb j))"
| begin_wait: "lm_step lm (fst (lock_begin_wait lm w))"
| top: "lm_step lm (fst (wait_top lm w seen elapsed))"
| wake: "lm_step lm (fst (wait_wake lm w seen seen_again timed_out elapsed))"
| steal_in_wait: "record_type t \<Longrightarrow> lm_step lm (fst (steal_lock_in_wait lm lsn lid t))"
| release: "lm_step lm (LockManager_release lm lsn lid)"
| release_all: "lm_step lm (fst (release_all_for_locker lm lid))"
| demote: "lm_step lm (LockManager_demote lm lsn lid)"
| steal: "lm_step lm (LockManager_steal_lock lm lsn lid)"
| clear_preempted: "lm_step lm (clear_preempted lm lid)"
| sharing: "owns_nothing lm lid \<Longrightarrow> lm_step lm (register_locker_sharing lm lid g)"
| unsharing: "owns_nothing lm lid \<Longrightarrow> lm_step lm (unregister_locker_sharing lm lid)"
| non_preemptable: "lm_step lm (register_non_preemptable lm lid)"
| preemptable: "lm_step lm (unregister_non_preemptable lm lid)"
| label: "lm_step lm (register_locker_label lm lid lb)"
| unlabel: "lm_step lm (unregister_locker_label lm lid)"
| lock_timeout: "lm_step lm (set_lock_timeout lm ms)"
| txn_timeout: "lm_step lm (set_default_txn_timeout lm ms)"

lemma lm_step_inv: "lm_step lm lm' \<Longrightarrow> lm_inv lm \<Longrightarrow> lm_inv lm'"
  by (induction rule: lm_step.induct) (simp_all add: lock_inv_intros)

lemma lm_reach_inv: "lm_step\<^sup>*\<^sup>* (LockManager_with_config t n) lm \<Longrightarrow> lm_inv lm"
  by (induction rule: rtranclp_induct) (simp_all add: lm_inv_with_config lm_step_inv)

end
