(* ===== verification/Lock_Manager_Props.thy ===== *)
theory Lock_Manager_Props
  imports Lock_Manager
begin

text \<open>
  The properties of the lock manager: what holds of every reachable manager, how a wait ends,
  what the deadlock check finds and misses, and what the operations over the whole table and
  the thefts for replication replay do.
\<close>

section \<open>Reachable managers\<close>

text \<open>
  C13. Mutual exclusion in the lock table.  In a manager reached by any interleaving of
  requests, waits, releases, demotions, thefts and registrations, two owners of a position
  that do not share locks hold types the conflict matrix allows together; a write lock
  tolerates nothing but a range-insert lock.
\<close>

theorem lock_table_mutual_exclusion:
  assumes "lm_step\<^sup>*\<^sup>* (LockManager_with_config ms n) lm" and "lm_get lm lsn = Some l"
    and "a \<in> set (Lock_get_owners_clone l)" and "b \<in> set (Lock_get_owners_clone l)"
    and "locker_id a \<noteq> locker_id b" and "\<not> same_share_group lm (locker_id a) (locker_id b)"
  shows "get_conflict (lock_type a) (lock_type b) = Allow \<and>
    (is_write_lock (lock_type a) \<longrightarrow> lock_type a = Write \<and> lock_type b = RangeInsert)"
proof -
  note inv = lm_inv_entryD [OF lm_reach_inv [OF assms(1)] assms(2)]
  show ?thesis
    using owners_compatible_pairD [OF lk.inv_owners [OF inv] assms(3-5)] assms(6)
      lk.write_excludes [OF inv assms(3-6)] by blast
qed

lemmas manager_eval =
  LockManager_with_config_def lock_phase1_def attempt_lock_def table_entry_def table_get_def
  table_put_def table_remove_def store_or_drop_def charge_lock_entry_def credit_lock_entry_def
  LOCK_ENTRY_MEMORY_def get_table_index_def build_shares_fn_def lm_get_def release_at_def
  LockManager_release_def signal_def Let_def

theorem lock_table_mutual_exclusion_witness:
  "let lm0 = LockManager_with_config 500 1;
       lm1 = fst (lock_phase1 lm0 4096 1 Write False False);
       lm2 = fst (lock_phase1 lm1 4096 2 RangeInsert False False);
       a = LockInfo_new 1 Write; b = LockInfo_new 2 RangeInsert
   in (\<exists>l. lm_get lm2 4096 = Some l \<and> set (Lock_get_owners_clone l) = {a, b}) \<and>
      get_conflict (lock_type a) (lock_type b) = Allow"
proof -
  define lm0 where "lm0 = LockManager_with_config 500 1"
  define lm1 where "lm1 = fst (lock_phase1 lm0 4096 1 Write False False)"
  define lm2 where "lm2 = fst (lock_phase1 lm1 4096 2 RangeInsert False False)"
  have s: "lm_step\<^sup>*\<^sup>* lm0 lm2"
    unfolding lm1_def lm2_def by (meson attempt rtranclp.rtrancl_into_rtrancl rtranclp.rtrancl_refl)
  have "\<exists>l. lm_get lm2 4096 = Some l \<and> set (Lock_get_owners_clone l) = {LockInfo_new 1 Write, LockInfo_new 2 RangeInsert}"
    unfolding lm2_def lm1_def lm0_def by (simp add: manager_eval lock_eval)
  then obtain l where l: "lm_get lm2 4096 = Some l"
    "set (Lock_get_owners_clone l) = {LockInfo_new 1 Write, LockInfo_new 2 RangeInsert}" by blast
  have g: "\<not> same_share_group lm2 1 2"
    unfolding lm2_def lm1_def lm0_def by (simp add: manager_eval lock_eval same_share_group_def)
  show ?thesis
    using lock_table_mutual_exclusion [OF s [unfolded lm0_def] l(1), of "LockInfo_new 1 Write" "LockInfo_new 2 RangeInsert"]
      l g unfolding Let_def lm0_def [symmetric] lm1_def [symmetric] lm2_def [symmetric] by auto
qed

lemma entries_shards:
  assumes "tables_wf lm"
  shows "{lsn. lm_get lm lsn \<noteq> None} = (\<Union>i < length (lock_tables lm). fst ` set (lock_tables lm ! i))"
proof (intro set_eqI iffI)
  fix lsn
  assume "lsn \<in> {lsn. lm_get lm lsn \<noteq> None}"
  then have "lsn \<in> fst ` set (lock_tables lm ! get_table_index lm lsn)" by (simp add: lm_get_None_iff)
  with table_index_bound [OF assms, of lsn]
  show "lsn \<in> (\<Union>i < length (lock_tables lm). fst ` set (lock_tables lm ! i))" by auto
next
  fix lsn
  assume "lsn \<in> (\<Union>i < length (lock_tables lm). fst ` set (lock_tables lm ! i))"
  then obtain i where i: "i < length (lock_tables lm)" "lsn \<in> fst ` set (lock_tables lm ! i)" by auto
  with assms have "get_table_index lm lsn = i" by (auto simp: tables_wf_def)
  with i(2) have "lm_get lm lsn \<noteq> None" unfolding lm_get_None_iff by simp
  then show "lsn \<in> {lsn. lm_get lm lsn \<noteq> None}" by simp
qed

lemma n_total_locks_card:
  assumes "tables_wf lm"
  shows "n_total_locks lm = card {lsn. lm_get lm lsn \<noteq> None}"
proof -
  let ?t = "lock_tables lm"
  have key: "get_table_index lm k = i" if "i < length ?t" "k \<in> fst ` set (?t ! i)" for i k
    using that assms by (auto simp: tables_wf_def)
  have "card (\<Union>i \<in> {..<length ?t}. fst ` set (?t ! i)) = (\<Sum>i < length ?t. card (fst ` set (?t ! i)))"
  proof (rule card_UN_disjoint)
    show "\<forall>i \<in> {..<length ?t}. \<forall>j \<in> {..<length ?t}. i \<noteq> j \<longrightarrow> fst ` set (?t ! i) \<inter> fst ` set (?t ! j) = {}"
      by (intro ballI impI equals0I) (auto simp del: image_iff dest: key)
  qed simp_all
  also have "\<dots> = (\<Sum>i < length ?t. length (?t ! i))"
    using assms by (intro sum.cong refl) (simp add: tables_wf_def distinct_card flip: set_map)
  also have "\<dots> = n_total_locks lm"
    by (simp add: n_total_locks_def sum_list_sum_nth atLeast0LessThan)
  finally show ?thesis using entries_shards [OF assms] by simp
qed

text \<open>
  C14. Memory accounting.  In every reachable manager the memory counter is 80 bytes for each
  position with an entry, however the entries are spread over the shards; \<open>n_total_locks\<close>
  counts those positions, and the two fast-path flags say whether their registry is empty.
\<close>

theorem lock_memory_accounting:
  assumes "lm_step\<^sup>*\<^sup>* (LockManager_with_config ms n) lm"
  shows "lock_memory_counter lm = 80 * int (card {lsn. lm_get lm lsn \<noteq> None}) \<and>
    n_total_locks lm = card {lsn. lm_get lm lsn \<noteq> None} \<and>
    (share_registry_nonempty lm \<longleftrightarrow> share_registry lm \<noteq> []) \<and>
    (preempted_nonempty lm \<longleftrightarrow> preempted lm \<noteq> {})"
proof -
  have i: "lm_inv lm" using lm_reach_inv [OF assms] .
  then have "n_total_locks lm = card {lsn. lm_get lm lsn \<noteq> None}"
    by (intro n_total_locks_card) (simp add: lm_inv_def)
  with i show ?thesis by (auto simp: lm_inv_def LOCK_ENTRY_MEMORY_def)
qed

theorem lock_memory_accounting_witness:
  "let lm0 = LockManager_with_config 500 1;
       lm1 = fst (lock_phase1 lm0 4096 1 Write False False);
       lm2 = LockManager_release (fst (lock_phase1 lm1 8192 1 Read False False)) 4096 1
   in lock_memory_counter lm2 = 80 \<and> card {lsn. lm_get lm2 lsn \<noteq> None} = 1"
proof -
  define lm0 where "lm0 = LockManager_with_config 500 1"
  define lm1 where "lm1 = fst (lock_phase1 lm0 4096 1 Write False False)"
  define lm2 where "lm2 = LockManager_release (fst (lock_phase1 lm1 8192 1 Read False False)) 4096 1"
  have s: "lm_step\<^sup>*\<^sup>* lm0 lm2"
    unfolding lm1_def lm2_def by (meson attempt release rtranclp.rtrancl_into_rtrancl rtranclp.rtrancl_refl)
  have "n_total_locks lm2 = 1"
    unfolding lm2_def lm1_def lm0_def
    by (simp add: manager_eval lock_eval n_total_locks_def thin_n_owners_def)
  with lock_memory_accounting [OF s [unfolded lm0_def]] show ?thesis
    unfolding Let_def lm0_def [symmetric] lm1_def [symmetric] lm2_def [symmetric] by simp
qed

section \<open>How a wait ends\<close>

definition owners_of :: "LockManager \<Rightarrow> u64 \<Rightarrow> LockInfo list" where
  "owners_of lm lsn = (case lm_get lm lsn of None \<Rightarrow> [] | Some l \<Rightarrow> Lock_get_owners_clone l)"

definition queue_of :: "LockManager \<Rightarrow> u64 \<Rightarrow> LockInfo list" where
  "queue_of lm lsn = (case lm_get lm lsn of None \<Rightarrow> [] | Some l \<Rightarrow> Lock_get_waiters_clone l)"

definition owns :: "LockManager \<Rightarrow> u64 \<Rightarrow> int \<Rightarrow> LockType \<Rightarrow> bool" where
  "owns lm lsn lid t \<longleftrightarrow> (\<exists>l. lm_get lm lsn = Some l \<and> Lock_is_owner l lid t)"

lemma Lock_lengths:
  shows "Lock_n_owners l = length (Lock_get_owners_clone l)"
    and "Lock_n_waiters l = length (Lock_get_waiters_clone l)"
proof -
  show "Lock_n_owners l = length (Lock_get_owners_clone l)"
    by (cases l) (auto simp: n_owners_length thin_n_owners_def)
  show "Lock_n_waiters l = length (Lock_get_waiters_clone l)"
    by (cases l) (simp_all add: n_waiters_length)
qed

lemma waiters_flush_waiter:
  assumes "distinct (map locker_id (get_waiters_clone l))"
  shows "get_waiters_clone (flush_waiter l lid) = filter (\<lambda>i. locker_id i \<noteq> lid) (get_waiters_clone l)"
proof (cases "first_waiter l")
  case (Some w)
  with assms show ?thesis
    by (auto simp: get_waiters_clone_def flush_waiter_def Let_def image_iff intro!: filter_True [symmetric])
qed (simp add: get_waiters_clone_def flush_waiter_def Let_def)

lemma Lock_waiters_flush_waiter:
  assumes "distinct (map locker_id (Lock_get_waiters_clone l))"
  shows "Lock_get_waiters_clone (Lock_flush_waiter l lid) =
    filter (\<lambda>i. locker_id i \<noteq> lid) (Lock_get_waiters_clone l)"
  using assms by (cases l) (simp_all add: waiters_flush_waiter)

lemma Lock_owners_flush_waiter: "Lock_get_owners_clone (Lock_flush_waiter l lid) = Lock_get_owners_clone l"
  by (cases l) (simp_all add: owners_waiter_ops)

lemma Lock_is_owner_find:
  "Lock_is_owner l lid t \<longleftrightarrow>
     (case List.find (\<lambda>x. locker_id x = lid) (Lock_get_owners_clone l) of None \<Rightarrow> False | Some i \<Rightarrow> lock_type i = t)"
  by (cases l)
     (auto simp: is_owner_def get_owner_lock_info_find thin_is_owner_def split: option.splits)

lemma clear_wait_fields [simp]:
  "lm_get (clear_wait lm lid) = lm_get lm" "get_table_index (clear_wait lm lid) = get_table_index lm"
  by (rule lm_get_cong get_table_index_cong; simp add: clear_wait_def)+

lemma clear_wait_edge [simp]: "map_of (waiter_graph (clear_wait lm lid)) lid = None"
  by (simp add: clear_wait_def AList.delete_conv')

lemma lm_get_validate:
  assumes "lm_inv lm" and "validate_ownership_or_flush lm (get_table_index lm lsn) lsn lid t = (lm', b)"
  shows "b = owns lm lsn lid t" and "map_of (waiter_graph lm') lid = None"
    and "k \<noteq> lsn \<Longrightarrow> lm_get lm' k = lm_get lm k" and "b \<Longrightarrow> lm_get lm' = lm_get lm"
    and "owners_of lm' lsn = owners_of lm lsn"
    and "\<not> b \<Longrightarrow> distinct (map locker_id (queue_of lm lsn)) \<Longrightarrow>
      queue_of lm' lsn = filter (\<lambda>i. locker_id i \<noteq> lid) (queue_of lm lsn)"
proof -
  have wf: "tables_wf lm" using assms(1) by (simp add: lm_inv_def)
  note d = assms(2) [unfolded validate_ownership_or_flush_def table_get_lm]
  show "b = owns lm lsn lid t" using d by (auto simp: owns_def split: option.splits if_splits)
  show "map_of (waiter_graph lm') lid = None"
    using d by (auto simp: clear_wait_def AList.delete_conv' split: option.splits if_splits)
  show "k \<noteq> lsn \<Longrightarrow> lm_get lm' k = lm_get lm k" and "b \<Longrightarrow> lm_get lm' = lm_get lm"
    using d by (auto simp: lm_get_store_or_drop [OF wf] split: option.splits if_splits)
  show "owners_of lm' lsn = owners_of lm lsn"
    using d by (auto simp: owners_of_def lm_get_store_or_drop [OF wf] Lock_owners_flush_waiter Lock_lengths
        split: option.splits if_splits)
  show "queue_of lm' lsn = filter (\<lambda>i. locker_id i \<noteq> lid) (queue_of lm lsn)"
    if "\<not> b" "distinct (map locker_id (queue_of lm lsn))"
    using d that by (auto simp: queue_of_def lm_get_store_or_drop [OF wf] Lock_lengths
        Lock_waiters_flush_waiter split: option.splits if_splits)
qed

text \<open>
  A critical section of a waiting request that ends the wait without having seen its notify
  flag: by a timeout or as a deadlock victim.
\<close>

definition gives_up ::
  "LockManager \<Rightarrow> Waiter \<Rightarrow> LockManager \<Rightarrow> (TxnError, LockGrantType) result \<Rightarrow> bool" where
  "gives_up lm w lm' res \<longleftrightarrow>
     lock_begin_wait lm w = (lm', Some (Finished res)) \<or>
     (\<exists>elapsed. wait_top lm w False elapsed = (lm', Finished res)) \<or>
     (\<exists>timed_out elapsed. wait_wake lm w False False timed_out elapsed = (lm', Some (Finished res)))"

lemma apsnd_Some_eq: "apsnd Some x = (a, Some b) \<longleftrightarrow> x = (a, b)"
  by (cases x) auto

lemma gives_up_exit:
  assumes "lm_inv lm" and "gives_up lm w lm' res"
  obtains lm0 b e where "lm_inv lm0" "lm_get lm0 = lm_get lm" "get_table_index lm0 = get_table_index lm"
    "wait_exit lm0 w b e = (lm', Finished res)"
proof -
  have r: "lm_get (record_wait lm i os) = lm_get lm" "get_table_index (record_wait lm i os) = get_table_index lm" for i os
    by (rule lm_get_cong get_table_index_cong; simp add: record_wait_def)+
  from assms(2) consider (a) b e where "wait_exit lm w b e = (lm', Finished res)"
    | (b) b e i os where "wait_exit (record_wait lm i os) w b e = (lm', Finished res)"
    unfolding gives_up_def lock_begin_wait_def wait_top_def wait_wake_def Let_def
    by (auto simp: apsnd_Some_eq split: option.splits if_splits)
  then show thesis
  proof cases
    case a
    with that assms(1) show ?thesis by blast
  next
    case b
    with that [of "record_wait lm _ _"] assms(1) r lm_inv_frame(2) [OF assms(1)] show ?thesis by blast
  qed
qed


lemmas wait_eval =
  lock_begin_wait_def wait_top_def wait_wake_def wait_exit_def wait_done_def txn_expired_def
  validate_ownership_or_flush_def record_wait_def clear_wait_def check_deadlock_for_waiter_def
  compute_lock_counts_def held_def select_victim_def victim_before_def lock_timeout_error_def
  txn_timeout_error_def is_owner_def get_owner_lock_info_def is_illegal_def dfs_def dfs_loop_Cons



lemma wait_exit_finished: "\<exists>res. snd (wait_exit lm w b e) = Finished res"
  by (simp add: wait_exit_def wait_done_def split: prod.split bool.split)

lemma wait_top_Sleeping:
  assumes "wait_top lm w seen elapsed = (lm', Sleeping ms)"
  shows "lm' = lm \<and> ms = slice_ms w elapsed \<and> \<not> txn_expired w elapsed \<and>
    (w_timeout w \<noteq> 0 \<longrightarrow> elapsed < w_timeout w)"
proof -
  have "wait_exit lm w b e \<noteq> (lm', Sleeping ms)" for b e
    using wait_exit_finished [of lm w b e] by auto
  with assms show ?thesis by (auto simp: wait_top_def wait_done_def split: if_splits)
qed

lemma slice_bounds:
  assumes "\<not> txn_expired w elapsed" and "w_timeout w \<noteq> 0 \<longrightarrow> elapsed < w_timeout w"
  shows "1 \<le> slice_ms w elapsed \<and> slice_ms w elapsed \<le> 50 \<and>
    (w_timeout w \<noteq> 0 \<longrightarrow> elapsed + slice_ms w elapsed \<le> w_timeout w) \<and>
    (\<forall>b. w_txn_remaining w = Some b \<longrightarrow> elapsed + slice_ms w elapsed \<le> b)"
proof (cases "w_timeout w - elapsed")
  case 0
  with assms show ?thesis
    by (cases "w_txn_remaining w") (auto simp: slice_ms_def txn_expired_def)
next
  case (Suc a)
  with assms show ?thesis
    by (cases "w_txn_remaining w") (auto simp: slice_ms_def txn_expired_def Let_def)
qed

text \<open>
  C17. A waiter never oversleeps.  Every slice is at least 1 and at most 50 milliseconds and
  ends no later than the lock timeout and the deadline of the transaction.  A request with a
  timeout of \<open>d\<close> milliseconds goes to sleep fewer than \<open>d\<close> times after its first sleep, as long
  as the clock advances between two iterations.
\<close>

theorem wait_is_bounded:
  assumes "\<And>k. k \<le> n \<Longrightarrow> wait_top (lm k) w (seen k) (elapsed k) = (lm' k, Sleeping (ms k))"
    and "\<And>k. k < n \<Longrightarrow> elapsed k < elapsed (Suc k)"
  shows "(\<forall>k \<le> n. lm' k = lm k \<and> 1 \<le> ms k \<and> ms k \<le> 50 \<and>
      (w_timeout w \<noteq> 0 \<longrightarrow> elapsed k + ms k \<le> w_timeout w) \<and>
      (\<forall>b. w_txn_remaining w = Some b \<longrightarrow> elapsed k + ms k \<le> b)) \<and>
    (w_timeout w \<noteq> 0 \<longrightarrow> n < w_timeout w) \<and> (\<forall>b. w_txn_remaining w = Some b \<longrightarrow> n < b)"
proof -
  have slice: "lm' k = lm k \<and> 1 \<le> ms k \<and> ms k \<le> 50 \<and>
      (w_timeout w \<noteq> 0 \<longrightarrow> elapsed k + ms k \<le> w_timeout w) \<and>
      (\<forall>b. w_txn_remaining w = Some b \<longrightarrow> elapsed k + ms k \<le> b)" if "k \<le> n" for k
    using slice_bounds [of w "elapsed k"] wait_top_Sleeping [OF assms(1) [OF that]] by simp
  have "k \<le> elapsed k" if "k \<le> n" for k
    using that
  proof (induction k)
    case (Suc k)
    with assms(2) [of k] show ?case by simp
  qed simp
  from this [of n] slice [of n] have "w_timeout w \<noteq> 0 \<longrightarrow> n < w_timeout w"
    and "\<forall>b. w_txn_remaining w = Some b \<longrightarrow> n < b" by fastforce+
  with slice show ?thesis by blast
qed

theorem wait_is_bounded_witness:
  "let lm0 = LockManager_with_config 500 1;
       w = \<lparr>w_lsn = 4096, w_locker = 2, w_type = Read, w_timeout = 60, w_txn_remaining = Some 55,
            w_grant = WaitNew, w_owner_ids = [1], w_notify = 0\<rparr>
   in wait_top lm0 w False 0 = (lm0, Sleeping 50) \<and> wait_top lm0 w False 50 = (lm0, Sleeping 5) \<and>
      50 + 5 \<le> (55::nat) \<and> (1::nat) < 55"
proof -
  let ?lm = "LockManager_with_config 500 1"
  let ?w = "\<lparr>w_lsn = 4096, w_locker = 2, w_type = Read, w_timeout = 60, w_txn_remaining = Some 55,
            w_grant = WaitNew, w_owner_ids = [1], w_notify = 0\<rparr>"
  have w: "wait_top ?lm ?w False 0 = (?lm, Sleeping 50)" "wait_top ?lm ?w False 50 = (?lm, Sleeping 5)"
    by (simp_all add: wait_top_def txn_expired_def slice_ms_def)
  have "k = 0 \<or> k = 1" if "k \<le> 1" for k :: nat using that by auto
  then have "\<And>k. k \<le> 1 \<Longrightarrow> wait_top ?lm ?w False (50 * k) = (?lm, Sleeping (if k = 0 then 50 else 5))"
    using w by force
  from wait_is_bounded [of 1 "\<lambda>_. ?lm" ?w "\<lambda>_. False" "\<lambda>k. 50 * k", OF this]
  have "50 * 1 + (if (1::nat) = 0 then 50 else 5) \<le> (55::nat) \<and> (1::nat) < 55" by fastforce
  with w show ?thesis by (simp add: Let_def)
qed

section \<open>The deadlock check\<close>

lemma in_tables_iff:
  assumes "tables_wf lm"
  shows "(k, l) \<in> set (concat (lock_tables lm)) \<longleftrightarrow> lm_get lm k = Some l"
proof -
  let ?t = "lock_tables lm"
  have d: "distinct (map fst (?t ! i))" if "i < length ?t" for i using assms that by (simp add: tables_wf_def)
  have key: "get_table_index lm k = i" if "i < length ?t" "(k, l) \<in> set (?t ! i)" for i
    using that assms by (force simp: tables_wf_def)
  have "(k, l) \<in> set (concat ?t) \<longleftrightarrow> (\<exists>i < length ?t. (k, l) \<in> set (?t ! i))"
    by (force simp: in_set_conv_nth)
  also have "\<dots> \<longleftrightarrow> (k, l) \<in> set (?t ! get_table_index lm k)"
    using key table_index_bound [OF assms, of k] by blast
  also have "\<dots> \<longleftrightarrow> lm_get lm k = Some l"
    using map_of_eq_Some_iff [OF d [OF table_index_bound [OF assms, of k]]]
    by (simp add: lm_get_def table_get_def)
  finally show ?thesis .
qed

lemma distinct_table_keys:
  assumes "tables_wf lm"
  shows "distinct (map fst (concat (lock_tables lm)))"
proof (rule card_distinct)
  have "set (map fst (concat (lock_tables lm))) = {lsn. lm_get lm lsn \<noteq> None}"
    using in_tables_iff [OF assms] by (force simp del: set_concat)
  then show "card (set (map fst (concat (lock_tables lm)))) = length (map fst (concat (lock_tables lm)))"
    using n_total_locks_card [OF assms] by (simp add: n_total_locks_def length_concat del: set_concat)
qed

text \<open>The number of positions a locker owns.\<close>

definition lock_count :: "LockManager \<Rightarrow> int \<Rightarrow> nat" where
  "lock_count lm i = card {lsn. \<exists>l. lm_get lm lsn = Some l \<and> i \<in> set (Lock_get_owner_ids l)}"

lemma length_filter_concat:
  assumes "\<forall>x \<in> set xs. distinct (g x)"
  shows "length (filter (\<lambda>z. z = y) (concat (map g xs))) = length (filter (\<lambda>x. y \<in> set (g x)) xs)"
  using assms
proof (induction xs)
  case (Cons a xs)
  have "{z. z = y} \<inter> set (g a) = (if y \<in> set (g a) then {y} else {})" by auto
  with Cons show ?case by (simp add: distinct_length_filter)
qed simp

lemma compute_lock_counts_count:
  assumes "lm_inv lm" and "y \<in> set c"
  shows "held (compute_lock_counts lm c) y = lock_count lm y"
proof -
  let ?ts = "concat (lock_tables lm)" and ?P = "\<lambda>(_, l). y \<in> set (Lock_get_owner_ids l)"
  have wf: "tables_wf lm" using assms(1) by (simp add: lm_inv_def)
  have "distinct (Lock_get_owner_ids l)" if "(k, l) \<in> set ?ts" for k l
    using lk.inv_owners [OF lm_inv_entryD [OF assms(1)]] that
    by (simp add: in_tables_iff [OF wf] Lock_get_owner_ids_def owners_compatible_def del: set_concat)
  then have "held (compute_lock_counts lm c) y = length (filter ?P ?ts)"
    using assms(2) length_filter_concat [of ?ts "\<lambda>(_, l). Lock_get_owner_ids l" y]
    by (simp add: held_def compute_lock_counts_def case_prod_unfold del: set_concat) (metis prod.collapse)
  also have "\<dots> = card (fst ` set (filter ?P ?ts))"
    using distinct_card [of "map fst (filter ?P ?ts)"] distinct_map_filter [OF distinct_table_keys [OF wf]]
    by simp
  also have "fst ` set (filter ?P ?ts) = {lsn. \<exists>l. lm_get lm lsn = Some l \<and> y \<in> set (Lock_get_owner_ids l)}"
    using in_tables_iff [OF wf] by (force simp del: set_concat)
  finally show ?thesis by (simp add: lock_count_def)
qed

text \<open>The waits-for graph a check sees: the recorded edges, and that of the caller.\<close>

definition wait_graph :: "LockManager \<Rightarrow> int \<Rightarrow> int list \<Rightarrow> graph" where
  "wait_graph lm lid owner_ids =
     (if map_of (waiter_graph lm) lid = None then (lid, owner_ids) # waiter_graph lm else waiter_graph lm)"

text \<open>
  C18. The deadlock check aborts the right locker, and only for a cycle.  It answers with an
  error exactly when the search finds a cycle of waits through the caller, every member of it
  owns at least one position, and the caller is the one that owns the fewest, with the highest
  identifier among those.  No error means that no owner waits for the caller, that the cycle
  is a phantom, or that another member of it is the victim.
\<close>

theorem deadlock_check_correct:
  assumes "lm_inv lm"
  shows "(\<forall>e. check_deadlock_for_waiter lm lsn lid t os = Some e \<longrightarrow>
      (\<exists>ow q. e = Deadlock (lid # ow # q) lid lsn t \<and> ow \<in> set os \<and> ow \<noteq> lid \<and> q \<noteq> [] \<and>
         walk (wait_graph lm lid os) ow q \<and> last q = lid \<and>
         (\<forall>y \<in> {ow} \<union> set q. 0 < lock_count lm y \<and>
            (lock_count lm lid < lock_count lm y \<or> lock_count lm lid = lock_count lm y \<and> y \<le> lid)))) \<and>
    (check_deadlock_for_waiter lm lsn lid t os = None \<longrightarrow>
      \<not> (\<exists>ow \<in> set os. ow \<noteq> lid \<and> (ow, lid) \<in> (edges (wait_graph lm lid os))\<^sup>+) \<or>
      (\<exists>c. detect lid os (wait_graph lm lid os) = Some c \<and>
         ((\<exists>y \<in> set c. lock_count lm y = 0) \<or>
          (\<exists>v \<in> set c. v \<noteq> lid \<and> (\<forall>y \<in> set c. lock_count lm v < lock_count lm y \<or>
             lock_count lm v = lock_count lm y \<and> y \<le> v)))))"
proof -
  let ?g = "wait_graph lm lid os"
  have eq: "check_deadlock_for_waiter lm lsn lid t os =
      (case detect lid os ?g of
         None \<Rightarrow> None
       | Some c \<Rightarrow> if \<exists>y \<in> set c. lock_count lm y = 0 then None
                 else if select_victim c (compute_lock_counts lm c) = Some lid
                 then Some (Deadlock c lid lsn t) else None)"
    by (auto simp: check_deadlock_for_waiter_def wait_graph_def Let_def list_ex_iff
        compute_lock_counts_count [OF assms] split: option.split)
  show ?thesis
  proof (cases "detect lid os ?g")
    case None
    with detect_None [OF None] show ?thesis by (auto simp: eq)
  next
    case (Some c)
    obtain ow q where c: "c = lid # ow # q" "ow \<in> set os" "ow \<noteq> lid" "q \<noteq> []" "walk ?g ow q" "last q = lid"
      using detect_Some [OF Some] by blast
    obtain v where v: "select_victim c (compute_lock_counts lm c) = Some v" "v \<in> set c"
      "\<forall>y \<in> set c. lock_count lm v < lock_count lm y \<or> lock_count lm v = lock_count lm y \<and> y \<le> v"
      using select_victim_best [of c "compute_lock_counts lm c"] c(1)
      by (auto simp: compute_lock_counts_count [OF assms])
    show ?thesis
    proof (cases "(\<exists>y \<in> set c. lock_count lm y = 0) \<or> v \<noteq> lid")
      case True
      then have "check_deadlock_for_waiter lm lsn lid t os = None" using v(1) Some by (auto simp: eq)
      with True Some v show ?thesis by auto
    next
      case False
      then have "check_deadlock_for_waiter lm lsn lid t os = Some (Deadlock c lid lsn t)"
        using v(1) Some by (auto simp: eq)
      with False c v(3) show ?thesis by auto
    qed
  qed
qed

theorem deadlock_check_correct_witness:
  "let lm1 = fst (lock_phase1 (LockManager_with_config 0 1) 4096 1 Write False False);
       lm2 = fst (lock_phase1 lm1 8192 2 Write False False);
       lm3 = record_wait lm2 1 [2]
   in check_deadlock_for_waiter lm3 4096 2 Write [1] = Some (Deadlock [2, 1, 2] 2 4096 Write) \<and>
      0 < lock_count lm3 1 \<and> lock_count lm3 2 = lock_count lm3 1"
proof -
  define lm1 where "lm1 = fst (lock_phase1 (LockManager_with_config 0 1) 4096 1 Write False False)"
  define lm2 where "lm2 = fst (lock_phase1 lm1 8192 2 Write False False)"
  define lm3 where "lm3 = record_wait lm2 1 [2]"
  have inv: "lm_inv lm3"
    unfolding lm3_def lm2_def lm1_def by (intro lm_inv_frame lm_inv_phase1 lm_inv_with_config)
  have c: "check_deadlock_for_waiter lm3 4096 2 Write [1] = Some (Deadlock [2, 1, 2] 2 4096 Write)"
    and n: "held (compute_lock_counts lm3 [1, 2]) 2 = held (compute_lock_counts lm3 [1, 2]) 1"
    unfolding lm3_def lm2_def lm1_def by (simp_all add: wait_eval manager_eval lock_eval Lock_get_owner_ids_def)
  have "0 < lock_count lm3 1" using deadlock_check_correct [OF inv, of 4096 2 Write "[1]"] c by auto
  with c n show ?thesis
    unfolding Let_def lm1_def [symmetric] lm2_def [symmetric] lm3_def [symmetric]
    by (simp add: compute_lock_counts_count [OF inv])
qed

text \<open>
  C19. A deadlock no waiter reports.  Lockers 3 and 2, in this order, wait for the lock of
  locker 1 on one position; locker 2 holds another position.  When locker 1 releases, locker 3
  is granted and asks for the position of locker 2.  Now 2 and 3 wait for each other, but the
  edge of locker 2 still names locker 1: locker 3 sees no cycle, and locker 2, which reads
  the current owners, sees one and leaves the abort to the victim, locker 3.  Without a
  timeout every later check of both repeats this answer and changes nothing.
\<close>

theorem deadlock_behind_stale_edge:
  "let lm0 = LockManager_with_config 0 1;
       w = (\<lambda>lsn lid os n. \<lparr>w_lsn = lsn, w_locker = lid, w_type = Write, w_timeout = 0,
              w_txn_remaining = None, w_grant = WaitNew, w_owner_ids = os, w_notify = n\<rparr>);
       lm1 = fst (lock_phase1 lm0 4096 1 Write False False);
       lm2 = fst (lock_phase1 lm1 8192 2 Write False False);
       lm3 = fst (lock_begin_wait (fst (lock_phase1 lm2 4096 3 Write False False)) (w 4096 3 [1] 0));
       lm4 = fst (lock_begin_wait (fst (lock_phase1 lm3 4096 2 Write False False)) (w 4096 2 [1] 1));
       lm5 = fst (wait_wake (LockManager_release lm4 4096 1) (w 4096 3 [1] 0) True True False 0);
       (lm6, s) = lock_begin_wait (fst (lock_phase1 lm5 8192 3 Write False False)) (w 8192 3 [2] 2)
   in s = None \<and>
      map locker_id (owners_of lm6 4096) = [3] \<and> map locker_id (queue_of lm6 4096) = [2] \<and>
      map locker_id (owners_of lm6 8192) = [2] \<and> map locker_id (queue_of lm6 8192) = [3] \<and>
      (\<forall>timed_out elapsed.
         wait_wake lm6 (w 4096 2 [1] 1) False False timed_out elapsed = (lm6, None) \<and>
         wait_wake lm6 (w 8192 3 [2] 2) False False timed_out elapsed = (lm6, None))"
proof -
  define w where "w = (\<lambda>lsn lid os n. \<lparr>w_lsn = lsn, w_locker = lid, w_type = Write, w_timeout = 0,
     w_txn_remaining = None, w_grant = WaitNew, w_owner_ids = os, w_notify = n\<rparr>)"
  define info where "info = (\<lambda>i n. \<lparr>locker_id = i, lock_type = Write, notify = n\<rparr>)"
  define full where "full = (\<lambda>ow fw wl. Full \<lparr>first_owner = Some ow, owner_set = None, first_waiter = fw, waiter_list = wl\<rparr>)"
  define thin where "thin = (\<lambda>ow. Thin \<lparr>thin_owner = Some ow\<rparr>)"
  define st where "st = (\<lambda>a b rq wt gr nn sg. (LockManager_with_config 0 1)\<lparr>
     lock_tables := [[(4096, a), (8192, b)]], lock_requests := rq, lock_waits := wt, waiter_graph := gr,
     lock_memory_counter := 160, next_notify := nn, signalled := sg\<rparr>)"
  note ev = wait_eval manager_eval lock_eval n_owners_def Lock_get_owner_ids_def w_def info_def full_def
    thin_def st_def
  define lm0 where "lm0 = LockManager_with_config 0 1"
  define lm1 where "lm1 = fst (lock_phase1 lm0 4096 1 Write False False)"
  define lm2 where "lm2 = fst (lock_phase1 lm1 8192 2 Write False False)"
  define lm3 where "lm3 = fst (lock_begin_wait (fst (lock_phase1 lm2 4096 3 Write False False)) (w 4096 3 [1] 0))"
  define lm4 where "lm4 = fst (lock_begin_wait (fst (lock_phase1 lm3 4096 2 Write False False)) (w 4096 2 [1] 1))"
  define lm5 where "lm5 = fst (wait_wake (LockManager_release lm4 4096 1) (w 4096 3 [1] 0) True True False 0)"
  define q where "q = lock_phase1 lm5 8192 3 Write False False"
  have 2: "lm2 = st (thin (info 1 None)) (thin (info 2 None)) 2 0 [] 0 {}"
    unfolding lm2_def lm1_def lm0_def by (simp add: ev)
  have 3: "lm3 = st (full (info 1 None) (Some (info 3 (Some 0))) None) (thin (info 2 None)) 3 1 [(3, [1])] 1 {}"
    unfolding lm3_def 2 by (simp add: ev)
  have 4: "lm4 = st (full (info 1 None) (Some (info 3 (Some 0))) (Some [info 2 (Some 1)])) (thin (info 2 None))
      4 2 [(3, [1]), (2, [1])] 2 {}"
    unfolding lm4_def 3 by (simp add: ev)
  have 5: "lm5 = st (full (info 3 (Some 0)) None (Some [info 2 (Some 1)])) (thin (info 2 None))
      4 2 [(2, [1])] 2 {0}"
    unfolding lm5_def 4 by (simp add: ev)
  have q: "fst q = st (full (info 3 (Some 0)) None (Some [info 2 (Some 1)]))
      (full (info 2 None) (Some (info 3 (Some 2))) None) 5 3 [(2, [1])] 3 {0}"
    unfolding q_def 5 by (simp add: ev)
  define lm6 where "lm6 = st (full (info 3 (Some 0)) None (Some [info 2 (Some 1)]))
      (full (info 2 None) (Some (info 3 (Some 2))) None) 5 3 [(2, [1]), (3, [2])] 3 {0}"
  have 6: "lock_begin_wait (fst q) (w 8192 3 [2] 2) = (lm6, None)"
    unfolding q lm6_def by (simp add: ev)
  have os: "map locker_id (owners_of lm6 4096) = [3]" "map locker_id (queue_of lm6 4096) = [2]"
    "map locker_id (owners_of lm6 8192) = [2]" "map locker_id (queue_of lm6 8192) = [3]"
    unfolding lm6_def by (simp_all add: ev owners_of_def queue_of_def)
  have "wait_wake lm6 (w 4096 2 [1] 1) False False timed_out elapsed = (lm6, None)"
    and "wait_wake lm6 (w 8192 3 [2] 2) False False timed_out elapsed = (lm6, None)" for timed_out elapsed
    unfolding lm6_def by (simp_all add: ev)
  with os 6 show ?thesis
    unfolding Let_def w_def [symmetric] lm0_def [symmetric] lm1_def [symmetric] lm2_def [symmetric]
      lm3_def [symmetric] lm4_def [symmetric] lm5_def [symmetric] q_def [symmetric] by simp
qed

section \<open>Sweeping a locker out of the table\<close>

lemma Lock_release_owner_ids:
  assumes "Lock_inv sh l" and "lid \<notin> locker_id ` set (Lock_get_waiters_clone l)"
  shows "lid \<notin> set (Lock_get_owner_ids (fst (Lock_release_with_sharing l lid f)))"
proof -
  let ?os = "Lock_get_owners_clone l"
  have "distinct (map locker_id ?os)"
    using lk.inv_owners [OF assms(1)] by (simp add: owners_compatible_def)
  then have "lid \<notin> locker_id ` set (remove_first (\<lambda>x. locker_id x = lid) ?os)"
    by (rule remove_first_key)
  moreover have "set (Lock_get_owner_ids (fst (Lock_release_with_sharing l lid f))) =
      locker_id ` set (get_owners_clone (fst (release_with_sharing (full_view l) lid f)))"
    by (simp add: full_view_release Lock_get_owner_ids_def split: prod.split)
  ultimately show ?thesis
    using release_owner_ids [of "full_view l" lid f] assms(2) by auto
qed

text \<open>
  C20. \<open>release_all_for_locker\<close> removes a locker that waits for nothing from the whole table: it
  owns no position afterwards, the count it returns is the number of positions it owned, its
  preemption mark is gone, and positions it did not own are untouched.
\<close>

theorem release_all_sweeps_locker:
  assumes "lm_inv lm" and "\<And>lsn. lid \<notin> locker_id ` set (queue_of lm lsn)"
    and "release_all_for_locker lm lid = (lm', n)"
  shows "owns_nothing lm' lid \<and>
    n = card {lsn. LockManager_get_owned_lock_type lm lsn lid \<noteq> None} \<and>
    lid \<notin> preempted lm' \<and>
    (\<forall>lsn. LockManager_get_owned_lock_type lm lsn lid = None \<longrightarrow> lm_get lm' lsn = lm_get lm lsn)"
proof -
  have wf: "tables_wf lm" using assms(1) by (simp add: lm_inv_def)
  let ?is = "[0..<length (lock_tables lm)]" and ?own = "\<lambda>k. LockManager_get_owned_lock_type lm k lid \<noteq> None"
  obtain lm1 where r: "release_shards lm lid (build_shares_fn lm lid) ?is 0 = (lm1, n)"
    and l': "lm' = clear_preempted lm1 lid"
    using assms(3) by (auto simp: release_all_for_locker_def split: prod.splits)
  from release_shards_spec [OF assms(1) _ _ r]
  have n: "n = (\<Sum>i\<leftarrow>?is. length (owned_lsns lm i lid))"
    and g1: "lm_get lm1 = (\<lambda>k. if get_table_index lm k \<in> set ?is \<and> ?own k
               then release_entry lid (build_shares_fn lm lid) (lm_get lm k) else lm_get lm k)" by simp_all
  have "lm_get lm' = lm_get lm1" unfolding l' by (rule lm_get_cong) (simp_all add: clear_preempted_def Let_def)
  with g1 have g: "lm_get lm' k = (if ?own k then release_entry lid (build_shares_fn lm lid) (lm_get lm k)
      else lm_get lm k)" for k
    using table_index_bound [OF wf, of k] by simp
  have "lid \<notin> set (Lock_get_owner_ids l)" if "lm_get lm' k = Some l" for k l
  proof (cases "?own k")
    case False
    with that g [of k] show ?thesis
      by (simp add: LockManager_get_owned_lock_type_def Lock_owned_type_None)
  next
    case True
    then obtain l0 where l0: "lm_get lm k = Some l0"
      by (auto simp: LockManager_get_owned_lock_type_def split: option.splits)
    with assms(2) [of k] have "lid \<notin> locker_id ` set (Lock_get_waiters_clone l0)" by (simp add: queue_of_def)
    from Lock_release_owner_ids [OF lm_inv_entryD [OF assms(1) l0] this] that g [of k] True l0
    show ?thesis by (auto simp: release_entry_def Let_def split: if_splits)
  qed
  then have "owns_nothing lm' lid"
    by (auto simp: owns_nothing_def LockManager_get_owned_lock_type_def Lock_owned_type_None split: option.split)
  moreover have "n = card {lsn. ?own lsn}"
  proof -
    let ?L = "length (lock_tables lm)"
    have "{lsn. ?own lsn} = (\<Union>i \<in> {..<?L}. set (owned_lsns lm i lid))"
      using table_index_bound [OF wf] in_owned_lsns [OF wf, of _ _ lid] by auto
    also have "card \<dots> = (\<Sum>i < ?L. card (set (owned_lsns lm i lid)))"
      using in_owned_lsns [OF wf, of _ _ lid] by (intro card_UN_disjoint) auto
    also have "\<dots> = n"
      unfolding n by (simp add: distinct_card distinct_owned_lsns [OF wf] interv_sum_list_conv_sum_set_nat
          atLeast0LessThan)
    finally show ?thesis by simp
  qed
  moreover have "lid \<notin> preempted lm'" by (simp add: l' clear_preempted_def Let_def)
  ultimately show ?thesis using g by auto
qed

theorem release_all_sweeps_locker_witness:
  "let lm1 = fst (lock_phase1 (LockManager_with_config 0 1) 4096 1 Write False False);
       lm2 = fst (lock_phase1 lm1 8192 1 Read False False);
       (lm3, n) = release_all_for_locker lm2 1
   in n = 2 \<and> owns_nothing lm3 1 \<and> n = card {lsn. LockManager_get_owned_lock_type lm2 lsn 1 \<noteq> None}"
proof -
  define lm1 where "lm1 = fst (lock_phase1 (LockManager_with_config 0 1) 4096 1 Write False False)"
  define lm2 where "lm2 = fst (lock_phase1 lm1 8192 1 Read False False)"
  have inv: "lm_inv lm2" unfolding lm2_def lm1_def by (intro lm_inv_phase1 lm_inv_with_config)
  have l: "lock_tables lm2 = [[(4096, Thin \<lparr>thin_owner = Some (LockInfo_new 1 Write)\<rparr>),
      (8192, Thin \<lparr>thin_owner = Some (LockInfo_new 1 Read)\<rparr>)]]" "n_lock_tables lm2 = 1"
    unfolding lm2_def lm1_def by (simp_all add: manager_eval lock_eval)
  obtain lm3 n where r: "release_all_for_locker lm2 1 = (lm3, n)" by fastforce
  have "1 \<notin> locker_id ` set (queue_of lm2 lsn)" for lsn
    by (simp add: queue_of_def lm_get_def table_get_def get_table_index_def l split: option.split)
  from release_all_sweeps_locker [OF inv this r]
  have o: "owns_nothing lm3 1" "n = card {lsn. LockManager_get_owned_lock_type lm2 lsn 1 \<noteq> None}" by auto
  have "{lsn. LockManager_get_owned_lock_type lm2 lsn 1 \<noteq> None} = {4096, 8192}"
    by (auto simp: LockManager_get_owned_lock_type_def lm_get_def table_get_def get_table_index_def l
        LockInfo_new_def thin_get_owned_lock_type_def split: if_splits)
  with o r show ?thesis
    unfolding Let_def lm1_def [symmetric] lm2_def [symmetric] by simp
qed

section \<open>Theft for replication replay\<close>

lemma attempt_non_blocking:
  assumes "lm_inv lm" and "record_type t"
    and "l = (case lm_get lm lsn of Some l \<Rightarrow> l | None \<Rightarrow> Lock_new_thin)"
    and r: "Lock_lock_with_sharing l t lid True j (build_shares_fn lm lid) = (l1, r)"
  obtains lm2 res where "attempt_lock lm lsn lid t True j = (lm2, Returned res)"
    "lm_get lm2 = (lm_get lm)(lsn \<mapsto> l1)" "non_preemptable lm2 = non_preemptable lm"
    "if success r then res = Ok (lock_grant r)
     else if lock_grant r = IllegalUpgrade then \<exists>h. res = Err (IllegalUpgrade_Err h t)
     else res = Err (LockNotAvailable lsn)"
proof -
  obtain lm1 l0 where e: "table_entry lm (get_table_index lm lsn) lsn = (lm1, l0)" by fastforce
  note en = table_entryD [OF assms(1) e]
  have l0: "l0 = l" using en(3) assms(3) by simp
  have np: "non_preemptable lm1 = non_preemptable lm"
    using e by (auto simp: table_entry_def charge_lock_entry_def table_put_def split: option.splits)
  have p: "table_put lm1 (get_table_index lm lsn) lsn l1 = lm_put lm1 lsn l1"
    by (simp add: lm_put_def en(6))
  have v: "lock_with_sharing (full_view l) t lid True j (build_shares_fn lm lid) = (full_view l1, r)"
    using r by (simp add: full_view_lock)
  have "\<not> must_wait (lock_grant r)" using lock_attempt_full(4) [OF assms(2) v] by blast
  with lock_attempt_full(3) [OF assms(2) v]
  have "success r \<or> lock_grant r = Denied \<or> lock_grant r = IllegalUpgrade" by blast
  moreover define res where "res = (if success r then Ok (lock_grant r)
     else if lock_grant r = IllegalUpgrade then
       Err (IllegalUpgrade_Err (case Lock_get_owned_lock_type l1 lid of Some h \<Rightarrow> h | None \<Rightarrow> None_LT) t)
     else Err (LockNotAvailable lsn))"
  ultimately have res: "attempt_lock lm lsn lid t True j = (lm_put lm1 lsn l1, Returned res)"
    unfolding attempt_lock_eq [OF e [unfolded l0] r] p Let_def res_def by (elim disjE) simp_all
  show thesis
  proof (rule that [OF res])
    show "lm_get (lm_put lm1 lsn l1) = (lm_get lm)(lsn \<mapsto> l1)"
      using en(1,2) by (simp add: lm_get_put lm_inv_def)
    show "non_preemptable (lm_put lm1 lsn l1) = non_preemptable lm"
      using np by (simp add: lm_put_def table_put_def)
    show "if success r then res = Ok (lock_grant r)
       else if lock_grant r = IllegalUpgrade then \<exists>h. res = Err (IllegalUpgrade_Err h t)
       else res = Err (LockNotAvailable lsn)"
      by (simp add: res_def)
  qed
qed

lemma preemptable_fn_eq: "preemptable_fn lm i \<longleftrightarrow> i \<notin> non_preemptable lm"
  by (auto simp: preemptable_fn_def Let_def)

lemma preempted_locker_refused:
  assumes "lid \<in> preempted lm" and "preempted_nonempty lm" and "record_type t"
  shows "lock_phase1 lm lsn lid t nb j = (lm, Returned (Err (LockPreempted lsn)))"
  using assms by (simp add: lock_phase1_def record_type_def)

text \<open>The steal, for a lock whose other owners may all be preempted.\<close>

lemma steal_in_wait_success:
  assumes inv: "lm_inv lm" and t: "record_type t" and l: "lm_get lm lsn = Some l"
    and pre: "\<forall>ow \<in> set (Lock_get_owners_clone l). locker_id ow \<noteq> lid \<longrightarrow> locker_id ow \<notin> non_preemptable lm"
    and leg: "\<forall>ow \<in> set (Lock_get_owners_clone l). locker_id ow = lid \<longrightarrow> \<not> is_illegal (get_upgrade (lock_type ow) t)"
  obtains lm' where "steal_lock_in_wait lm lsn lid t = (lm', True)"
    "\<exists>ow \<in> set (owners_of lm' lsn). locker_id ow = lid \<and> stronger (lock_type ow) t"
    "\<And>ow. ow \<in> set (Lock_get_owners_clone l) \<Longrightarrow> locker_id ow \<noteq> lid \<Longrightarrow>
       locker_id ow \<in> preempted lm' \<and> preempted_nonempty lm'"
proof -
  have e: "table_entry lm (get_table_index lm lsn) lsn = (lm, l)" by (simp add: table_entry_eq l)
  obtain l2 vs where v: "Lock_steal_lock_preemptable (Lock_flush_waiter l lid) lid (preemptable_fn lm) = (l2, vs)"
    by fastforce
  then have fv: "steal_lock_preemptable (full_view (Lock_flush_waiter l lid)) lid (preemptable_fn lm) = (full_view l2, vs)"
    by (simp add: full_view_steal)
  have os2: "Lock_get_owners_clone l2 = filter (\<lambda>i. locker_id i = lid) (Lock_get_owners_clone l)"
    using owners_steal [of "full_view (Lock_flush_waiter l lid)" lid "preemptable_fn lm"] pre
    by (auto simp: fv Lock_owners_flush_waiter preemptable_fn_eq intro: filter_cong)
  have vs: "set vs = {i \<in> locker_id ` set (Lock_get_owners_clone l). i \<noteq> lid}"
    using steal_preempted [of "full_view (Lock_flush_waiter l lid)" lid "preemptable_fn lm"] pre
    by (auto simp: fv Lock_owners_flush_waiter preemptable_fn_eq)
  obtain l3 r where r: "Lock_lock_with_sharing l2 t lid True False (build_shares_fn lm lid) = (l3, r)" by fastforce
  then have fr: "lock_with_sharing (full_view l2) t lid True False (build_shares_fn lm lid) = (full_view l3, r)"
    by (simp add: full_view_lock)
  have "distinct (map locker_id (Lock_get_owners_clone l))"
    using lk.inv_owners [OF lm_inv_entryD [OF inv l]] by (simp add: owners_compatible_def)
  then have s: "success r"
    using sole_owner_lock [of "full_view l2" lid t True False "build_shares_fn lm lid"] leg
    by (simp add: os2 fr distinct_map_filter)
  define lm' where "lm' = mark_preempted (lm_put lm lsn l3) vs"
  have g: "lm_get lm' = (lm_get lm)(lsn \<mapsto> l3)"
  proof -
    have "lm_get lm' = lm_get (lm_put lm lsn l3)"
      unfolding lm'_def by (rule lm_get_cong) (simp_all add: mark_preempted_def)
    with inv show ?thesis by (simp add: lm_get_put lm_inv_def)
  qed
  show thesis
  proof (rule that)
    show "steal_lock_in_wait lm lsn lid t = (lm', True)"
      by (simp add: steal_lock_in_wait_def e v r s lm'_def lm_put_def)
    show "\<exists>ow \<in> set (owners_of lm' lsn). locker_id ow = lid \<and> stronger (lock_type ow) t"
      using lock_attempt_full(1) [OF t fr] s by (simp add: owners_of_def g)
    fix ow
    assume "ow \<in> set (Lock_get_owners_clone l)" "locker_id ow \<noteq> lid"
    then have "locker_id ow \<in> set vs" by (auto simp: vs)
    then show "locker_id ow \<in> preempted lm' \<and> preempted_nonempty lm'"
      by (auto simp: lm'_def mark_preempted_def)
  qed
qed

text \<open>
  C21. An importunate request gets its lock.  When no other owner is protected from preemption
  and the requester does not ask for an illegal upgrade, the request succeeds without waiting
  and the requester owns a type at least as strong as the one asked for; every owner that lost
  the lock to it is refused with \<open>LockPreempted\<close> at its next request, on any position.
\<close>

theorem importunate_lock_succeeds:
  assumes inv: "lm_inv lm" and t: "record_type t" and np: "lid \<notin> preempted lm"
    and pre: "\<forall>ow \<in> set (owners_of lm lsn). locker_id ow \<noteq> lid \<longrightarrow> locker_id ow \<notin> non_preemptable lm"
    and leg: "\<forall>ow \<in> set (owners_of lm lsn). locker_id ow = lid \<longrightarrow> \<not> is_illegal (get_upgrade (lock_type ow) t)"
    and i: "lock_importunate lm lsn lid t nb = (lm', p)"
  shows "(\<exists>g. p = Returned (Ok g)) \<and>
    (\<exists>ow \<in> set (owners_of lm' lsn). locker_id ow = lid \<and> stronger (lock_type ow) t) \<and>
    (\<forall>ow \<in> set (owners_of lm lsn). locker_id ow \<notin> locker_id ` set (owners_of lm' lsn) \<longrightarrow>
       (\<forall>k u b j. record_type u \<longrightarrow>
          lock_phase1 lm' k (locker_id ow) u b j = (lm', Returned (Err (LockPreempted k)))))"
proof -
  define lm0 where "lm0 = lm\<lparr>lock_requests := lock_requests lm + 1\<rparr>"
  define l where "l = (case lm_get lm lsn of Some l \<Rightarrow> l | None \<Rightarrow> Lock_new_thin)"
  have inv0: "lm_inv lm0" unfolding lm0_def by (rule lm_inv_frame(6) [OF inv])
  have g0: "lm_get lm0 = lm_get lm" by (rule lm_get_cong) (simp_all add: lm0_def)
  have os: "owners_of lm lsn = Lock_get_owners_clone l"
    by (simp add: owners_of_def l_def Lock_new_thin_def ThinLockImpl_new_def split: option.split)
  obtain l1 r where r: "Lock_lock_with_sharing l t lid True False (build_shares_fn lm0 lid) = (l1, r)" by fastforce
  then have fr: "lock_with_sharing (full_view l) t lid True False (build_shares_fn lm0 lid) = (full_view l1, r)"
    by (simp add: full_view_lock)
  have np0: "non_preemptable lm0 = non_preemptable lm" by (simp add: lm0_def)
  obtain lm2 res where a: "attempt_lock lm0 lsn lid t True False = (lm2, Returned res)"
    "lm_get lm2 = (lm_get lm)(lsn \<mapsto> l1)" "non_preemptable lm2 = non_preemptable lm"
    "if success r then res = Ok (lock_grant r)
     else if lock_grant r = IllegalUpgrade then \<exists>h. res = Err (IllegalUpgrade_Err h t)
     else res = Err (LockNotAvailable lsn)"
  proof (rule attempt_non_blocking [OF inv0 t _ r, of lsn])
    show "l = (case lm_get lm0 lsn of Some l \<Rightarrow> l | None \<Rightarrow> Lock_new_thin)" by (simp add: l_def g0)
  qed (use g0 np0 in auto)
  have ph: "lock_phase1 lm lsn lid t True False = (lm2, Returned res)"
    using t np a(1) by (simp add: lock_phase1_def record_type_def lm0_def)
  have os2: "owners_of lm2 lsn = Lock_get_owners_clone l1" by (simp add: owners_of_def a(2))
  have legal: "lock_grant r \<noteq> IllegalUpgrade"
    using lock_grant_illegal [of "full_view l" t lid True False "build_shares_fn lm0 lid"] leg
    by (auto simp: fr os)
  show ?thesis
  proof (cases "success r")
    case True
    with a(4) have "res = Ok (lock_grant r)" by simp
    with i ph t have p: "lm' = lm2" "p = Returned (Ok (lock_grant r))"
      by (auto simp: lock_importunate_def record_type_def)
    have "locker_id ` set (Lock_get_owners_clone l) \<subseteq> locker_id ` set (Lock_get_owners_clone l1)"
      using try_lock_owner_ids [of "full_view l" "LockInfo_new lid t" _ "build_shares_fn lm0 lid"]
        lock_with_sharing_owners [of "full_view l" t lid True False "build_shares_fn lm0 lid"] by (simp add: fr)
    with p lock_attempt_full(1) [OF t fr] True show ?thesis by (auto simp: os os2)
  next
    case False
    with a(4) legal have res: "res = Err (LockNotAvailable lsn)" by simp
    have "Lock_get_owners_clone l1 = owners_of lm lsn" using lock_attempt_full(2) [OF t fr] False os by simp
    note o1 = this
    have inv2: "lm_inv lm2" using lm_inv_attempt [OF inv0 t, of lsn lid True False] a(1) by simp
    obtain lm3 where st: "steal_lock_in_wait lm2 lsn lid t = (lm3, True)"
      "\<exists>ow \<in> set (owners_of lm3 lsn). locker_id ow = lid \<and> stronger (lock_type ow) t"
      "\<And>ow. ow \<in> set (owners_of lm lsn) \<Longrightarrow> locker_id ow \<noteq> lid \<Longrightarrow>
         locker_id ow \<in> preempted lm3 \<and> preempted_nonempty lm3"
      by (rule steal_in_wait_success [OF inv2 t, of lsn l1 lid]) (use pre leg o1 a(2,3) in auto)
    have "p = Returned (Ok New)" "lm' = lm3"
      using i ph t res st(1) by (auto simp: lock_importunate_def record_type_def)
    moreover from st(2) have "lid \<in> locker_id ` set (owners_of lm3 lsn)" by auto
    ultimately show ?thesis
      using st(2,3) preempted_locker_refused by (metis (no_types, lifting))
  qed
qed

theorem importunate_lock_succeeds_witness:
  "let lm1 = fst (lock_phase1 (LockManager_with_config 500 1) 4096 7 Read False False);
       (lm2, p) = lock_importunate lm1 4096 (-9) Write False
   in p = Returned (Ok New) \<and> map locker_id (owners_of lm2 4096) = [-9] \<and>
      lock_phase1 lm2 8192 7 Read False False = (lm2, Returned (Err (LockPreempted 8192)))"
proof -
  define lm1 where "lm1 = fst (lock_phase1 (LockManager_with_config 500 1) 4096 7 Read False False)"
  obtain lm2 p where r: "lock_importunate lm1 4096 (-9) Write False = (lm2, p)" by fastforce
  have inv: "lm_inv lm1" unfolding lm1_def by (intro lm_inv_phase1 lm_inv_with_config)
  have os: "owners_of lm1 4096 = [LockInfo_new 7 Read]" "non_preemptable lm1 = {}" "preempted lm1 = {}"
    unfolding lm1_def by (simp_all add: manager_eval lock_eval owners_of_def)
  have p: "p = Returned (Ok New)" and o2: "map locker_id (owners_of lm2 4096) = [-9]"
    using r unfolding lm1_def
    by (auto simp: manager_eval lock_eval owners_of_def lock_importunate_def steal_lock_in_wait_def
        preemptable_fn_def mark_preempted_def steal_lock_preemptable_def)
  have "lock_phase1 lm2 8192 7 Read False False = (lm2, Returned (Err (LockPreempted 8192)))"
    using importunate_lock_succeeds [OF inv _ _ _ _ r] os o2
    by (simp add: record_type_def flip: set_map)
  with p o2 r show ?thesis unfolding Let_def lm1_def [symmetric] by simp
qed

section \<open>The read fast path\<close>

lemma owner_scan_read:
  assumes "\<forall>ow \<in> set os. record_type (lock_type ow)"
    and "\<forall>ow \<in> set os. locker_id ow = lid \<longrightarrow> lock_type ow \<noteq> RangeInsert"
    and "\<forall>w. List.find (\<lambda>i. is_write_lock (lock_type i)) os = Some w \<longrightarrow> locker_id w = lid"
  shows "owner_scan os (LockInfo_new lid Read) f None e False = Inl Existing \<or>
    (\<exists>e'. owner_scan os (LockInfo_new lid Read) f None e False = Inr (None, e', False)) \<and>
      lid \<notin> locker_id ` set os"
  using assms
proof (induction os arbitrary: e)
  case (Cons ow os)
  have own: "get_upgrade (lock_type ow) Read = Existing_LU" if "locker_id ow = lid"
    using that Cons.prems(1,2) by (cases "lock_type ow") (auto simp: record_type_def)
  have other: "\<not> is_write_lock (lock_type ow) \<and> get_conflict (lock_type ow) Read = Allow" if "locker_id ow \<noteq> lid"
    using that Cons.prems(1,3) by (cases "lock_type ow") (auto simp: record_type_def)
  show ?case
  proof (cases "locker_id ow = lid")
    case True
    with own show ?thesis by (simp add: LockInfo_new_def is_illegal_def)
  next
    case False
    with other Cons.prems Cons.IH [of e] Cons.IH [of True] show ?thesis
      by (auto simp: LockInfo_new_def)
  qed
qed simp

lemma Lock_write_owner_find:
  "Lock_get_write_owner_locker_id l =
     map_option locker_id (List.find (\<lambda>i. is_write_lock (lock_type i)) (Lock_get_owners_clone l))"
  by (cases l) (auto simp: get_write_owner_find thin_get_write_owner_locker_id_def split: option.split)

lemma release_after_add:
  assumes "get_waiters_clone l = []" and "locker_id i \<notin> locker_id ` set (get_owners_clone l)"
    and "release_with_sharing (add_owner l i) (locker_id i) f = (l', res)"
  shows "get_owners_clone l' = get_owners_clone l \<and> get_waiters_clone l' = []"
proof -
  let ?l1 = "add_owner l i"
  obtain l2 rm where fl: "flush_owner ?l1 (locker_id i) = (l2, rm)" by fastforce
  have ws: "get_waiters_clone l2 = []"
    using waiters_flush_owner [of ?l1 "locker_id i"] assms(1) fl by (simp add: waiters_simps)
  have none: "\<forall>x \<in> set (get_owners_clone l). locker_id x \<noteq> locker_id i" using assms(2) by (metis imageI)
  then have "get_owners_clone l2 = get_owners_clone l"
    using owners_flush_owner [of ?l1 "locker_id i"] fl
    by (simp add: owners_add_owner remove_first_append remove_first_none split: if_splits)
  moreover have "l' = l2"
    using assms(3) fl ws by (simp add: release_with_sharing_def n_waiters_length split: option.splits)
  ultimately show ?thesis using ws by simp
qed



end
