(* ===== verification/Machine_Bytes.thy ===== *)
theory Machine_Bytes
  imports Noxu_Prelude
begin

unbundle bit_operations_syntax

text \<open>
  Machine arithmetic and byte strings as the Rust sources use them: arithmetic whose overflow
  panics (the checks of the development profile), conversions of words to little-endian and
  big-endian bytes, reads that fail at the end of the input, and the lexicographic order of
  byte strings.
\<close>

section \<open>Failures and their sequencing\<close>

datatype panic = Overflow | Assertion | ShiftOverflow

datatype io_error = UnexpectedEof | Panicked panic

datatype Ordering = Less | Equal | Greater

definition cmp :: "'a::linorder \<Rightarrow> 'a \<Rightarrow> Ordering" where
  "cmp a b = (if a < b then Less else if a = b then Equal else Greater)"

lemma cmp_simps [simp]:
  "cmp a b = Less \<longleftrightarrow> a < b" "cmp a b = Equal \<longleftrightarrow> a = b" "cmp a b = Greater \<longleftrightarrow> b < a"
  by (auto simp: cmp_def)

lemma cmp_uint: "cmp (uint a) (uint b) = cmp a b"
  by (simp add: cmp_def word_less_def word_eq_iff_unsigned [where 'a = int])

lemma digits_less:
  fixes a b B x y :: int
  assumes "a < b" "0 \<le> x" "x < B" "0 \<le> y"
  shows "a * B + x < b * B + y"
proof -
  have "(a + 1) * B \<le> b * B" using assms by (intro mult_right_mono) auto
  with assms show ?thesis by (simp add: distrib_right)
qed

lemma cmp_digits:
  fixes a b B x y :: int
  assumes "0 \<le> x" "x < B" "0 \<le> y" "y < B"
  shows "cmp (a * B + x) (b * B + y) = (if a = b then cmp x y else cmp a b)"
  using digits_less [of a b x B y] digits_less [of b a y B x] assms
  by (cases a b rule: linorder_cases) (auto simp: cmp_def)

text \<open>The operator \<open>?\<close>: continue with the value, or return the error.\<close>

fun and_then :: "'e + 'a \<Rightarrow> ('a \<Rightarrow> 'e + 'b) \<Rightarrow> 'e + 'b" where
  "and_then (Inl e) f = Inl e"
| "and_then (Inr x) f = f x"

lemma and_then_eq_Inr: "and_then m f = Inr y \<longleftrightarrow> (\<exists>x. m = Inr x \<and> f x = Inr y)"
  by (cases m) auto

fun map_err :: "('e \<Rightarrow> 'f) \<Rightarrow> 'e + 'a \<Rightarrow> 'f + 'a" where
  "map_err f (Inl e) = Inl (f e)"
| "map_err f (Inr x) = Inr x"

section \<open>Checked arithmetic\<close>

definition add_u :: "'a::len word \<Rightarrow> 'a word \<Rightarrow> panic + 'a word" where
  "add_u a b = (if uint a + uint b < 2 ^ LENGTH('a) then Ok (a + b) else Err Overflow)"

definition sub_u :: "'a::len word \<Rightarrow> 'a word \<Rightarrow> panic + 'a word" where
  "sub_u a b = (if b \<le> a then Ok (a - b) else Err Overflow)"

definition mul_u :: "'a::len word \<Rightarrow> 'a word \<Rightarrow> panic + 'a word" where
  "mul_u a b = (if uint a * uint b < 2 ^ LENGTH('a) then Ok (a * b) else Err Overflow)"

definition fits_s :: "'a::len itself \<Rightarrow> int \<Rightarrow> bool" where
  "fits_s t i \<longleftrightarrow> - (2 ^ (LENGTH('a) - 1)) \<le> i \<and> i < 2 ^ (LENGTH('a) - 1)"

definition add_s :: "'a::len word \<Rightarrow> 'a word \<Rightarrow> panic + 'a word" where
  "add_s a b = (if fits_s TYPE('a) (sint a + sint b) then Ok (a + b) else Err Overflow)"

definition sub_s :: "'a::len word \<Rightarrow> 'a word \<Rightarrow> panic + 'a word" where
  "sub_s a b = (if fits_s TYPE('a) (sint a - sint b) then Ok (a - b) else Err Overflow)"

definition neg_s :: "'a::len word \<Rightarrow> panic + 'a word" where
  "neg_s a = (if fits_s TYPE('a) (- sint a) then Ok (- a) else Err Overflow)"

definition abs_diff :: "'a::len word \<Rightarrow> 'a word \<Rightarrow> 'a word" where
  "abs_diff a b = (if a < b then b - a else a - b)"

lemma unat_bound: "unat (w :: 'a::len word) < 2 ^ LENGTH('a)"
  by (rule unsigned_less)

lemma add_u_fits:
  assumes "unat a + unat b < 2 ^ LENGTH('a)"
  shows "add_u a b = Ok (a + b) \<and> unat (a + b :: 'a::len word) = unat a + unat b"
proof -
  have "int (unat a + unat b) < int (2 ^ LENGTH('a))" using assms by (simp only: of_nat_less_iff)
  then have "uint a + uint b < 2 ^ LENGTH('a)" by simp
  then show ?thesis using assms by (simp add: add_u_def unat_word_ariths)
qed

lemma uint_ucast_up:
  assumes "LENGTH('a::len) \<le> LENGTH('b::len)"
  shows "uint (ucast (w :: 'a word) :: 'b word) = uint w"
proof -
  have "uint w < 2 ^ LENGTH('b)"
    using uint_lt2p [of w] assms by (meson order_less_le_trans one_le_numeral power_increasing)
  then show ?thesis by (simp add: unsigned_ucast_eq take_bit_int_eq_self)
qed

lemma uint_abs_diff: "uint (abs_diff a b) = \<bar>uint a - uint b\<bar>"
  by (auto simp: abs_diff_def word_less_def uint_minus_simple_alt [symmetric] word_le_def uint_sub_if')

lemma uint_not: "uint (NOT w) = 2 ^ LENGTH('a) - 1 - uint (w :: 'a::len word)"
proof -
  have "NOT w = -1 - w" by (simp add: not_eq_complement)
  then show ?thesis
    using uint_lt2p [of w] by (simp add: uint_sub_if' unsigned_minus_1_eq_mask mask_eq_exp_minus_1)
qed

lemma not_less_not: "NOT a < NOT b \<longleftrightarrow> b < (a :: 'a::len word)"
  by (simp add: word_less_def uint_not)

lemma signed_take_bit_fits: "fits_s TYPE('a) i \<Longrightarrow> signed_take_bit (LENGTH('a::len) - Suc 0) i = i"
  by (simp add: fits_s_def signed_take_bit_int_eq_self)

lemma sint_word_of_int_fits: "fits_s TYPE('a) i \<Longrightarrow> sint (word_of_int i :: 'a::len word) = i"
  by (simp add: fits_s_def sint_sbintrunc' signed_take_bit_int_eq_self)

lemma fits_sint [simp]: "fits_s TYPE('a) (sint (w :: 'a::len word))"
  using sint_ge [of w] sint_lt [of w] by (simp add: fits_s_def)

lemma sint_eqI: "sint a = sint b \<Longrightarrow> a = b"
  by (simp add: word_eq_iff_signed [where 'a = int])

lemma sint_add_s: "add_s a b = Ok c \<longleftrightarrow> fits_s TYPE('a) (sint a + sint b) \<and> sint (c :: 'a::len word) = sint a + sint b"
  by (auto simp: add_s_def sint_word_ariths signed_take_bit_fits intro!: sint_eqI)

lemma sint_sub_s: "sub_s a b = Ok c \<longleftrightarrow> fits_s TYPE('a) (sint a - sint b) \<and> sint (c :: 'a::len word) = sint a - sint b"
  by (auto simp: sub_s_def sint_word_ariths signed_take_bit_fits intro!: sint_eqI)

lemma sint_neg_s: "neg_s a = Ok c \<longleftrightarrow> fits_s TYPE('a) (- sint a) \<and> sint (c :: 'a::len word) = - sint a"
  by (auto simp: neg_s_def sint_word_ariths signed_take_bit_fits intro!: sint_eqI)

lemma add_s_fits: "fits_s TYPE('a) (sint a + sint b) \<Longrightarrow>
    \<exists>c. add_s a b = Ok c \<and> sint (c :: 'a::len word) = sint a + sint b"
  by (simp add: add_s_def sint_word_ariths signed_take_bit_fits)

lemma sub_s_fits: "fits_s TYPE('a) (sint a - sint b) \<Longrightarrow>
    \<exists>c. sub_s a b = Ok c \<and> sint (c :: 'a::len word) = sint a - sint b"
  by (simp add: sub_s_def sint_word_ariths signed_take_bit_fits)

lemma neg_s_fits: "fits_s TYPE('a) (- sint a) \<Longrightarrow>
    \<exists>c. neg_s a = Ok c \<and> sint (c :: 'a::len word) = - sint a"
  by (simp add: neg_s_def sint_word_ariths signed_take_bit_fits)

lemma sint_sub_fits: "fits_s TYPE('a) (sint a - sint b) \<Longrightarrow> sint (a - b :: 'a::len word) = sint a - sint b"
  by (simp add: sint_word_ariths signed_take_bit_fits)

lemma sint_add_fits: "fits_s TYPE('a) (sint a + sint b) \<Longrightarrow> sint (a + b :: 'a::len word) = sint a + sint b"
  by (simp add: sint_word_ariths signed_take_bit_fits)

lemma fits_wide: "16 \<le> LENGTH('a) \<Longrightarrow> -32768 \<le> i \<Longrightarrow> i < 32768 \<Longrightarrow> fits_s TYPE('a::len) i"
  using power_increasing [of 15 "LENGTH('a) - 1" "2 :: int"] by (simp add: fits_s_def)

lemma signed_take_bit_wide:
  "16 \<le> LENGTH('a::len) \<Longrightarrow> (numeral k :: int) < 32768 \<Longrightarrow>
   signed_take_bit (LENGTH('a) - Suc 0) (numeral k :: int) = numeral k"
  by (rule signed_take_bit_fits [OF fits_wide]) (auto intro: order_trans [OF _ zero_le_numeral])

section \<open>Bytes of a word\<close>

text \<open>\<open>to_le_bytes\<close> and \<open>to_be_bytes\<close>, and the first \<open>n\<close> bytes that the encoders write.\<close>

definition byte_at :: "nat \<Rightarrow> 'a::len word \<Rightarrow> u8" where
  "byte_at i w = ucast (drop_bit (i * 8) w AND 0xFF)"

definition le_bytes :: "nat \<Rightarrow> 'a::len word \<Rightarrow> bytes" where
  "le_bytes n w = map (\<lambda>i. byte_at i w) [0..<n]"

definition be_bytes :: "nat \<Rightarrow> 'a::len word \<Rightarrow> bytes" where
  "be_bytes n w = map (\<lambda>i. byte_at i w) (rev [0..<n])"

fun from_le_bytes :: "bytes \<Rightarrow> 'a::len word" where
  "from_le_bytes [] = 0"
| "from_le_bytes (b # bs) = ucast b OR push_bit 8 (from_le_bytes bs)"

definition from_be_bytes :: "bytes \<Rightarrow> 'a::len word" where
  "from_be_bytes bs = from_le_bytes (rev bs)"

lemma length_le_bytes [simp]: "length (le_bytes n w) = n"
  by (simp add: le_bytes_def)

lemma length_be_bytes [simp]: "length (be_bytes n w) = n"
  by (simp add: be_bytes_def)

lemma rev_be_bytes: "rev (be_bytes n w) = le_bytes n w"
  by (simp add: be_bytes_def le_bytes_def rev_map)

lemma be_bytes_0 [simp]: "be_bytes 0 w = []"
  by (simp add: be_bytes_def)

lemma be_bytes_Suc [simp]: "be_bytes (Suc n) w = byte_at n w # be_bytes n w"
  by (simp add: be_bytes_def)

lemma bit_FF: "bit (0xFF :: 'a::len word) i \<longleftrightarrow> i < 8 \<and> i < LENGTH('a)"
proof -
  have "bit (0xFF :: int) i \<longleftrightarrow> i < 8"
    using bit_mask_iff [where 'a = int, of 8 i] by (simp add: mask_eq_exp_minus_1)
  then show ?thesis by (auto simp: bit_simps simp flip: bit_word_of_int_iff)
qed

lemma bit_byte_at: "bit (byte_at i w) j \<longleftrightarrow> j < 8 \<and> bit w (i * 8 + j)"
  unfolding byte_at_def bit_and_iff bit_unsigned_iff bit_drop_bit_eq bit_FF
  by (auto dest: bit_imp_le_length)

lemma byte_at_drop_bit: "byte_at i (drop_bit 8 w) = byte_at (Suc i) w"
  by (rule bit_eqI) (simp add: bit_byte_at bit_drop_bit_eq add.commute add.left_commute)

lemma le_bytes_Suc: "le_bytes (Suc n) w = byte_at 0 w # le_bytes n (drop_bit 8 w)"
  by (simp add: le_bytes_def byte_at_drop_bit upt_rec [of 0] map_Suc_upt [symmetric] comp_def del: upt_Suc)

lemma from_le_bytes_le_bytes:
  "from_le_bytes (le_bytes n w) = take_bit (8 * n) (w :: 'a::len word)"
proof (induction n arbitrary: w)
  case 0
  then show ?case by (simp add: le_bytes_def)
next
  case (Suc n)
  show ?case
    by (rule bit_eqI)
      (auto simp: le_bytes_Suc Suc.IH bit_simps bit_byte_at not_le not_less)
qed

lemma from_le_bytes_full [simp]:
  "LENGTH('a) \<le> 8 * n \<Longrightarrow> from_le_bytes (le_bytes n w) = (w :: 'a::len word)"
  by (simp add: from_le_bytes_le_bytes take_bit_word_eq_self)

lemma from_be_bytes_full [simp]:
  "LENGTH('a) \<le> 8 * n \<Longrightarrow> from_be_bytes (be_bytes n w) = (w :: 'a::len word)"
  by (simp add: from_be_bytes_def rev_be_bytes)

text \<open>The order of byte slices: lexicographic, a proper prefix being smaller.\<close>

abbreviation bytes_less :: "bytes \<Rightarrow> bytes \<Rightarrow> bool" where
  "bytes_less \<equiv> ord_class.lexordp"

section \<open>Reading\<close>

text \<open>\<open>Read::read_exact\<close> on a byte string: the bytes and the rest of the input.\<close>

definition read_exact :: "nat \<Rightarrow> bytes \<Rightarrow> io_error + (bytes \<times> bytes)" where
  "read_exact n r = (if n \<le> length r then Ok (take n r, drop n r) else Err UnexpectedEof)"

lemma read_exact_append [simp]: "length xs = n \<Longrightarrow> read_exact n (xs @ r) = Ok (xs, r)"
  by (simp add: read_exact_def)

lemma read_exact_short [simp]: "length r < n \<Longrightarrow> read_exact n r = Err UnexpectedEof"
  by (simp add: read_exact_def)

text \<open>\<open>bytes[a..b]\<close>, for bounds that the code has checked.\<close>

definition slice :: "bytes \<Rightarrow> nat \<Rightarrow> nat \<Rightarrow> bytes" where
  "slice bs a b = take (b - a) (drop a bs)"

lemma slice_append: "length xs = a \<Longrightarrow> length ys = b - a \<Longrightarrow> slice (xs @ ys @ zs) a b = ys"
  by (simp add: slice_def)

text \<open>
  How the replacement of a file by a temporary file ended: done, failed with the old file in
  place, or failed after the rename.
\<close>

datatype flush_outcome = FlushOk | FlushFailed | FlushFailedAfterRename

end
