(* ===== verification/Util_Lsn.thy ===== *)
theory Util_Lsn
  imports Machine_Bytes
begin

text \<open>
  Log sequence numbers (\<open>crates/noxu-util/src/lsn.rs\<close>) and version log sequence numbers
  (\<open>crates/noxu-util/src/vlsn.rs\<close>): a position of the log as a file number and an offset in
  one 64-bit word, the lock ids that are made up for positions that do not exist, the distance
  of two positions, and the sequence numbers of replicated entries.
\<close>

section \<open>Log sequence numbers\<close>

datatype Lsn = Lsn u64

definition NULL_LSN :: Lsn where
  "NULL_LSN = Lsn 0xFFFFFFFFFFFFFFFF"

definition MAX_FILE_NUM :: u32 where
  "MAX_FILE_NUM = 0xFFFFFFFF"

primrec as_u64 :: "Lsn \<Rightarrow> u64" where
  "as_u64 (Lsn w) = w"

definition from_u64 :: "u64 \<Rightarrow> Lsn" where
  "from_u64 val = Lsn val"

definition Lsn_new :: "u32 \<Rightarrow> u32 \<Rightarrow> Lsn" where
  "Lsn_new file_number file_offset = Lsn (push_bit 32 (ucast file_number) OR ucast file_offset)"

definition transient_lsn :: "u32 \<Rightarrow> Lsn" where
  "transient_lsn offset = Lsn_new MAX_FILE_NUM offset"

definition file_number :: "Lsn \<Rightarrow> u32" where
  "file_number l = ucast (drop_bit 32 (as_u64 l))"

definition file_offset :: "Lsn \<Rightarrow> u32" where
  "file_offset l = ucast (as_u64 l)"

definition Lsn_is_null :: "Lsn \<Rightarrow> bool" where
  "Lsn_is_null l \<longleftrightarrow> l = NULL_LSN"

definition is_transient :: "Lsn \<Rightarrow> bool" where
  "is_transient l \<longleftrightarrow> file_number l = MAX_FILE_NUM"

definition is_transient_or_null :: "Lsn \<Rightarrow> bool" where
  "is_transient_or_null l \<longleftrightarrow> Lsn_is_null l \<or> is_transient l"

definition calc_diff :: "u64 \<Rightarrow> u64 \<Rightarrow> u64 \<Rightarrow> u64 \<Rightarrow> panic + u64" where
  "calc_diff file_distance log_file_size later_offset earlier_offset =
     and_then (mul_u file_distance log_file_size) (\<lambda>d.
     and_then (add_u d later_offset) (\<lambda>e.
     sub_u e earlier_offset))"

definition no_cleaning_distance :: "Lsn \<Rightarrow> Lsn \<Rightarrow> u64 \<Rightarrow> panic + u64" where
  "no_cleaning_distance l other log_file_size =
     (if Lsn_is_null l then Ok 0
      else
        let my_file = ucast (file_number l);
            other_file = (if Lsn_is_null other then 0 else ucast (file_number other));
            other_offset = (if Lsn_is_null other then 0 else ucast (file_offset other))
        in if my_file = other_file then
             (let my_offset = ucast (file_offset l) in Ok (abs_diff my_offset other_offset))
           else if my_file > other_file then
             calc_diff (my_file - other_file) log_file_size (ucast (file_offset l)) other_offset
           else
             calc_diff (other_file - my_file) log_file_size other_offset (ucast (file_offset l)))"

definition Lsn_distance :: "Lsn \<Rightarrow> Lsn \<Rightarrow> u64" where
  "Lsn_distance l other = abs_diff (as_u64 l) (as_u64 other)"

text \<open>Comparison asserts that neither side is \<open>NULL_LSN\<close>.\<close>

definition Lsn_cmp :: "Lsn \<Rightarrow> Lsn \<Rightarrow> panic + Ordering" where
  "Lsn_cmp l other =
     (if Lsn_is_null l then Err Assertion
      else if Lsn_is_null other then Err Assertion
      else
        let file_cmp = cmp (file_number l) (file_number other)
        in if file_cmp \<noteq> Equal then Ok file_cmp
           else Ok (cmp (file_offset l) (file_offset other)))"

subsection \<open>Lock ids for positions that do not exist\<close>

text \<open>The 32-bit FNV-1a hash that the three constructors of lock ids share.\<close>

definition FNV_OFFSET :: u32 where
  "FNV_OFFSET = 0x811c9dc5"

definition FNV_PRIME :: u32 where
  "FNV_PRIME = 0x01000193"

definition fnv1a :: "u32 \<Rightarrow> bytes \<Rightarrow> u32" where
  "fnv1a h bs = foldl (\<lambda>h b. (h XOR ucast b) * FNV_PRIME) h bs"

definition synthetic_key_lock_id :: "u64 \<Rightarrow> bytes \<Rightarrow> u64" where
  "synthetic_key_lock_id db_id key =
     (let h = fnv1a FNV_OFFSET (le_bytes 8 db_id);
          h = fnv1a h key;
          h = (if h = 0xFFFFFFFF then 0 else h)
      in as_u64 (Lsn_new MAX_FILE_NUM h))"

definition eof_lock_lsn :: "u64 \<Rightarrow> u64" where
  "eof_lock_lsn db_id =
     (let h = fnv1a FNV_OFFSET (le_bytes 8 db_id);
          h = (if h = 0xFFFFFFFF then 0 else h)
      in as_u64 (Lsn_new 0xFFFFFFFE h))"

definition name_lock_id :: "bytes \<Rightarrow> u64" where
  "name_lock_id name =
     (let h = fnv1a FNV_OFFSET name;
          h = (if h = 0xFFFFFFFF then 0 else h)
      in as_u64 (Lsn_new 0xFFFFFFFD h))"

subsection \<open>Fields\<close>

lemma Lsn_eqI: "as_u64 a = as_u64 b \<Longrightarrow> a = b"
  by (cases a; cases b) simp

lemma Lsn_as_u64 [simp]: "Lsn (as_u64 l) = l"
  by (cases l) simp

lemma file_number_new [simp]: "file_number (Lsn_new f i) = f"
  by (rule bit_eqI) (auto simp: file_number_def Lsn_new_def bit_simps dest: bit_imp_le_length)

lemma file_offset_new [simp]: "file_offset (Lsn_new f i) = i"
  by (rule bit_eqI) (auto simp: file_offset_def Lsn_new_def bit_simps dest: bit_imp_le_length)

lemma Lsn_new_fields [simp]: "Lsn_new (file_number l) (file_offset l) = l"
  by (rule Lsn_eqI, rule bit_eqI)
    (auto simp: file_number_def file_offset_def Lsn_new_def bit_simps not_le)

lemma Lsn_eq_iff: "a = b \<longleftrightarrow> file_number a = file_number b \<and> file_offset a = file_offset b"
  by (metis Lsn_new_fields)

lemma uint_Lsn: "uint (as_u64 l) = uint (file_number l) * 2 ^ 32 + uint (file_offset l)"
proof -
  have "uint (file_number l) = uint (as_u64 l) div 2 ^ 32"
  proof -
    have "uint (as_u64 l) div 2 ^ 32 < 2 ^ 32"
      using uint_lt2p [of "as_u64 l"] by simp
    then show ?thesis
      by (simp add: file_number_def unsigned_ucast_eq drop_bit_eq_div take_bit_eq_mod uint_div
          mod_pos_pos_trivial pos_imp_zdiv_nonneg_iff)
  qed
  moreover have "uint (file_offset l) = uint (as_u64 l) mod 2 ^ 32"
    by (simp add: file_offset_def unsigned_ucast_eq take_bit_eq_mod)
  ultimately show ?thesis by simp
qed

lemma NULL_LSN_new: "NULL_LSN = Lsn_new MAX_FILE_NUM 0xFFFFFFFF"
  by (simp add: NULL_LSN_def Lsn_new_def MAX_FILE_NUM_def push_bit_eq_mult)

lemma NULL_LSN_iff: "Lsn_is_null l \<longleftrightarrow> as_u64 l = 0xFFFFFFFFFFFFFFFF"
  by (cases l) (simp add: Lsn_is_null_def NULL_LSN_def)

section \<open>Version log sequence numbers\<close>

datatype Vlsn = Vlsn (sequence: i64)

definition NULL_VLSN_SEQUENCE :: i64 where
  "NULL_VLSN_SEQUENCE = -1"

definition NULL_VLSN :: Vlsn where
  "NULL_VLSN = Vlsn NULL_VLSN_SEQUENCE"

definition FIRST_VLSN :: Vlsn where
  "FIRST_VLSN = Vlsn 1"

definition Vlsn_is_null :: "Vlsn \<Rightarrow> bool" where
  "Vlsn_is_null v \<longleftrightarrow> sequence v = NULL_VLSN_SEQUENCE"

definition is_null_seq :: "i64 \<Rightarrow> bool" where
  "is_null_seq seq \<longleftrightarrow> seq = NULL_VLSN_SEQUENCE"

definition Vlsn_next :: "Vlsn \<Rightarrow> panic + Vlsn" where
  "Vlsn_next v =
     (if Vlsn_is_null v then Ok FIRST_VLSN
      else and_then (add_s (sequence v) 1) (\<lambda>s. Ok (Vlsn s)))"

definition Vlsn_prev :: "Vlsn \<Rightarrow> panic + Vlsn" where
  "Vlsn_prev v =
     (if Vlsn_is_null v \<or> sequence v = 1 then Ok NULL_VLSN
      else and_then (sub_s (sequence v) 1) (\<lambda>s. Ok (Vlsn s)))"

definition follows :: "Vlsn \<Rightarrow> Vlsn \<Rightarrow> panic + bool" where
  "follows v other =
     (if Vlsn_is_null other \<and> sequence v = 1 then Ok True
      else if \<not> Vlsn_is_null other then
        and_then (sub_s (sequence v) 1) (\<lambda>s. Ok (sequence other = s))
      else Ok False)"

text \<open>\<open>i64::cmp\<close> is the order of the signed values.\<close>

definition Vlsn_cmp :: "Vlsn \<Rightarrow> Vlsn \<Rightarrow> Ordering" where
  "Vlsn_cmp v other =
     (if sequence v = NULL_VLSN_SEQUENCE \<and> sequence other = NULL_VLSN_SEQUENCE then Equal
      else if sequence v = NULL_VLSN_SEQUENCE then Less
      else if sequence other = NULL_VLSN_SEQUENCE then Greater
      else cmp (sint (sequence v)) (sint (sequence other)))"

instantiation Vlsn :: linorder
begin

definition less_Vlsn :: "Vlsn \<Rightarrow> Vlsn \<Rightarrow> bool" where
  "less_Vlsn v w \<longleftrightarrow> Vlsn_cmp v w = Less"

definition less_eq_Vlsn :: "Vlsn \<Rightarrow> Vlsn \<Rightarrow> bool" where
  "less_eq_Vlsn v w \<longleftrightarrow> Vlsn_cmp v w \<noteq> Greater"

instance
proof
  fix u v w :: Vlsn
  show "u < v \<longleftrightarrow> u \<le> v \<and> \<not> v \<le> u" "u \<le> u" "u \<le> v \<or> v \<le> u"
    by (auto simp: less_Vlsn_def less_eq_Vlsn_def Vlsn_cmp_def)
  show "u \<le> v \<Longrightarrow> v \<le> w \<Longrightarrow> u \<le> w"
    by (auto simp: less_Vlsn_def less_eq_Vlsn_def Vlsn_cmp_def split: if_splits)
  show "u \<le> v \<Longrightarrow> v \<le> u \<Longrightarrow> u = v"
    by (cases u; cases v)
      (auto simp: less_Vlsn_def less_eq_Vlsn_def Vlsn_cmp_def split: if_splits intro: sint_eqI)
qed

end

definition Vlsn_min :: "Vlsn \<Rightarrow> Vlsn \<Rightarrow> Vlsn" where
  "Vlsn_min a b =
     (if Vlsn_is_null a then b
      else if Vlsn_is_null b then a
      else if a \<le> b then a else b)"

definition Vlsn_write_to_log :: "Vlsn \<Rightarrow> bytes" where
  "Vlsn_write_to_log v = le_bytes 8 (sequence v)"

definition Vlsn_read_from_log :: "bytes \<Rightarrow> io_error + (Vlsn \<times> bytes)" where
  "Vlsn_read_from_log r =
     and_then (read_exact 8 r) (\<lambda>(buf, r'). Ok (Vlsn (from_le_bytes buf), r'))"

section \<open>Properties\<close>

subsection \<open>Positions\<close>

lemma Lsn_cmp_null: "a = NULL_LSN \<or> b = NULL_LSN \<Longrightarrow> Lsn_cmp a b = Err Assertion"
  by (auto simp: Lsn_cmp_def Lsn_is_null_def)

lemma Lsn_cmp_raw: "a \<noteq> NULL_LSN \<Longrightarrow> b \<noteq> NULL_LSN \<Longrightarrow> Lsn_cmp a b = Ok (cmp (as_u64 a) (as_u64 b))"
proof -
  have "cmp (as_u64 a) (as_u64 b) =
      (if file_number a = file_number b then cmp (file_offset a) (file_offset b)
       else cmp (file_number a) (file_number b))"
    using uint_lt2p [of "file_offset a"] uint_lt2p [of "file_offset b"]
    by (simp add: cmp_digits uint_Lsn cmp_uint word_eq_iff_unsigned [where 'a = int]
        flip: cmp_uint [of "as_u64 a"])
  then show "a \<noteq> NULL_LSN \<Longrightarrow> b \<noteq> NULL_LSN \<Longrightarrow> Lsn_cmp a b = Ok (cmp (as_u64 a) (as_u64 b))"
    by (auto simp: Lsn_cmp_def Let_def Lsn_is_null_def)
qed

text \<open>
  C24. The accessors invert the constructors, and comparing two positions is comparing the raw
  words; a comparison with the null position fails its assertion.
\<close>

theorem lsn_fields_and_order:
  "file_number (Lsn_new f i) = f \<and> file_offset (Lsn_new f i) = i
   \<and> Lsn_new (file_number a) (file_offset a) = a \<and> from_u64 (as_u64 a) = a
   \<and> Lsn_cmp a b =
       (if a = NULL_LSN \<or> b = NULL_LSN then Err Assertion else Ok (cmp (as_u64 a) (as_u64 b)))"
  by (cases a) (auto simp: Lsn_cmp_raw Lsn_cmp_null from_u64_def)

text \<open>The byte position of an LSN in a log whose files all have the same size.\<close>

definition log_position :: "u64 \<Rightarrow> Lsn \<Rightarrow> int" where
  "log_position log_file_size l =
     (if Lsn_is_null l then 0
      else uint (file_number l) * uint log_file_size + uint (file_offset l))"

lemma calc_diff_ok:
  assumes "0 \<le> uint d * uint sz + uint x - uint y" "uint d * uint sz + uint x < 2 ^ 64"
  shows "\<exists>r. calc_diff d sz x y = Ok r \<and> uint r = uint d * uint sz + uint x - uint y"
proof -
  have m: "uint d * uint sz < 2 ^ 64"
    using assms(2) uint_ge_0 [of x] by linarith
  have u: "uint (d * sz) = uint d * uint sz"
    using m by (simp add: uint_word_ariths)
  have v: "uint (d * sz + x) = uint d * uint sz + uint x"
    using assms(2) u by (simp add: uint_word_ariths)
  show ?thesis
    using assms m u v
    by (simp add: calc_diff_def mul_u_def add_u_def sub_u_def word_le_def uint_sub_if')
qed

lemma calc_diff_within:
  assumes "0 < uint a" "uint a < 2 ^ 32" "uint x < uint sz" "uint y < uint sz" "uint sz \<le> 2 ^ 32"
  shows "\<exists>d. calc_diff a sz x y = Ok d \<and> uint d = uint a * uint sz + uint x - uint y"
proof -
  have "uint a * uint sz \<le> (2 ^ 32 - 1) * 2 ^ 32"
    using assms(2,5) by (intro mult_mono) auto
  then have "uint a * uint sz + uint x < 2 ^ 64" using assms(3,5) by simp
  moreover have "1 * uint sz \<le> uint a * uint sz" using assms(1) by (intro mult_right_mono) auto
  then have "0 \<le> uint a * uint sz + uint x - uint y" using assms(4) uint_ge_0 [of x] by linarith
  ultimately show ?thesis by (intro calc_diff_ok)
qed

text \<open>
  C25. When offsets stay within a log file and files have at most 4 GiB, the distance of two
  positions is the difference of their byte positions and is computed without overflow; the
  null position counts as the start of the log when it is the other side.
\<close>

theorem no_cleaning_distance_correct:
  assumes "\<not> Lsn_is_null l" "uint sz \<le> 2 ^ 32" "ucast (file_offset l) < sz"
    and "Lsn_is_null other \<or> ucast (file_offset other) < sz"
  shows "\<exists>d. no_cleaning_distance l other sz = Ok d
             \<and> uint d = \<bar>log_position sz l - log_position sz other\<bar>"
proof -
  define f where "f = uint (file_number l)"
  define g where "g = (if Lsn_is_null other then 0 else uint (file_number other))"
  define i where "i = uint (file_offset l)"
  define j where "j = (if Lsn_is_null other then 0 else uint (file_offset other))"
  have bounds: "0 \<le> f" "f < 2 ^ 32" "0 \<le> g" "g < 2 ^ 32" "0 \<le> i" "i < uint sz" "0 \<le> j" "j < uint sz"
    using uint_lt2p [of "file_number l"] uint_lt2p [of "file_number other"]
      uint_ge_0 [of "file_offset l"] assms
    by (auto simp: f_def g_def i_def j_def word_less_def uint_ucast_up intro: le_less_trans)
  have pos: "log_position sz l = f * uint sz + i" "log_position sz other = g * uint sz + j"
    using assms(1) by (auto simp: log_position_def f_def g_def i_def j_def)
  define F where "F = (ucast (file_number l) :: u64)"
  define G where "G = (if Lsn_is_null other then 0 else ucast (file_number other) :: u64)"
  define I where "I = (ucast (file_offset l) :: u64)"
  define J where "J = (if Lsn_is_null other then 0 else ucast (file_offset other) :: u64)"
  have u: "uint F = f" "uint G = g" "uint I = i" "uint J = j"
    by (auto simp: F_def G_def I_def J_def f_def g_def i_def j_def uint_ucast_up)
  have eq: "no_cleaning_distance l other sz =
      (if F = G then Ok (abs_diff I J)
       else if G < F then calc_diff (F - G) sz I J else calc_diff (G - F) sz J I)"
    using assms(1) by (auto simp: no_cleaning_distance_def Let_def F_def G_def I_def J_def)
  consider "f = g" | "g < f" | "f < g" by linarith
  then show ?thesis
  proof cases
    case 1
    then have "F = G" using u by (simp add: word_eq_iff_unsigned [where 'a = int])
    with 1 show ?thesis by (simp add: eq uint_abs_diff u pos)
  next
    case 2
    then have "G < F" and s: "uint (F - G) = f - g"
      using u by (auto simp: word_less_def uint_sub_if')
    moreover have "\<bar>f * uint sz + i - (g * uint sz + j)\<bar> = (f - g) * uint sz + i - j"
      using digits_less [of g f j "uint sz" i] 2 bounds by (simp add: left_diff_distrib)
    ultimately show ?thesis
      using calc_diff_within [of "F - G" I sz J] 2 bounds u assms(2) by (auto simp: eq pos s)
  next
    case 3
    then have "F < G" and s: "uint (G - F) = g - f"
      using u by (auto simp: word_less_def uint_sub_if')
    moreover have "\<bar>f * uint sz + i - (g * uint sz + j)\<bar> = (g - f) * uint sz + j - i"
      using digits_less [of f g i "uint sz" j] 3 bounds by (simp add: left_diff_distrib)
    ultimately show ?thesis
      using calc_diff_within [of "G - F" J sz I] 3 bounds u assms(2) by (auto simp: eq pos s)
  qed
qed

theorem no_cleaning_distance_correct_witness:
  "\<exists>d. no_cleaning_distance (Lsn_new 3 100) (Lsn_new 1 200) 1000 = Ok d
     \<and> uint d = \<bar>log_position 1000 (Lsn_new 3 100) - log_position 1000 (Lsn_new 1 200)\<bar>"
  by (rule no_cleaning_distance_correct)
    (simp_all add: Lsn_is_null_def NULL_LSN_new Lsn_eq_iff MAX_FILE_NUM_def)

subsection \<open>Made-up lock ids\<close>

text \<open>
  C26. The three families of made-up lock ids are disjoint from each other, from the null
  position and from every position of a log with fewer than \<open>0xFFFFFFFD\<close> files.  Within a
  family ids may collide: the names \<open>costarring\<close> and \<open>liquid\<close> share a lock id.
\<close>

theorem lock_id_families_disjoint:
  "distinct [synthetic_key_lock_id d k, eof_lock_lsn e, name_lock_id n, as_u64 NULL_LSN]
   \<and> (file_number l < 0xFFFFFFFD \<longrightarrow>
        as_u64 l \<notin> {synthetic_key_lock_id d k, eof_lock_lsn e, name_lock_id n})
   \<and> is_transient (from_u64 (synthetic_key_lock_id d k))
   \<and> name_lock_id (map of_char ''costarring'') = name_lock_id (map of_char ''liquid'')"
proof -
  have eq_iff: "as_u64 a = as_u64 b \<longleftrightarrow> file_number a = file_number b \<and> file_offset a = file_offset b" for a b
    by (metis Lsn_eqI Lsn_eq_iff)
  have "name_lock_id (map of_char ''costarring'') = name_lock_id (map of_char ''liquid'')"
    by code_simp
  then show ?thesis
    by (auto simp: synthetic_key_lock_id_def eof_lock_lsn_def name_lock_id_def Let_def
        NULL_LSN_new eq_iff MAX_FILE_NUM_def is_transient_def from_u64_def)
qed

theorem lock_id_families_disjoint_witness:
  "file_number (Lsn_new 7 100) < 0xFFFFFFFD
   \<and> as_u64 (Lsn_new 7 100) \<notin> {synthetic_key_lock_id 5 [1, 2], eof_lock_lsn 5, name_lock_id [3]}"
  using lock_id_families_disjoint [of 5 "[1, 2]" 5 "[3]" "Lsn_new 7 100"] by simp


subsection \<open>Sequence numbers\<close>

lemma Vlsn_log_roundtrip: "Vlsn_read_from_log (Vlsn_write_to_log v @ r) = Ok (v, r)"
  by (simp add: Vlsn_read_from_log_def Vlsn_write_to_log_def)

lemma null_iff_sint: "Vlsn_is_null v \<longleftrightarrow> sint (sequence v) = -1"
  using sint_eqI [of "sequence v" "-1"] by (auto simp: Vlsn_is_null_def NULL_VLSN_SEQUENCE_def)

lemma Vlsn_eqI: "sint (sequence v) = sint (sequence w) \<Longrightarrow> v = w"
  by (cases v; cases w) (auto intro: sint_eqI)

lemma sub_one: "sint w = sint (v :: i64) + 1 \<Longrightarrow> sub_s w 1 = Ok v"
  by (simp add: sint_sub_s)

lemma Vlsn_less_iff:
  "v < w \<longleftrightarrow> (if Vlsn_is_null v then \<not> Vlsn_is_null w
               else \<not> Vlsn_is_null w \<and> sint (sequence v) < sint (sequence w))"
  by (auto simp: less_Vlsn_def Vlsn_cmp_def Vlsn_is_null_def)

lemma Vlsn_next_sint:
  assumes "Vlsn_is_null v \<or> 0 \<le> sint (sequence v)" "sint (sequence v) < 2 ^ 63 - 1"
  shows "\<exists>w. Vlsn_next v = Ok w \<and>
    sint (sequence w) = (if Vlsn_is_null v then 1 else sint (sequence v) + 1)"
proof (cases "Vlsn_is_null v")
  case True
  then show ?thesis by (simp add: Vlsn_next_def FIRST_VLSN_def)
next
  case False
  then obtain s where "add_s (sequence v) 1 = Ok s" and "sint s = sint (sequence v) + 1"
    using add_s_fits [of "sequence v" 1] assms by (auto simp: fits_s_def)
  with False show ?thesis by (simp add: Vlsn_next_def)
qed

text \<open>
  C27. The successor of a sequence number exists below the largest one, is the only one that
  follows it, is greater, and its predecessor is the number again unless that was the
  uninitialised zero; the null number precedes every other one and is ignored by the minimum.
  A sequence number read from the log is the one written.
\<close>

theorem vlsn_successor:
  assumes "Vlsn_is_null v \<or> 0 \<le> sint (sequence v)" "sint (sequence v) < 2 ^ 63 - 1"
  shows "\<exists>w. Vlsn_next v = Ok w \<and> v < w \<and> follows w v = Ok True
     \<and> (sequence v \<noteq> 0 \<longrightarrow> Vlsn_prev w = Ok v)
     \<and> (\<forall>u. follows u v = Ok True \<longrightarrow> u = w)
     \<and> (\<forall>u. 0 < sint (sequence u) \<and> v < u \<longrightarrow> w \<le> u)
     \<and> Vlsn_min v NULL_VLSN = v \<and> Vlsn_min NULL_VLSN v = v
     \<and> Vlsn_read_from_log (Vlsn_write_to_log v @ r) = Ok (v, r)"
proof -
  obtain w where w: "Vlsn_next v = Ok w"
    and s: "sint (sequence w) = (if Vlsn_is_null v then 1 else sint (sequence v) + 1)"
    using Vlsn_next_sint [OF assms] by blast
  have nn: "\<not> Vlsn_is_null w" using s assms(1) by (auto simp: null_iff_sint)
  have follow: "follows w v = Ok True"
    using s sint_eqI [of "sequence w" 1] by (cases "Vlsn_is_null v") (simp_all add: follows_def sub_one)
  have prev: "Vlsn_prev w = Ok v" if "sequence v \<noteq> 0"
  proof (cases "Vlsn_is_null v")
    case True
    then show ?thesis
      using s sint_eqI [of "sequence w" 1] Vlsn_eqI [of v NULL_VLSN]
      by (simp add: Vlsn_prev_def Vlsn_is_null_def NULL_VLSN_def NULL_VLSN_SEQUENCE_def)
  next
    case False
    then have "sequence w \<noteq> 1" using s that sint_eqI [of "sequence v" 0] by auto
    then show ?thesis using nn False s by (simp add: Vlsn_prev_def sub_one)
  qed
  have only: "u = w" if "follows u v = Ok True" for u
    using that s by (auto simp: follows_def and_then_eq_Inr sint_sub_s split: if_splits intro!: Vlsn_eqI)
  have less: "v < w" using nn s by (auto simp: Vlsn_less_iff)
  have least: "w \<le> u" if "0 < sint (sequence u)" "v < u" for u
    using that nn s by (auto simp: Vlsn_less_iff not_less [symmetric] split: if_splits)
  have mins: "Vlsn_min v NULL_VLSN = v" "Vlsn_min NULL_VLSN v = v"
    using Vlsn_eqI [of v NULL_VLSN] by (auto simp: Vlsn_min_def NULL_VLSN_def Vlsn_is_null_def)
  show ?thesis
    by (intro exI [of _ w] conjI allI impI w less follow prev only least mins Vlsn_log_roundtrip) simp_all
qed

theorem vlsn_successor_witness:
  "\<exists>w. Vlsn_next (Vlsn 41) = Ok w \<and> Vlsn 41 < w \<and> Vlsn_prev w = Ok (Vlsn 41)"
  using vlsn_successor [of "Vlsn 41" "[]"] by auto

end
