(* ===== verification/Packed_Integer.thy ===== *)
theory Packed_Integer
  imports Machine_Bytes
begin

text \<open>
  Variable-length integers (\<open>crates/noxu-util/src/packed.rs\<close>): the packed format, which is
  compact for small values, and the sorted format, whose byte order is the order of the values,
  with the sorted floating-point formats.  Signed integers are words read by \<open>sint\<close>; floating
  point numbers are their bits.  Writers append to a byte string and return what they append;
  readers take the input and return the value and the rest of the input.
\<close>

section \<open>Loops over value bytes\<close>

text \<open>
  The loop \<open>mag |= (byte as u32) << (i * 8)\<close> over the next \<open>n\<close> bytes: a shift by the width of
  the word or more panics.
\<close>

fun read_le :: "nat \<Rightarrow> nat \<Rightarrow> 'a::len word \<Rightarrow> bytes \<Rightarrow> io_error + ('a word \<times> bytes)" where
  "read_le 0 i mag r = Ok (mag, r)"
| "read_le (Suc n) i mag r =
     and_then (read_exact 1 r) (\<lambda>(byte, r).
       if i * 8 < LENGTH('a) then read_le n (Suc i) (mag OR push_bit (i * 8) (ucast (byte ! 0))) r
       else Err (Panicked ShiftOverflow))"

text \<open>The loop \<open>raw = (raw << 8) | byte\<close>.\<close>

fun read_be :: "nat \<Rightarrow> 'a::len word \<Rightarrow> bytes \<Rightarrow> io_error + ('a word \<times> bytes)" where
  "read_be 0 raw r = Ok (raw, r)"
| "read_be (Suc n) raw r =
     and_then (read_exact 1 r) (\<lambda>(byte, r). read_be n (push_bit 8 raw OR ucast (byte ! 0)) r)"

section \<open>Packed format\<close>

definition packed_i32_size :: "i32 \<Rightarrow> nat" where
  "packed_i32_size val =
     (if -119 \<le> sint val \<and> sint val \<le> 119 then 1
      else
        let mag = (if sint val < -119 then (- val) - 119 else val - 119) in
        if mag AND 0xFFFFFF00 = 0 then 2
        else if mag AND 0xFFFF0000 = 0 then 3
        else if mag AND 0xFF000000 = 0 then 4
        else 5)"

definition write_packed_i32 :: "i32 \<Rightarrow> bytes \<times> nat" where
  "write_packed_i32 val =
     (if -119 \<le> sint val \<and> sint val \<le> 119 then ([ucast val], 1)
      else
        let negative = (sint val < -119);
            mag = (if negative then (- val) - 119 else val - 119);
            n = (if mag AND 0xFFFFFF00 = 0 then 1
                 else if mag AND 0xFFFF0000 = 0 then 2
                 else if mag AND 0xFF000000 = 0 then 3
                 else 4);
            prefix = (if negative then - (119 + of_nat n) else 119 + of_nat n)
        in (prefix # le_bytes n mag, 1 + n))"

text \<open>The sign and the number of value bytes that a first byte outside \<open>[-119, 119]\<close> announces.\<close>

definition packed_prefix :: "i8 \<Rightarrow> panic + (bool \<times> nat)" where
  "packed_prefix b1 =
     (if sint b1 < -119
      then and_then (neg_s b1) (\<lambda>m. and_then (sub_s m 119) (\<lambda>k. Ok (True, unat k)))
      else and_then (sub_s b1 119) (\<lambda>k. Ok (False, unat k)))"

definition packed_value :: "bool \<Rightarrow> 'a::len word \<Rightarrow> panic + 'a word" where
  "packed_value negative mag =
     (if negative then and_then (neg_s mag) (\<lambda>m. sub_s m 119) else add_s mag 119)"

definition read_packed_i32 :: "bytes \<Rightarrow> io_error + (i32 \<times> bytes)" where
  "read_packed_i32 r =
     and_then (read_exact 1 r) (\<lambda>(buf1, r).
       let b1 = buf1 ! 0 in
       if -119 \<le> sint b1 \<and> sint b1 \<le> 119 then Ok (scast b1, r)
       else
         and_then (map_err Panicked (packed_prefix b1)) (\<lambda>(negative, n).
         and_then (read_le n 0 0 r) (\<lambda>(mag, r).
         and_then (map_err Panicked (packed_value negative mag)) (\<lambda>v. Ok (v, r)))))"

definition packed_i64_size :: "i64 \<Rightarrow> nat" where
  "packed_i64_size val =
     (if -119 \<le> sint val \<and> sint val \<le> 119 then 1
      else
        let mag = (if sint val < -119 then (- val) - 119 else val - 119) in
        if mag AND 0xFFFFFFFFFFFFFF00 = 0 then 2
        else if mag AND 0xFFFFFFFFFFFF0000 = 0 then 3
        else if mag AND 0xFFFFFFFFFF000000 = 0 then 4
        else if mag AND 0xFFFFFFFF00000000 = 0 then 5
        else if mag AND 0xFFFFFF0000000000 = 0 then 6
        else if mag AND 0xFFFF000000000000 = 0 then 7
        else if mag AND 0xFF00000000000000 = 0 then 8
        else 9)"

definition write_packed_i64 :: "i64 \<Rightarrow> bytes \<times> nat" where
  "write_packed_i64 val =
     (if -119 \<le> sint val \<and> sint val \<le> 119 then ([ucast val], 1)
      else
        let negative = (sint val < -119);
            mag = (if negative then (- val) - 119 else val - 119);
            n = (if mag AND 0xFFFFFFFFFFFFFF00 = 0 then 1
                 else if mag AND 0xFFFFFFFFFFFF0000 = 0 then 2
                 else if mag AND 0xFFFFFFFFFF000000 = 0 then 3
                 else if mag AND 0xFFFFFFFF00000000 = 0 then 4
                 else if mag AND 0xFFFFFF0000000000 = 0 then 5
                 else if mag AND 0xFFFF000000000000 = 0 then 6
                 else if mag AND 0xFF00000000000000 = 0 then 7
                 else 8);
            prefix = (if negative then - (119 + of_nat n) else 119 + of_nat n)
        in (prefix # le_bytes n mag, 1 + n))"

definition read_packed_i64 :: "bytes \<Rightarrow> io_error + (i64 \<times> bytes)" where
  "read_packed_i64 r =
     and_then (read_exact 1 r) (\<lambda>(buf1, r).
       let b1 = buf1 ! 0 in
       if -119 \<le> sint b1 \<and> sint b1 \<le> 119 then Ok (scast b1, r)
       else
         and_then (map_err Panicked (packed_prefix b1)) (\<lambda>(negative, n).
         and_then (read_le n 0 0 r) (\<lambda>(mag, r).
         and_then (map_err Panicked (packed_value negative mag)) (\<lambda>v. Ok (v, r)))))"

section \<open>Sorted format\<close>

definition write_sorted_i32 :: "i32 \<Rightarrow> bytes" where
  "write_sorted_i32 val =
     (if -119 \<le> sint val \<and> sint val \<le> 120 then [ucast (val + 127)]
      else if sint val > 120 then
        (let adj = val - 121;
             n = (if adj AND 0xFF000000 \<noteq> 0 then 4
                  else if adj AND 0xFFFF0000 \<noteq> 0 then 3
                  else if adj AND 0xFFFFFF00 \<noteq> 0 then 2
                  else 1)
         in (0xF7 + of_nat n) # be_bytes n adj)
      else
        (let uadj = val + 119;
             n = (if (uadj OR 0x00FFFFFF) \<noteq> 0xFFFFFFFF then 4
                  else if (uadj OR 0x0000FFFF) \<noteq> 0xFFFFFFFF then 3
                  else if (uadj OR 0x000000FF) \<noteq> 0xFFFFFFFF then 2
                  else 1)
         in (0x08 - of_nat n) # be_bytes n uadj))"

definition read_sorted_i32 :: "bytes \<Rightarrow> io_error + (i32 \<times> bytes)" where
  "read_sorted_i32 r =
     and_then (read_exact 1 r) (\<lambda>(buf1, r).
       let b1 = buf1 ! 0 in
       if b1 < 0x08 then
         and_then (read_be (unat (0x08 - b1)) 0xFFFFFFFF r) (\<lambda>(raw, r).
         and_then (map_err Panicked (sub_s raw 119)) (\<lambda>v. Ok (v, r)))
       else if b1 > 0xF7 then
         and_then (read_be (unat (b1 - 0xF7)) 0 r) (\<lambda>(raw, r).
         and_then (map_err Panicked (add_s raw 121)) (\<lambda>v. Ok (v, r)))
       else Ok (ucast b1 - 127, r))"

definition write_sorted_i64 :: "i64 \<Rightarrow> bytes" where
  "write_sorted_i64 val =
     (if -119 \<le> sint val \<and> sint val \<le> 120 then [ucast (val + 127)]
      else if sint val > 120 then
        (let adj = val - 121;
             n = (if adj AND 0xFF00000000000000 \<noteq> 0 then 8
                  else if adj AND 0xFFFF000000000000 \<noteq> 0 then 7
                  else if adj AND 0xFFFFFF0000000000 \<noteq> 0 then 6
                  else if adj AND 0xFFFFFFFF00000000 \<noteq> 0 then 5
                  else if adj AND 0xFFFFFFFFFF000000 \<noteq> 0 then 4
                  else if adj AND 0xFFFFFFFFFFFF0000 \<noteq> 0 then 3
                  else if adj AND 0xFFFFFFFFFFFFFF00 \<noteq> 0 then 2
                  else 1)
         in (0xF7 + of_nat n) # be_bytes n adj)
      else
        (let uadj = val + 119;
             n = (if (uadj OR 0x00FFFFFFFFFFFFFF) \<noteq> 0xFFFFFFFFFFFFFFFF then 8
                  else if (uadj OR 0x0000FFFFFFFFFFFF) \<noteq> 0xFFFFFFFFFFFFFFFF then 7
                  else if (uadj OR 0x000000FFFFFFFFFF) \<noteq> 0xFFFFFFFFFFFFFFFF then 6
                  else if (uadj OR 0x00000000FFFFFFFF) \<noteq> 0xFFFFFFFFFFFFFFFF then 5
                  else if (uadj OR 0x0000000000FFFFFF) \<noteq> 0xFFFFFFFFFFFFFFFF then 4
                  else if (uadj OR 0x000000000000FFFF) \<noteq> 0xFFFFFFFFFFFFFFFF then 3
                  else if (uadj OR 0x00000000000000FF) \<noteq> 0xFFFFFFFFFFFFFFFF then 2
                  else 1)
         in (0x08 - of_nat n) # be_bytes n uadj))"

definition read_sorted_i64 :: "bytes \<Rightarrow> io_error + (i64 \<times> bytes)" where
  "read_sorted_i64 r =
     and_then (read_exact 1 r) (\<lambda>(buf1, r).
       let b1 = buf1 ! 0 in
       if b1 < 0x08 then
         and_then (read_be (unat (0x08 - b1)) 0xFFFFFFFFFFFFFFFF r) (\<lambda>(raw, r).
         and_then (map_err Panicked (sub_s raw 119)) (\<lambda>v. Ok (v, r)))
       else if b1 > 0xF7 then
         and_then (read_be (unat (b1 - 0xF7)) 0 r) (\<lambda>(raw, r).
         and_then (map_err Panicked (add_s raw 121)) (\<lambda>v. Ok (v, r)))
       else Ok (ucast b1 - 127, r))"

text \<open>Floating-point numbers, by \<open>to_bits\<close> and \<open>from_bits\<close>.\<close>

definition write_sorted_f32 :: "u32 \<Rightarrow> bytes" where
  "write_sorted_f32 bits =
     (let encoded = (if bits AND 0x80000000 \<noteq> 0 then NOT bits else bits XOR 0x80000000)
      in be_bytes 4 encoded)"

definition read_sorted_f32 :: "bytes \<Rightarrow> io_error + (u32 \<times> bytes)" where
  "read_sorted_f32 r =
     and_then (read_exact 4 r) (\<lambda>(buf, r).
       let encoded = from_be_bytes buf;
           bits = (if encoded AND 0x80000000 \<noteq> 0 then encoded XOR 0x80000000 else NOT encoded)
       in Ok (bits, r))"

definition write_sorted_f64 :: "u64 \<Rightarrow> bytes" where
  "write_sorted_f64 bits =
     (let encoded = (if bits AND 0x8000000000000000 \<noteq> 0 then NOT bits else bits XOR 0x8000000000000000)
      in be_bytes 8 encoded)"

definition read_sorted_f64 :: "bytes \<Rightarrow> io_error + (u64 \<times> bytes)" where
  "read_sorted_f64 r =
     and_then (read_exact 8 r) (\<lambda>(buf, r).
       let encoded = from_be_bytes buf;
           bits = (if encoded AND 0x8000000000000000 \<noteq> 0 then encoded XOR 0x8000000000000000
                   else NOT encoded)
       in Ok (bits, r))"

section \<open>The number of value bytes\<close>

fun byte_len :: "nat \<Rightarrow> nat" where
  "byte_len m = (if m < 256 then 1 else Suc (byte_len (m div 256)))"

declare byte_len.simps [simp del]

lemma byte_len_pos: "0 < byte_len m"
  by (subst byte_len.simps) simp

lemma byte_len_le_iff: "0 < n \<Longrightarrow> byte_len m \<le> n \<longleftrightarrow> m < 256 ^ n"
proof (induction m arbitrary: n rule: byte_len.induct)
  case (1 m)
  show ?case
  proof (cases "m < 256")
    case True
    then show ?thesis using 1(2) self_le_power [of "256 :: nat" n] by (simp add: byte_len.simps [of m])
  next
    case False
    then obtain k where n: "n = Suc k" using 1(2) by (cases n) auto
    show ?thesis
    proof (cases k)
      case 0
      then show ?thesis using False n byte_len_pos [of "m div 256"] by (simp add: byte_len.simps [of m])
    next
      case (Suc j)
      then have "byte_len (m div 256) \<le> k \<longleftrightarrow> m div 256 < 256 ^ k" using 1(1) False by simp
      then show ?thesis using False n by (simp add: byte_len.simps [of m] div_less_iff_less_mult mult.commute)
    qed
  qed
qed

lemma less_byte_len: "m < 256 ^ byte_len m"
  by (simp flip: byte_len_le_iff [OF byte_len_pos])

lemma byte_len_mono: "m \<le> m' \<Longrightarrow> byte_len m \<le> byte_len m'"
  by (rule iffD2 [OF byte_len_le_iff [OF byte_len_pos] le_less_trans [OF _ less_byte_len]])

lemma byte_len_eqI:
  assumes "0 < n" "m < 256 ^ n" "n = 1 \<or> \<not> m < 256 ^ (n - 1)"
  shows "byte_len m = n"
proof -
  have "byte_len m \<le> n" using assms(1,2) by (rule iffD2 [OF byte_len_le_iff])
  moreover have "n = 1 \<or> \<not> byte_len m \<le> n - 1"
    using assms(1,3) byte_len_le_iff [of "n - 1" m] by linarith
  ultimately show ?thesis using byte_len_pos [of m] by linarith
qed

lemma and_not_mask_iff: "w AND NOT (mask k) = 0 \<longleftrightarrow> unat w < 2 ^ k" for w :: "'a::len word"
proof -
  have "w AND NOT (mask k) = 0 \<longleftrightarrow> take_bit k w = w"
    by (auto simp: bit_eq_iff bit_simps)
  also have "\<dots> \<longleftrightarrow> unat w < 2 ^ k"
    by (metis take_bit_nat_eq_self_iff unsigned_take_bit_eq unsigned_word_eqI [where 'a = nat])
  finally show ?thesis .
qed

lemma or_mask_iff: "w OR mask k = -1 \<longleftrightarrow> unat (NOT w) < 2 ^ k" for w :: "'a::len word"
proof -
  have "w OR mask k = -1 \<longleftrightarrow> NOT w AND NOT (mask k) = 0"
    by (auto simp: bit_eq_iff bit_simps)
  then show ?thesis by (simp add: and_not_mask_iff)
qed

lemma mask_consts_32:
  "0xFFFFFF00 = NOT (mask 8 :: u32)"
  "0xFFFF0000 = NOT (mask 16 :: u32)"
  "0xFF000000 = NOT (mask 24 :: u32)"
  "0x000000FF = (mask 8 :: u32)"
  "0x0000FFFF = (mask 16 :: u32)"
  "0x00FFFFFF = (mask 24 :: u32)"
  "0xFFFFFFFF = (-1 :: u32)"
  by (simp_all add: mask_eq_exp_minus_1)

lemma mask_consts_64:
  "0xFFFFFFFFFFFFFF00 = NOT (mask 8 :: u64)"
  "0xFFFFFFFFFFFF0000 = NOT (mask 16 :: u64)"
  "0xFFFFFFFFFF000000 = NOT (mask 24 :: u64)"
  "0xFFFFFFFF00000000 = NOT (mask 32 :: u64)"
  "0xFFFFFF0000000000 = NOT (mask 40 :: u64)"
  "0xFFFF000000000000 = NOT (mask 48 :: u64)"
  "0xFF00000000000000 = NOT (mask 56 :: u64)"
  "0x00000000000000FF = (mask 8 :: u64)"
  "0x000000000000FFFF = (mask 16 :: u64)"
  "0x0000000000FFFFFF = (mask 24 :: u64)"
  "0x00000000FFFFFFFF = (mask 32 :: u64)"
  "0x000000FFFFFFFFFF = (mask 40 :: u64)"
  "0x0000FFFFFFFFFFFF = (mask 48 :: u64)"
  "0x00FFFFFFFFFFFFFF = (mask 56 :: u64)"
  "0xFFFFFFFFFFFFFFFF = (-1 :: u64)"
  by (simp_all add: mask_eq_exp_minus_1)

lemma byte_len_table:
  "m < 256 \<Longrightarrow> byte_len m = 1"
  "\<not> m < 256 \<Longrightarrow> m < 65536 \<Longrightarrow> byte_len m = 2"
  "\<not> m < 65536 \<Longrightarrow> m < 16777216 \<Longrightarrow> byte_len m = 3"
  "\<not> m < 16777216 \<Longrightarrow> m < 4294967296 \<Longrightarrow> byte_len m = 4"
  "\<not> m < 4294967296 \<Longrightarrow> m < 1099511627776 \<Longrightarrow> byte_len m = 5"
  "\<not> m < 1099511627776 \<Longrightarrow> m < 281474976710656 \<Longrightarrow> byte_len m = 6"
  "\<not> m < 281474976710656 \<Longrightarrow> m < 72057594037927936 \<Longrightarrow> byte_len m = 7"
  "\<not> m < 72057594037927936 \<Longrightarrow> m < 18446744073709551616 \<Longrightarrow> byte_len m = 8"
  using byte_len_eqI [of 1 m] byte_len_eqI [of 2 m] byte_len_eqI [of 3 m] byte_len_eqI [of 4 m] byte_len_eqI [of 5 m] byte_len_eqI [of 6 m] byte_len_eqI [of 7 m] byte_len_eqI [of 8 m] by simp_all

lemma value_bytes_32:
  fixes w :: u32
  shows "(if w AND 0xFFFFFF00 = 0 then 1 else if w AND 0xFFFF0000 = 0 then 2 else if w AND 0xFF000000 = 0 then 3 else 4) = byte_len (unat w)"
    and "(if w AND 0xFF000000 \<noteq> 0 then 4 else if w AND 0xFFFF0000 \<noteq> 0 then 3 else if w AND 0xFFFFFF00 \<noteq> 0 then 2 else 1) = byte_len (unat w)"
    and "(if (w OR 0x00FFFFFF) \<noteq> 0xFFFFFFFF then 4 else if (w OR 0x0000FFFF) \<noteq> 0xFFFFFFFF then 3 else if (w OR 0x000000FF) \<noteq> 0xFFFFFFFF then 2 else 1) = byte_len (unat (NOT w))"
  using unat_bound [of w] unat_bound [of "NOT w"]
  unfolding mask_consts_32 and_not_mask_iff or_mask_iff
  by (simp_all add: byte_len_table)

lemma value_bytes_64:
  fixes w :: u64
  shows "(if w AND 0xFFFFFFFFFFFFFF00 = 0 then 1 else if w AND 0xFFFFFFFFFFFF0000 = 0 then 2 else if w AND 0xFFFFFFFFFF000000 = 0 then 3 else if w AND 0xFFFFFFFF00000000 = 0 then 4 else if w AND 0xFFFFFF0000000000 = 0 then 5 else if w AND 0xFFFF000000000000 = 0 then 6 else if w AND 0xFF00000000000000 = 0 then 7 else 8) = byte_len (unat w)"
    and "(if w AND 0xFF00000000000000 \<noteq> 0 then 8 else if w AND 0xFFFF000000000000 \<noteq> 0 then 7 else if w AND 0xFFFFFF0000000000 \<noteq> 0 then 6 else if w AND 0xFFFFFFFF00000000 \<noteq> 0 then 5 else if w AND 0xFFFFFFFFFF000000 \<noteq> 0 then 4 else if w AND 0xFFFFFFFFFFFF0000 \<noteq> 0 then 3 else if w AND 0xFFFFFFFFFFFFFF00 \<noteq> 0 then 2 else 1) = byte_len (unat w)"
    and "(if (w OR 0x00FFFFFFFFFFFFFF) \<noteq> 0xFFFFFFFFFFFFFFFF then 8 else if (w OR 0x0000FFFFFFFFFFFF) \<noteq> 0xFFFFFFFFFFFFFFFF then 7 else if (w OR 0x000000FFFFFFFFFF) \<noteq> 0xFFFFFFFFFFFFFFFF then 6 else if (w OR 0x00000000FFFFFFFF) \<noteq> 0xFFFFFFFFFFFFFFFF then 5 else if (w OR 0x0000000000FFFFFF) \<noteq> 0xFFFFFFFFFFFFFFFF then 4 else if (w OR 0x000000000000FFFF) \<noteq> 0xFFFFFFFFFFFFFFFF then 3 else if (w OR 0x00000000000000FF) \<noteq> 0xFFFFFFFFFFFFFFFF then 2 else 1) = byte_len (unat (NOT w))"
  using unat_bound [of w] unat_bound [of "NOT w"]
  unfolding mask_consts_64 and_not_mask_iff or_mask_iff
  by (simp_all add: byte_len_table)

section \<open>The loops on encoded bytes\<close>

lemma take_bit_step:
  "take_bit (i * 8) w OR push_bit (i * 8) (ucast (byte_at i w)) = take_bit (Suc i * 8) (w :: 'a::len word)"
  by (rule bit_eqI) (auto simp: bit_simps bit_byte_at not_le not_less)

lemma read_le_bytes:
  "(i + n) * 8 \<le> LENGTH('a) \<Longrightarrow>
   read_le n i (take_bit (i * 8) w) (map (\<lambda>i. byte_at i w) [i..<i + n] @ r) =
     Ok (take_bit ((i + n) * 8) (w :: 'a::len word), r)"
proof (induction n arbitrary: i)
  case (Suc n)
  then show ?case
    using Suc.IH [of "Suc i"] by (simp add: upt_rec [of i] read_exact_def take_bit_step del: upt_Suc)
qed simp

lemma read_le_roundtrip:
  assumes "n * 8 \<le> LENGTH('a)" "unat w < 2 ^ (n * 8)"
  shows "read_le n 0 0 (le_bytes n w @ r) = Ok (w :: 'a::len word, r)"
proof -
  have "take_bit (n * 8) w = w"
    using assms(2) by (metis take_bit_nat_eq_self_iff unsigned_take_bit_eq unsigned_word_eqI [where 'a = nat])
  then show ?thesis
    using read_le_bytes [of 0 n w r] assms(1) by (simp add: le_bytes_def)
qed

lemma read_le_short:
  "length r < n \<Longrightarrow> (i + n) * 8 \<le> LENGTH('a) \<Longrightarrow>
   read_le n i (mag :: 'a::len word) r = Err UnexpectedEof"
proof (induction n arbitrary: i mag r)
  case (Suc n)
  then show ?case by (cases r) (auto simp: read_exact_def)
qed simp

lemma read_be_positive:
  "read_be n (drop_bit (n * 8) w) (be_bytes n w @ r) = Ok (w :: 'a::len word, r)"
proof (induction n)
  case (Suc n)
  have "push_bit 8 (drop_bit (Suc n * 8) w) OR ucast (byte_at n w) = drop_bit (n * 8) w"
    by (rule bit_eqI) (auto simp: bit_simps bit_byte_at not_le not_less add.commute)
  with Suc show ?case by (simp add: read_exact_def)
qed simp

lemma read_be_negative:
  "n * 8 \<le> LENGTH('a) \<Longrightarrow>
   read_be n (NOT (drop_bit (n * 8) (NOT w))) (be_bytes n w @ r) = Ok (w :: 'a::len word, r)"
proof (induction n)
  case (Suc n)
  have "push_bit 8 (NOT (drop_bit (Suc n * 8) (NOT w))) OR ucast (byte_at n w)
      = NOT (drop_bit (n * 8) (NOT w))"
    using Suc.prems by (intro bit_eqI) (auto simp: bit_simps bit_byte_at not_le not_less add.commute)
  with Suc show ?case by (simp add: read_exact_def)
qed simp

lemma read_be_short: "length r < n \<Longrightarrow> read_be n raw r = Err UnexpectedEof"
proof (induction n arbitrary: raw r)
  case (Suc n)
  then show ?case by (cases r) (auto simp: read_exact_def)
qed simp

section \<open>Packed format: one description of both widths\<close>

text \<open>
  The widths differ only in the tests that count the value bytes; \<open>packed_bytes\<close> and
  \<open>read_packed\<close> describe both.
\<close>

definition packed_mag :: "'a::len word \<Rightarrow> 'a word" where
  "packed_mag val = (if sint val < -119 then (- val) - 119 else val - 119)"

definition packed_bytes :: "'a::len word \<Rightarrow> bytes" where
  "packed_bytes val =
     (if -119 \<le> sint val \<and> sint val \<le> 119 then [ucast val]
      else let n = byte_len (unat (packed_mag val))
           in (if sint val < -119 then - (119 + of_nat n) else 119 + of_nat n) # le_bytes n (packed_mag val))"

definition read_packed :: "bytes \<Rightarrow> io_error + ('a::len word \<times> bytes)" where
  "read_packed r =
     and_then (read_exact 1 r) (\<lambda>(buf1, r).
       let b1 = buf1 ! 0 in
       if -119 \<le> sint b1 \<and> sint b1 \<le> 119 then Ok (scast b1, r)
       else
         and_then (map_err Panicked (packed_prefix b1)) (\<lambda>(negative, n).
         and_then (read_le n 0 0 r) (\<lambda>(mag, r).
         and_then (map_err Panicked (packed_value negative mag)) (\<lambda>v. Ok (v, r)))))"

lemma write_packed_i32_eq: "write_packed_i32 val = (packed_bytes val, length (packed_bytes val))"
  unfolding write_packed_i32_def packed_bytes_def packed_mag_def Let_def value_bytes_32 by simp

lemma write_packed_i64_eq: "write_packed_i64 val = (packed_bytes val, length (packed_bytes val))"
  unfolding write_packed_i64_def packed_bytes_def packed_mag_def Let_def value_bytes_64 by simp

lemma read_packed_i32_eq: "read_packed_i32 = read_packed"
  by (rule ext) (simp only: read_packed_i32_def read_packed_def)

lemma read_packed_i64_eq: "read_packed_i64 = read_packed"
  by (rule ext) (simp only: read_packed_i64_def read_packed_def)

lemma packed_i32_size_eq: "packed_i32_size val = length (packed_bytes val)"
proof -
  have "packed_i32_size val = snd (write_packed_i32 val)"
    by (simp add: packed_i32_size_def write_packed_i32_def Let_def)
  then show ?thesis by (simp add: write_packed_i32_eq)
qed

lemma packed_i64_size_eq: "packed_i64_size val = length (packed_bytes val)"
proof -
  have "packed_i64_size val = snd (write_packed_i64 val)"
    by (simp add: packed_i64_size_def write_packed_i64_def Let_def)
  then show ?thesis by (simp add: write_packed_i64_eq)
qed

lemma packed_prefix_bytes:
  assumes "1 \<le> n" "n \<le> 8"
  shows "packed_prefix (119 + of_nat n) = Ok (False, n)"
    and "packed_prefix (- (119 + of_nat n)) = Ok (True, n)"
    and "119 < sint (119 + of_nat n :: i8)"
    and "sint (- (119 + of_nat n) :: i8) < -119"
proof -
  have "n \<in> {1, 2, 3, 4, 5, 6, 7, 8}" using assms by auto
  then show "packed_prefix (119 + of_nat n) = Ok (False, n)"
    "packed_prefix (- (119 + of_nat n)) = Ok (True, n)"
    "119 < sint (119 + of_nat n :: i8)" "sint (- (119 + of_nat n) :: i8) < -119"
    by (auto simp: packed_prefix_def neg_s_def sub_s_def fits_s_def)
qed

lemma byte_len_word: "8 dvd LENGTH('a) \<Longrightarrow> byte_len (unat (w :: 'a::len word)) * 8 \<le> LENGTH('a)"
proof (elim dvdE)
  fix k assume k: "LENGTH('a) = 8 * k"
  then have "0 < k" using len_gt_0 [where 'a = 'a] by simp
  moreover have "unat w < 256 ^ k"
    using unat_bound [of w] k by (simp add: power_mult)
  ultimately have "byte_len (unat w) \<le> k" by (rule iffD2 [OF byte_len_le_iff])
  then show ?thesis using k by simp
qed

lemma packed_value_mag:
  fixes val :: "'a::len word"
  assumes "16 \<le> LENGTH('a)" "\<not> (-119 \<le> sint val \<and> sint val \<le> 119)"
  shows "packed_value (sint val < -119) (packed_mag val) = Ok val"
proof (cases "sint val < -119")
  case True
  have "fits_s TYPE('a) (- sint val - 119)"
    using True fits_sint [of val] by (simp add: fits_s_def)
  then have mag: "sint (packed_mag val) = - sint val - 119"
    using sint_word_of_int_fits [of "- sint val - 119", where 'a = 'a] True by (simp add: packed_mag_def)
  then have "fits_s TYPE('a) (- sint (packed_mag val))"
    using True fits_sint [of val] by (simp add: fits_s_def)
  then obtain m where m: "neg_s (packed_mag val) = Ok m" "sint m = sint val + 119"
    using neg_s_fits [of "packed_mag val"] mag by auto
  then have "sub_s m 119 = Ok val" by (simp add: sint_sub_s signed_take_bit_wide assms(1))
  with True m show ?thesis by (simp add: packed_value_def)
next
  case False
  have "fits_s TYPE('a) (sint val - 119)"
    using False assms(2) fits_sint [of val] by (simp add: fits_s_def)
  then have "sint (packed_mag val) = sint val - 119"
    using False by (simp add: packed_mag_def sint_sub_fits signed_take_bit_wide assms(1))
  with False show ?thesis by (simp add: packed_value_def sint_add_s signed_take_bit_wide assms(1))
qed

lemma ucast_scast_u8: "16 \<le> LENGTH('a) \<Longrightarrow> (ucast (w :: 'a::len word) :: u8) = scast w"
  by (intro bit_eqI) (auto simp: bit_simps min_def)

lemma small_byte:
  fixes val :: "'a::len word"
  assumes "16 \<le> LENGTH('a)" "-119 \<le> sint val" "sint val \<le> 119"
  shows "sint (ucast val :: i8) = sint val" and "(scast (ucast val :: i8) :: 'a word) = val"
proof -
  have "fits_s TYPE(8) (sint val)" using assms by (simp add: fits_s_def)
  then have "sint (scast val :: i8) = sint val" using sint_word_of_int_fits by fastforce
  moreover have "(ucast val :: i8) = scast val" using assms(1) by (rule ucast_scast_u8)
  ultimately show "sint (ucast val :: i8) = sint val" by simp
  then show "(scast (ucast val :: i8) :: 'a word) = val"
    by (metis of_int_sint scast_id)
qed

lemma read_packed_bytes:
  fixes val :: "'a::len word"
  assumes "16 \<le> LENGTH('a)" "LENGTH('a) \<le> 64" "8 dvd LENGTH('a)"
  shows "read_packed (packed_bytes val @ r) = Ok (val, r)"
proof (cases "-119 \<le> sint val \<and> sint val \<le> 119")
  case True
  then show ?thesis
    using small_byte [OF assms(1)] by (simp add: read_packed_def packed_bytes_def read_exact_def)
next
  case False
  define n where "n = byte_len (unat (packed_mag val))"
  have n: "1 \<le> n" "n * 8 \<le> LENGTH('a)" "unat (packed_mag val) < 2 ^ (n * 8)"
    using byte_len_pos byte_len_word [OF assms(3)] less_byte_len [of "unat (packed_mag val)"]
    by (auto simp: n_def Suc_le_eq power_mult mult.commute [of _ 8])
  then have "n \<le> 8" using assms(2) by simp
  note pre = packed_prefix_bytes [OF n(1) this]
  from False consider "sint val < -119" | "119 < sint val" by linarith
  then show ?thesis
    using packed_value_mag [OF assms(1) False] read_le_roundtrip [OF n(2,3)] pre
    by cases (simp_all add: read_packed_def packed_bytes_def read_exact_def n_def [symmetric] Let_def)
qed

lemma read_packed_truncated:
  fixes val :: "'a::len word"
  assumes "16 \<le> LENGTH('a)" "LENGTH('a) \<le> 64" "8 dvd LENGTH('a)" "k < length (packed_bytes val)"
  shows "(read_packed (take k (packed_bytes val)) :: io_error + ('a word \<times> bytes)) = Err UnexpectedEof"
proof (cases "(-119 \<le> sint val \<and> sint val \<le> 119) \<or> k = 0")
  case True
  then show ?thesis using assms(4) by (auto simp: read_packed_def packed_bytes_def read_exact_def)
next
  case False
  then obtain j where k: "k = Suc j" by (cases k) auto
  define n where "n = byte_len (unat (packed_mag val))"
  have n: "1 \<le> n" "n * 8 \<le> LENGTH('a)"
    using byte_len_pos byte_len_word [OF assms(3)] by (auto simp: n_def Suc_le_eq)
  then have "n \<le> 8" using assms(2) by simp
  note pre = packed_prefix_bytes [OF n(1) this]
  have "j < n" using assms(4) False k by (auto simp: packed_bytes_def n_def Let_def split: if_splits)
  then have short: "read_le n 0 (0 :: 'a word) (take j (le_bytes n (packed_mag val))) = Err UnexpectedEof"
    using n(2) by (intro read_le_short) auto
  from False consider "sint val < -119" | "119 < sint val" by linarith
  then show ?thesis
    using pre short
    by cases (simp_all add: read_packed_def packed_bytes_def read_exact_def n_def [symmetric] Let_def k)
qed

section \<open>Sorted format: order of the encodings\<close>

text \<open>
  A description of both widths over the integers: the value bytes are the big-endian bytes of
  a natural number, complemented for negative values.
\<close>

fun nat_be :: "nat \<Rightarrow> nat \<Rightarrow> bytes" where
  "nat_be 0 m = []"
| "nat_be (Suc n) m = of_nat (m div 256 ^ n) # nat_be n (m mod 256 ^ n)"

definition sorted_bytes :: "int \<Rightarrow> bytes" where
  "sorted_bytes v =
     (if -119 \<le> v \<and> v \<le> 120 then [word_of_int (v + 127)]
      else if 120 < v then
        (let m = nat (v - 121) in of_nat (247 + byte_len m) # nat_be (byte_len m) m)
      else
        (let m = nat (-120 - v) in of_nat (8 - byte_len m) # map NOT (nat_be (byte_len m) m)))"

lemma length_nat_be [simp]: "length (nat_be n m) = n"
  by (induction n arbitrary: m) auto

lemma of_nat_less_u8: "a < 256 \<Longrightarrow> b < 256 \<Longrightarrow> (of_nat a :: u8) < of_nat b \<longleftrightarrow> a < b"
  by (simp add: word_less_nat_alt unsigned_of_nat take_bit_nat_eq_self)

lemma of_int_less_u8: "0 \<le> a \<Longrightarrow> a < 256 \<Longrightarrow> 0 \<le> b \<Longrightarrow> b < 256 \<Longrightarrow>
    (word_of_int a :: u8) < word_of_int b \<longleftrightarrow> a < b"
  by (simp add: word_less_def unsigned_of_int take_bit_int_eq_self)

lemma nat_be_order:
  "a < b \<Longrightarrow> b < 256 ^ n \<Longrightarrow> bytes_less (nat_be n a) (nat_be n b)"
proof (induction n arbitrary: a b)
  case (Suc n)
  have d: "a div 256 ^ n \<le> b div 256 ^ n" using Suc.prems(1) by (simp add: div_le_mono)
  have b: "b div 256 ^ n < 256"
    using Suc.prems(2) by (simp add: div_less_iff_less_mult mult.commute)
  show ?case
  proof (cases "a div 256 ^ n = b div 256 ^ n")
    case True
    then have "a mod 256 ^ n < b mod 256 ^ n"
      using Suc.prems(1) by (metis div_mult_mod_eq nat_add_left_cancel_less)
    then show ?thesis using Suc.IH True by simp
  next
    case False
    then show ?thesis using d b of_nat_less_u8 [of "a div 256 ^ n" "b div 256 ^ n"] by simp
  qed
qed simp

lemma lexordp_map_not:
  "length xs = length ys \<Longrightarrow> bytes_less (map NOT xs) (map NOT ys) \<longleftrightarrow> bytes_less ys xs"
  by (induction xs ys rule: list_induct2) (auto simp: not_less_not)

lemma byte_len_63: "i < 2 ^ 63 \<Longrightarrow> byte_len (nat i) \<le> 8"
  by (intro iffD2 [OF byte_len_le_iff]) auto

lemma sorted_bytes_head:
  assumes "- (2 ^ 63) \<le> v" "v < 2 ^ 63"
  obtains h t where "sorted_bytes v = word_of_int h # t" "0 \<le> h" "h < 256"
    "v < -119 \<Longrightarrow> h \<le> 7" "-119 \<le> v \<Longrightarrow> v \<le> 120 \<Longrightarrow> h = v + 127" "120 < v \<Longrightarrow> 248 \<le> h"
proof -
  consider "v < -119" | "-119 \<le> v" "v \<le> 120" | "120 < v" by linarith
  then show thesis
  proof cases
    case 1
    define n where "n = byte_len (nat (-120 - v))"
    have "1 \<le> n" "n \<le> 8" using byte_len_63 [of "-120 - v"] byte_len_pos 1 assms(1) by (auto simp: n_def Suc_le_eq)
    moreover have "sorted_bytes v = word_of_int (8 - int n) # map NOT (nat_be n (nat (-120 - v)))"
      using 1 calculation by (simp add: sorted_bytes_def n_def Let_def)
    ultimately show thesis using 1 by (intro that [of "8 - int n" "map NOT (nat_be n (nat (-120 - v)))"]) auto
  next
    case 2
    then show thesis by (intro that [of "v + 127" "[]"]) (auto simp: sorted_bytes_def)
  next
    case 3
    define n where "n = byte_len (nat (v - 121))"
    have "1 \<le> n" "n \<le> 8" using byte_len_63 [of "v - 121"] byte_len_pos 3 assms(2) by (auto simp: n_def Suc_le_eq)
    moreover have "sorted_bytes v = word_of_int (247 + int n) # nat_be n (nat (v - 121))"
      using 3 by (simp add: sorted_bytes_def n_def Let_def)
    ultimately show thesis using 3 by (intro that [of "247 + int n" "nat_be n (nat (v - 121))"]) auto
  qed
qed

lemma sorted_bytes_less:
  assumes "v < w" "- (2 ^ 63) \<le> v" "w < 2 ^ 63"
  shows "bytes_less (sorted_bytes v) (sorted_bytes w)"
proof -
  consider "120 < v" | "w < -119" | "v \<le> 120" "-119 \<le> w" by linarith
  then show ?thesis
  proof cases
    case 1
    define a b where "a = nat (v - 121)" and "b = nat (w - 121)"
    have ab: "a < b" "byte_len b \<le> 8" using 1 assms by (auto simp: a_def b_def intro!: byte_len_63)
    then have "byte_len a \<le> byte_len b" by (simp add: byte_len_mono)
    then show ?thesis
      using nat_be_order [OF ab(1) less_byte_len] 1 assms(1) ab(2)
        of_nat_less_u8 [of "247 + byte_len a" "247 + byte_len b"]
      by (cases "byte_len a = byte_len b") (auto simp: sorted_bytes_def a_def [symmetric] b_def [symmetric] Let_def)
  next
    case 2
    define a b where "a = nat (-120 - v)" and "b = nat (-120 - w)"
    have ab: "b < a" "byte_len a \<le> 8" using 2 assms by (auto simp: a_def b_def intro!: byte_len_63)
    then have "byte_len b \<le> byte_len a" by (simp add: byte_len_mono)
    then show ?thesis
      using nat_be_order [OF ab(1) less_byte_len] 2 assms(1) ab(2)
        of_nat_less_u8 [of "8 - byte_len a" "8 - byte_len b"]
      by (cases "byte_len a = byte_len b")
        (auto simp: sorted_bytes_def a_def [symmetric] b_def [symmetric] Let_def lexordp_map_not)
  next
    case 3
    have rv: "v < 2 ^ 63" and rw: "- (2 ^ 63) \<le> w" using assms by auto
    obtain h t where h: "sorted_bytes v = word_of_int h # t" "0 \<le> h" "h < 256"
      "v < -119 \<Longrightarrow> h \<le> 7" "-119 \<le> v \<Longrightarrow> v \<le> 120 \<Longrightarrow> h = v + 127"
      by (rule sorted_bytes_head [OF assms(2) rv]) blast
    obtain k u where k: "sorted_bytes w = word_of_int k # u" "0 \<le> k" "k < 256"
      "-119 \<le> w \<Longrightarrow> w \<le> 120 \<Longrightarrow> k = w + 127" "120 < w \<Longrightarrow> 248 \<le> k"
      by (rule sorted_bytes_head [OF rw assms(3)]) blast
    have "h < k" using h(4,5) k(4,5) 3 assms(1) by linarith
    then show ?thesis using of_int_less_u8 [of h k] h k by simp
  qed
qed

lemma sorted_bytes_less_iff:
  assumes "- (2 ^ 63) \<le> v" "v < 2 ^ 63" "- (2 ^ 63) \<le> w" "w < 2 ^ 63"
  shows "bytes_less (sorted_bytes v) (sorted_bytes w) \<longleftrightarrow> v < w"
  using sorted_bytes_less [of v w] sorted_bytes_less [of w v] assms
  by (cases v w rule: linorder_cases) (auto dest: lexordp_antisym simp: lexordp_irreflexive')

subsection \<open>Both widths\<close>

definition sorted_word :: "'a::len word \<Rightarrow> bytes" where
  "sorted_word val =
     (if -119 \<le> sint val \<and> sint val \<le> 120 then [ucast (val + 127)]
      else if sint val > 120 then
        (let n = byte_len (unat (val - 121)) in (0xF7 + of_nat n) # be_bytes n (val - 121))
      else
        (let n = byte_len (unat (NOT (val + 119))) in (0x08 - of_nat n) # be_bytes n (val + 119)))"

definition read_sorted :: "bytes \<Rightarrow> io_error + ('a::len word \<times> bytes)" where
  "read_sorted r =
     and_then (read_exact 1 r) (\<lambda>(buf1, r).
       let b1 = buf1 ! 0 in
       if b1 < 0x08 then
         and_then (read_be (unat (0x08 - b1)) (-1) r) (\<lambda>(raw, r).
         and_then (map_err Panicked (sub_s raw 119)) (\<lambda>v. Ok (v, r)))
       else if b1 > 0xF7 then
         and_then (read_be (unat (b1 - 0xF7)) 0 r) (\<lambda>(raw, r).
         and_then (map_err Panicked (add_s raw 121)) (\<lambda>v. Ok (v, r)))
       else Ok (ucast b1 - 127, r))"

lemma write_sorted_i32_eq: "write_sorted_i32 = sorted_word"
  by (rule ext) (simp only: write_sorted_i32_def sorted_word_def Let_def value_bytes_32)

lemma write_sorted_i64_eq: "write_sorted_i64 = sorted_word"
  by (rule ext) (simp only: write_sorted_i64_def sorted_word_def Let_def value_bytes_64)

lemma read_sorted_i32_eq: "read_sorted_i32 = read_sorted"
  by (rule ext) (simp only: read_sorted_i32_def read_sorted_def mask_consts_32(7))

lemma read_sorted_i64_eq: "read_sorted_i64 = read_sorted"
  by (rule ext) (simp only: read_sorted_i64_def read_sorted_def mask_consts_64(15))

lemma uint_eq_sint:
  assumes "0 \<le> sint w"
  shows "uint w = sint (w :: 'a::len word)"
proof -
  have "sint w < 2 ^ LENGTH('a)"
    by (rule order_less_le_trans [OF sint_lt power_increasing]) auto
  then show ?thesis using assms by (simp add: uint_sint take_bit_int_eq_self)
qed

lemma byte_at_eq: "byte_at i w = of_nat (unat (w :: 'a::len word) div 256 ^ i)"
proof -
  have "unat w div 256 ^ i = drop_bit (i * 8) (unat w)"
    by (simp add: drop_bit_eq_div power_mult mult.commute [of i])
  then show ?thesis
    by (intro bit_eqI) (auto simp: bit_byte_at bit_simps)
qed

lemma be_bytes_nat: "be_bytes n w = nat_be n (unat w mod 256 ^ n)"
proof (induction n)
  case (Suc n)
  have "unat w mod 256 ^ Suc n div 256 ^ n = unat w div 256 ^ n mod 256"
    using mod_mult2_eq [of "unat w" "256 ^ n" 256] by (simp add: mult.commute)
  moreover have "unat w mod 256 ^ Suc n mod 256 ^ n = unat w mod 256 ^ n"
    by (simp add: mod_mod_cancel)
  moreover have "(of_nat (unat w div 256 ^ n mod 256) :: u8) = of_nat (unat w div 256 ^ n)"
    by (simp add: word_of_nat_eq_iff take_bit_eq_mod)
  ultimately show ?case using Suc by (simp add: byte_at_eq)
qed simp

lemma be_bytes_not: "n * 8 \<le> LENGTH('a) \<Longrightarrow> be_bytes n w = map NOT (be_bytes n (NOT (w :: 'a::len word)))"
proof (induction n)
  case (Suc n)
  have "byte_at n w = NOT (byte_at n (NOT w))"
    using Suc.prems by (intro bit_eqI) (auto simp: bit_byte_at bit_simps)
  with Suc show ?case by simp
qed simp

lemma sorted_word_positive:
  fixes val :: "'a::len word"
  assumes "16 \<le> LENGTH('a)" "120 < sint val"
  shows "sint (val - 121) = sint val - 121" "unat (val - 121) = nat (sint val - 121)"
proof -
  have "fits_s TYPE('a) (sint val - 121)" using assms(2) fits_sint [of val] by (simp add: fits_s_def)
  then show s: "sint (val - 121) = sint val - 121"
    by (simp add: sint_sub_fits signed_take_bit_wide assms(1))
  show "unat (val - 121) = nat (sint val - 121)"
    using uint_eq_sint [of "val - 121"] s assms(2) by (simp flip: nat_uint_eq)
qed

lemma sorted_word_negative:
  fixes val :: "'a::len word"
  assumes "16 \<le> LENGTH('a)" "sint val < -119"
  shows "sint (val + 119) = sint val + 119" "unat (NOT (val + 119)) = nat (-120 - sint val)"
proof -
  have "fits_s TYPE('a) (sint val + 119)" using assms(2) fits_sint [of val] by (simp add: fits_s_def)
  then show s: "sint (val + 119) = sint val + 119"
    by (simp add: sint_add_fits signed_take_bit_wide assms(1))
  have "NOT (val + 119) = word_of_int (-120 - sint val)"
    by (simp add: not_eq_complement)
  moreover have "fits_s TYPE('a) (-120 - sint val)"
    using assms(2) fits_sint [of val] by (simp add: fits_s_def)
  ultimately have "sint (NOT (val + 119)) = -120 - sint val" by (simp only: sint_word_of_int_fits)
  then show "unat (NOT (val + 119)) = nat (-120 - sint val)"
    using uint_eq_sint [of "NOT (val + 119)"] assms(2) by (simp flip: nat_uint_eq)
qed

lemma sorted_word_eq:
  fixes val :: "'a::len word"
  assumes "16 \<le> LENGTH('a)" "LENGTH('a) \<le> 64" "8 dvd LENGTH('a)"
  shows "sorted_word val = sorted_bytes (sint val)"
proof -
  consider "-119 \<le> sint val" "sint val \<le> 120" | "120 < sint val" | "sint val < -119" by linarith
  then show ?thesis
  proof cases
    case 1
    have "sint (val + 127) = sint val + 127"
      using 1 by (simp add: sint_add_fits signed_take_bit_wide fits_wide assms(1))
    then have "(scast (val + 127) :: u8) = word_of_int (sint val + 127)"
      by (metis of_int_sint)
    with 1 show ?thesis
      by (simp add: sorted_word_def sorted_bytes_def ucast_scast_u8 assms(1))
  next
    case 2
    then show ?thesis
      using less_byte_len [of "nat (sint val - 121)"] sorted_word_positive [OF assms(1) 2]
      by (simp add: sorted_word_def sorted_bytes_def be_bytes_nat Let_def)
  next
    case 3
    define m where "m = nat (-120 - sint val)"
    have "byte_len m * 8 \<le> LENGTH('a)"
      using byte_len_word [OF assms(3), of "NOT (val + 119)"] sorted_word_negative [OF assms(1) 3]
      by (simp add: m_def)
    moreover have "byte_len m \<le> 8" using calculation assms(2) by simp
    ultimately show ?thesis
      using 3 less_byte_len [of m] sorted_word_negative [OF assms(1) 3]
        be_bytes_not [of "byte_len m" "val + 119"]
      by (simp add: sorted_word_def sorted_bytes_def be_bytes_nat Let_def m_def [symmetric])
  qed
qed

lemma sorted_first_byte:
  assumes "1 \<le> n" "n \<le> 8"
  shows "\<not> (0xF7 + of_nat n :: u8) < 8" "(0xF7 + of_nat n :: u8) > 0xF7"
    "unat ((0xF7 + of_nat n :: u8) - 0xF7) = n" "(8 - of_nat n :: u8) < 8" "unat (8 - (8 - of_nat n :: u8)) = n"
proof -
  have "n \<in> {1, 2, 3, 4, 5, 6, 7, 8}" using assms by auto
  then show "\<not> (0xF7 + of_nat n :: u8) < 8" "(0xF7 + of_nat n :: u8) > 0xF7"
    "unat ((0xF7 + of_nat n :: u8) - 0xF7) = n" "(8 - of_nat n :: u8) < 8" "unat (8 - (8 - of_nat n :: u8)) = n"
    by auto
qed

lemma drop_bit_byte_len: "drop_bit (byte_len (unat w) * 8) w = (0 :: 'a::len word)"
proof -
  have "unat w < 2 ^ (byte_len (unat w) * 8)"
    using less_byte_len [of "unat w"] by (simp add: power_mult mult.commute [of _ 8])
  then have "unat (drop_bit (byte_len (unat w) * 8) w) = 0"
    by (simp add: unsigned_drop_bit_eq drop_bit_eq_div [where 'a = nat]
        take_bit_nat_eq_self unat_bound)
  then show ?thesis by (simp add: unsigned_eq_0_iff)
qed

lemma read_sorted_word:
  fixes val :: "'a::len word"
  assumes "16 \<le> LENGTH('a)" "LENGTH('a) \<le> 64" "8 dvd LENGTH('a)"
  shows "read_sorted (sorted_word val @ r) = Ok (val, r)"
proof -
  consider "-119 \<le> sint val" "sint val \<le> 120" | "120 < sint val" | "sint val < -119" by linarith
  then show ?thesis
  proof cases
    case 1
    define b where "b = (ucast (val + 127) :: u8)"
    have b: "b = word_of_int (sint val + 127)"
      using 1 sorted_word_eq [OF assms, of val] by (simp add: sorted_word_def sorted_bytes_def b_def)
    then have u: "uint b = sint val + 127"
      using 1 by (simp only: uint_word_of_int_eq take_bit_int_eq_self) (simp add: take_bit_int_eq_self)
    then have "(ucast b :: 'a word) = val + 127"
      by (metis of_int_uint of_int_add of_int_numeral of_int_sint scast_id)
    with 1 u show ?thesis
      by (simp add: sorted_word_def b_def [symmetric] read_sorted_def read_exact_def word_less_def)
  next
    case 2
    define n where "n = byte_len (unat (val - 121))"
    have n: "1 \<le> n" "n \<le> 8"
      using byte_len_word [OF assms(3), of "val - 121"] byte_len_pos assms(2) by (auto simp: n_def Suc_le_eq)
    have "read_be n 0 (be_bytes n (val - 121) @ r) = Ok (val - 121, r)"
      using read_be_positive [of n "val - 121" r] drop_bit_byte_len [of "val - 121"] by (simp add: n_def)
    moreover have "add_s (val - 121) 121 = Ok val"
      using sorted_word_positive [OF assms(1) 2] by (simp add: sint_add_s signed_take_bit_wide assms(1))
    ultimately show ?thesis
      using 2 sorted_first_byte [OF n]
      by (simp add: sorted_word_def n_def [symmetric] read_sorted_def read_exact_def Let_def)
  next
    case 3
    define n where "n = byte_len (unat (NOT (val + 119)))"
    have n: "1 \<le> n" "n * 8 \<le> LENGTH('a)" "n \<le> 8"
      using byte_len_word [OF assms(3), of "NOT (val + 119)"] byte_len_pos assms(2) by (auto simp: n_def Suc_le_eq)
    have "read_be n (-1) (be_bytes n (val + 119) @ r) = Ok (val + 119, r)"
      using read_be_negative [OF n(2), of "val + 119" r] drop_bit_byte_len [of "NOT (val + 119)"] by (simp add: n_def)
    moreover have "sub_s (val + 119) 119 = Ok val"
      using sorted_word_negative [OF assms(1) 3] by (simp add: sint_sub_s signed_take_bit_wide assms(1))
    ultimately show ?thesis
      using 3 sorted_first_byte [OF n(1,3)]
      by (simp add: sorted_word_def n_def [symmetric] read_sorted_def read_exact_def Let_def)
  qed
qed

lemma sorted_word_less:
  fixes a b :: "'a::len word"
  assumes "16 \<le> LENGTH('a)" "LENGTH('a) \<le> 64" "8 dvd LENGTH('a)"
  shows "bytes_less (sorted_word a) (sorted_word b) \<longleftrightarrow> sint a < sint b"
proof -
  have "- (2 ^ 63) \<le> sint c \<and> sint c < 2 ^ 63" for c :: "'a word"
    using sint_ge [of c] sint_lt [of c] assms(2)
      power_increasing [of "LENGTH('a) - 1" 63 "2 :: int"] by linarith
  then show ?thesis by (simp add: sorted_word_eq assms sorted_bytes_less_iff)
qed

section \<open>Sorted floating-point numbers\<close>

text \<open>
  The total order of IEEE 754 on bit patterns: a negative number is below every other one, and
  a larger magnitude makes it smaller.
\<close>

definition total_order_key :: "'a::len word \<Rightarrow> int" where
  "total_order_key bits =
     (if bit bits (LENGTH('a) - 1) then 2 ^ (LENGTH('a) - 1) - 1 - uint bits else uint bits)"

definition sorted_float_bits :: "'a::len word \<Rightarrow> 'a word" where
  "sorted_float_bits bits =
     (if bit bits (LENGTH('a) - 1) then NOT bits else bits XOR 2 ^ (LENGTH('a) - 1))"

lemma uint_sorted_float_bits:
  "uint (sorted_float_bits bits) = total_order_key (bits :: 'a::len word) + 2 ^ (LENGTH('a) - 1)"
proof (cases "bit bits (LENGTH('a) - 1)")
  case True
  have "(2 :: int) ^ LENGTH('a) = 2 * 2 ^ (LENGTH('a) - 1)"
    by (simp flip: power_Suc)
  with True show ?thesis by (simp add: sorted_float_bits_def total_order_key_def uint_not)
next
  case False
  have "uint (bits XOR 2 ^ (LENGTH('a) - 1)) = set_bit (LENGTH('a) - 1) (uint bits)"
    using False by (intro bit_eqI) (auto simp: bit_simps)
  with False show ?thesis
    by (simp add: sorted_float_bits_def total_order_key_def set_bit_eq bit_simps)
qed

lemma sorted_float_bits_invol:
  fixes bits :: "'a::len word"
  shows "bit (sorted_float_bits bits) (LENGTH('a) - 1) \<Longrightarrow> sorted_float_bits bits XOR 2 ^ (LENGTH('a) - 1) = bits"
    and "\<not> bit (sorted_float_bits bits) (LENGTH('a) - 1) \<Longrightarrow> NOT (sorted_float_bits bits) = bits"
  by (auto simp: sorted_float_bits_def bit_simps bit_eq_iff split: if_splits)

lemma be_bytes_less:
  assumes "LENGTH('a) = 8 * n"
  shows "bytes_less (be_bytes n a) (be_bytes n b) \<longleftrightarrow> a < (b :: 'a::len word)"
proof -
  have "unat w < 256 ^ n" for w :: "'a word"
    using unat_bound [of w] assms by (simp add: power_mult)
  then have "bytes_less (be_bytes n v) (be_bytes n w)" if "v < w" for v w :: "'a word"
    using that by (simp add: be_bytes_nat nat_be_order word_less_nat_alt)
  then show ?thesis
    by (cases a b rule: linorder_cases) (auto dest: lexordp_antisym simp: lexordp_irreflexive')
qed

lemma sign_test:
  "bits AND 0x80000000 = 0 \<longleftrightarrow> \<not> bit (bits :: u32) 31"
  "bits' AND 0x8000000000000000 = 0 \<longleftrightarrow> \<not> bit (bits' :: u64) 63"
  using and_exp_eq_0_iff_not_bit [of bits 31] and_exp_eq_0_iff_not_bit [of bits' 63] by simp_all

lemma write_sorted_float_eq:
  "write_sorted_f32 x = be_bytes 4 (sorted_float_bits x)" "write_sorted_f64 y = be_bytes 8 (sorted_float_bits y)"
  by (simp_all add: write_sorted_f32_def write_sorted_f64_def sorted_float_bits_def sign_test)

lemma read_sorted_float:
  "read_sorted_f32 (write_sorted_f32 x @ r) = Ok (x, r)"
  "read_sorted_f64 (write_sorted_f64 y @ r) = Ok (y, r)"
  using sorted_float_bits_invol [of x] sorted_float_bits_invol [of y]
  by (simp_all add: write_sorted_float_eq read_sorted_f32_def read_sorted_f64_def sign_test Let_def)

section \<open>Properties\<close>

text \<open>
  C28. Reading a packed integer gives the integer written and the rest of the input, and the
  writer's count, the size function and the number of bytes written agree: at most five bytes
  for 32 bits and nine for 64.
\<close>

theorem packed_roundtrip:
  "read_packed_i32 (fst (write_packed_i32 v) @ r) = Ok (v, r)
   \<and> snd (write_packed_i32 v) = length (fst (write_packed_i32 v))
   \<and> packed_i32_size v = length (fst (write_packed_i32 v)) \<and> packed_i32_size v \<le> 5
   \<and> read_packed_i64 (fst (write_packed_i64 w) @ r) = Ok (w, r)
   \<and> snd (write_packed_i64 w) = length (fst (write_packed_i64 w))
   \<and> packed_i64_size w = length (fst (write_packed_i64 w)) \<and> packed_i64_size w \<le> 9"
proof -
  have "packed_i32_size v \<le> 5" "packed_i64_size w \<le> 9"
    by (simp_all add: packed_i32_size_def packed_i64_size_def Let_def)
  then show ?thesis
    by (simp add: read_packed_i32_eq read_packed_i64_eq read_packed_bytes write_packed_i32_eq
        write_packed_i64_eq packed_i32_size_eq packed_i64_size_eq)
qed

text \<open>
  C29. Every input that stops short of a whole packed integer is reported as the end of the
  input.  The readers check nothing else: the first byte \<open>0x80\<close>, which no writer produces,
  makes them panic, and so does a value of more than four bytes read as a 32-bit integer.
\<close>

theorem packed_read_errors:
  "(k < length (fst (write_packed_i32 v)) \<longrightarrow>
      read_packed_i32 (take k (fst (write_packed_i32 v))) = Err UnexpectedEof)
   \<and> (k < length (fst (write_packed_i64 w)) \<longrightarrow>
      read_packed_i64 (take k (fst (write_packed_i64 w))) = Err UnexpectedEof)
   \<and> read_packed_i32 (0x80 # r) = Err (Panicked Overflow)
   \<and> read_packed_i64 (0x80 # r) = Err (Panicked Overflow)
   \<and> read_packed_i32 (fst (write_packed_i64 0x0000010000000000)) = Err (Panicked ShiftOverflow)"
proof -
  have "read_packed_i32 (0x80 # r) = Err (Panicked Overflow)" "read_packed_i64 (0x80 # r) = Err (Panicked Overflow)"
    by (simp_all add: read_packed_i32_def read_packed_i64_def read_exact_def packed_prefix_def neg_s_def fits_s_def)
  moreover have "read_packed_i32 (fst (write_packed_i64 0x0000010000000000)) = Err (Panicked ShiftOverflow)"
    by code_simp
  ultimately show ?thesis
    by (simp add: read_packed_i32_eq read_packed_i64_eq read_packed_truncated write_packed_i32_eq
        write_packed_i64_eq)
qed

theorem packed_read_errors_witness:
  "(1 :: nat) < length (fst (write_packed_i32 300))
   \<and> read_packed_i32 (take 1 (fst (write_packed_i32 300))) = Err UnexpectedEof
   \<and> read_packed_i64 (take 1 (fst (write_packed_i64 300))) = Err UnexpectedEof"
proof -
  have "(1 :: nat) < length (fst (write_packed_i32 300))" "(1 :: nat) < length (fst (write_packed_i64 300))"
    by (simp_all add: write_packed_i32_def write_packed_i64_def Let_def)
  with packed_read_errors [of 1 300 300 "[]"] show ?thesis by blast
qed

text \<open>
  C30. The sorted integers: reading gives the integer written and the rest of the input, the
  order of the encodings as byte strings is the order of the integers, and an integer has the
  same encoding in both widths.
\<close>

theorem sorted_integers:
  "read_sorted_i32 (write_sorted_i32 v @ r) = Ok (v, r)
   \<and> read_sorted_i64 (write_sorted_i64 x @ r) = Ok (x, r)
   \<and> (bytes_less (write_sorted_i32 v) (write_sorted_i32 w) \<longleftrightarrow> sint v < sint w)
   \<and> (bytes_less (write_sorted_i64 x) (write_sorted_i64 y) \<longleftrightarrow> sint x < sint y)
   \<and> write_sorted_i64 (scast v) = write_sorted_i32 v"
proof -
  have "sint (scast v :: i64) = sint v" by (simp add: sint_up_scast is_up)
  then have "sorted_word (scast v :: i64) = sorted_word v" by (simp add: sorted_word_eq)
  then show ?thesis
    by (simp add: read_sorted_i32_eq read_sorted_i64_eq read_sorted_word write_sorted_i32_eq
        write_sorted_i64_eq sorted_word_less)
qed

text \<open>
  C31. The sorted floating-point numbers: reading gives the bits written and the rest of the
  input, and the order of the encodings is the total order of IEEE 754.
\<close>

theorem sorted_floats:
  "read_sorted_f32 (write_sorted_f32 v @ r) = Ok (v, r)
   \<and> read_sorted_f64 (write_sorted_f64 x @ r) = Ok (x, r)
   \<and> (bytes_less (write_sorted_f32 v) (write_sorted_f32 w) \<longleftrightarrow> total_order_key v < total_order_key w)
   \<and> (bytes_less (write_sorted_f64 x) (write_sorted_f64 y) \<longleftrightarrow> total_order_key x < total_order_key y)"
  by (simp add: read_sorted_float [unfolded write_sorted_float_eq] write_sorted_float_eq be_bytes_less
      word_less_def uint_sorted_float_bits)

end
