(* ===== verification/Rep_Group.thy ===== *)
theory Rep_Group
  imports Machine_Bytes "HOL-Library.AList" "HOL-Library.Product_Lexorder"
    "HOL-Library.Option_ord" "HOL-Library.List_Lexorder"
begin

text \<open>
  Replication groups (\<open>crates/noxu-rep/src\<close>): node types and members (\<open>node_type.rs\<close>,
  \<open>rep_node.rs\<close>, \<open>rep_group.rs\<close>), quorum policies (\<open>quorum_policy.rs\<close>), acknowledgement policies
  (\<open>commit_durability.rs\<close>) and the ranking of candidates (\<open>elections/proposal.rs\<close>).  Names are the
  UTF-8 bytes of a string, whose order is the lexicographic order of the bytes.  A quorum
  system built by the quoracle library is known by the quorums it enumerates.
\<close>

type_synonym name = bytes

section \<open>Nodes\<close>

datatype NodeType = Electable | Monitor | Secondary | Arbiter

definition NodeType_is_electable :: "NodeType \<Rightarrow> bool" where
  "NodeType_is_electable t \<longleftrightarrow> t = Electable \<or> t = Arbiter"

definition NodeType_is_data_node :: "NodeType \<Rightarrow> bool" where
  "NodeType_is_data_node t \<longleftrightarrow> t = Electable \<or> t = Secondary"

definition NodeType_is_arbiter :: "NodeType \<Rightarrow> bool" where
  "NodeType_is_arbiter t \<longleftrightarrow> t = Arbiter"

definition NodeType_can_be_master :: "NodeType \<Rightarrow> bool" where
  "NodeType_can_be_master t \<longleftrightarrow> t = Electable"

record RepNode =
  rn_name :: name
  node_type :: NodeType
  host :: name
  port :: u16
  node_id :: u32
  read_capacity_pct :: u32
  write_capacity_pct :: u32
  latency_hint_ms :: u64

definition RepNode_new :: "name \<Rightarrow> NodeType \<Rightarrow> name \<Rightarrow> u16 \<Rightarrow> u32 \<Rightarrow> RepNode" where
  "RepNode_new nm t h p i =
     \<lparr> rn_name = nm, node_type = t, host = h, port = p, node_id = i,
       read_capacity_pct = 100, write_capacity_pct = 100, latency_hint_ms = 1 \<rparr>"

definition can_be_master :: "RepNode \<Rightarrow> bool" where
  "can_be_master n = NodeType_can_be_master (node_type n)"

section \<open>Quorum policies\<close>

datatype QuorumPolicy =
    SimpleMajority
  | Flexible (phase1: nat) (phase2: nat)
  | Expression (read_quorums: "name list list") (write_quorums: "name list list")

definition majority_size :: "nat \<Rightarrow> nat" where
  "majority_size n = (if n = 0 then 0 else n div 2 + 1)"

text \<open>\<open>iter().map(|q| q.len()).min().unwrap_or(electable)\<close>.\<close>

fun min_length :: "nat \<Rightarrow> 'a list list \<Rightarrow> nat" where
  "min_length d [] = d"
| "min_length d [q] = length q"
| "min_length d (q # q' # qs) = min (length q) (min_length d (q' # qs))"

fun QuorumPolicy_phase1_quorum :: "QuorumPolicy \<Rightarrow> nat \<Rightarrow> nat" where
  "QuorumPolicy_phase1_quorum SimpleMajority electable = majority_size electable"
| "QuorumPolicy_phase1_quorum (Flexible p1 p2) electable = p1"
| "QuorumPolicy_phase1_quorum (Expression rq wq) electable = min_length electable rq"

fun QuorumPolicy_phase2_quorum :: "QuorumPolicy \<Rightarrow> nat \<Rightarrow> nat" where
  "QuorumPolicy_phase2_quorum SimpleMajority electable = majority_size electable"
| "QuorumPolicy_phase2_quorum (Flexible p1 p2) electable = p2"
| "QuorumPolicy_phase2_quorum (Expression rq wq) electable = min_length electable wq"

definition QuorumPolicy_is_valid_phase2_quorum :: "QuorumPolicy \<Rightarrow> name set \<Rightarrow> nat \<Rightarrow> bool" where
  "QuorumPolicy_is_valid_phase2_quorum policy voters electable \<longleftrightarrow>
     card voters \<ge> QuorumPolicy_phase2_quorum policy electable"

fun validate :: "QuorumPolicy \<Rightarrow> nat \<Rightarrow> bool" where
  "validate SimpleMajority n = True"
| "validate (Flexible p1 p2) n = (p1 + p2 > n)"
| "validate (Expression rq wq) n = True"

section \<open>Acknowledgement policies\<close>

datatype ReplicaAckPolicy = AckAll | AckSimpleMajority | AckNone

fun ReplicaAckPolicy_required_acks :: "ReplicaAckPolicy \<Rightarrow> nat \<Rightarrow> nat" where
  "ReplicaAckPolicy_required_acks AckAll electable_count =
     (if electable_count = 0 then 0 else electable_count - 1)"
| "ReplicaAckPolicy_required_acks AckSimpleMajority electable_count =
     (if electable_count \<le> 1 then 0
      else let majority = electable_count div 2 + 1 in majority - 1)"
| "ReplicaAckPolicy_required_acks AckNone electable_count = 0"

section \<open>Groups\<close>

record RepGroup =
  group_name :: name
  group_id :: u64
  nodes :: "(name \<times> RepNode) list"
  quorum_policy :: QuorumPolicy

definition RepGroup_new :: "name \<Rightarrow> u64 \<Rightarrow> RepGroup" where
  "RepGroup_new nm i = \<lparr> group_name = nm, group_id = i, nodes = [], quorum_policy = SimpleMajority \<rparr>"

definition with_policy :: "name \<Rightarrow> u64 \<Rightarrow> QuorumPolicy \<Rightarrow> RepGroup" where
  "with_policy nm i policy = \<lparr> group_name = nm, group_id = i, nodes = [], quorum_policy = policy \<rparr>"

definition set_quorum_policy :: "RepGroup \<Rightarrow> QuorumPolicy \<Rightarrow> RepGroup" where
  "set_quorum_policy g policy = g\<lparr>quorum_policy := policy\<rparr>"

definition add_node :: "RepGroup \<Rightarrow> RepNode \<Rightarrow> RepGroup \<times> RepNode option" where
  "add_node g node =
     (g\<lparr>nodes := AList.update (rn_name node) node (nodes g)\<rparr>, map_of (nodes g) (rn_name node))"

definition remove_node :: "RepGroup \<Rightarrow> name \<Rightarrow> RepGroup \<times> RepNode option" where
  "remove_node g nm = (g\<lparr>nodes := AList.delete nm (nodes g)\<rparr>, map_of (nodes g) nm)"

definition get_node :: "RepGroup \<Rightarrow> name \<Rightarrow> RepNode option" where
  "get_node g nm = map_of (nodes g) nm"

definition get_electable_nodes :: "RepGroup \<Rightarrow> RepNode list" where
  "get_electable_nodes g = filter (\<lambda>n. NodeType_is_electable (node_type n)) (map snd (nodes g))"

definition get_monitors :: "RepGroup \<Rightarrow> RepNode list" where
  "get_monitors g = filter (\<lambda>n. node_type n = Monitor) (map snd (nodes g))"

definition electable_count :: "RepGroup \<Rightarrow> nat" where
  "electable_count g = length (filter (\<lambda>n. NodeType_is_electable (node_type n)) (map snd (nodes g)))"

definition data_node_count :: "RepGroup \<Rightarrow> nat" where
  "data_node_count g =
     length (filter (\<lambda>n. NodeType_is_electable (node_type n) \<and> \<not> NodeType_is_arbiter (node_type n))
       (map snd (nodes g)))"

definition arbiter_count :: "RepGroup \<Rightarrow> nat" where
  "arbiter_count g = length (filter (\<lambda>n. NodeType_is_arbiter (node_type n)) (map snd (nodes g)))"

definition ack_group_size :: "RepGroup \<Rightarrow> nat" where
  "ack_group_size g =
     (let data = data_node_count g
      in if arbiter_count g > 0 \<and> data < 2 then data + 1 else data)"

definition RepGroup_required_acks :: "RepGroup \<Rightarrow> ReplicaAckPolicy \<Rightarrow> nat" where
  "RepGroup_required_acks g policy = ReplicaAckPolicy_required_acks policy (ack_group_size g)"

definition phase1_quorum :: "RepGroup \<Rightarrow> nat" where
  "phase1_quorum g = QuorumPolicy_phase1_quorum (quorum_policy g) (electable_count g)"

definition phase2_quorum :: "RepGroup \<Rightarrow> nat" where
  "phase2_quorum g = QuorumPolicy_phase2_quorum (quorum_policy g) (electable_count g)"

definition is_valid_phase2_quorum :: "RepGroup \<Rightarrow> name set \<Rightarrow> bool" where
  "is_valid_phase2_quorum g voters =
     QuorumPolicy_is_valid_phase2_quorum (quorum_policy g) voters (electable_count g)"

definition rebuild_quorum_system :: "RepGroup \<Rightarrow> bool" where
  "rebuild_quorum_system g = validate (quorum_policy g) (electable_count g)"

definition contains_node :: "RepGroup \<Rightarrow> name \<Rightarrow> bool" where
  "contains_node g nm \<longleftrightarrow> map_of (nodes g) nm \<noteq> None"

definition node_count :: "RepGroup \<Rightarrow> nat" where
  "node_count g = length (nodes g)"

text \<open>
  Every group that the operations build has one entry per name, stored under the name of the node.
\<close>

definition group_wf :: "RepGroup \<Rightarrow> bool" where
  "group_wf g \<longleftrightarrow> distinct (map fst (nodes g)) \<and> (\<forall>(k, n) \<in> set (nodes g). rn_name n = k)"

lemma group_wf_new: "group_wf (RepGroup_new nm i)" "group_wf (with_policy nm i policy)"
  by (simp_all add: group_wf_def RepGroup_new_def with_policy_def)

lemma group_wf_map:
  "group_wf g \<longleftrightarrow> distinct (map fst (nodes g)) \<and> (\<forall>k n. map_of (nodes g) k = Some n \<longrightarrow> rn_name n = k)"
  by (auto simp: group_wf_def)

lemma group_wf_add_node: "group_wf g \<Longrightarrow> group_wf (fst (add_node g node))"
  by (auto simp: group_wf_map add_node_def distinct_update update_conv')

lemma group_wf_remove_node: "group_wf g \<Longrightarrow> group_wf (fst (remove_node g nm))"
  by (auto simp: group_wf_map remove_node_def distinct_delete delete_conv')

lemma group_wf_set_quorum_policy: "group_wf g \<Longrightarrow> group_wf (set_quorum_policy g policy)"
  by (simp add: group_wf_def set_quorum_policy_def)

definition names_where :: "(RepNode \<Rightarrow> bool) \<Rightarrow> RepGroup \<Rightarrow> name set" where
  "names_where P g = fst ` set (filter (\<lambda>(k, n). P n) (nodes g))"

abbreviation electable_names :: "RepGroup \<Rightarrow> name set" where
  "electable_names \<equiv> names_where (\<lambda>n. NodeType_is_electable (node_type n))"

lemma finite_names_where [simp]: "finite (names_where P g)"
  by (simp add: names_where_def)

lemma names_where_iff:
  assumes "group_wf g"
  shows "nm \<in> names_where P g \<longleftrightarrow> (\<exists>n. get_node g nm = Some n \<and> P n)"
proof -
  have "nm \<in> names_where P g \<longleftrightarrow> (\<exists>n. (nm, n) \<in> set (nodes g) \<and> P n)"
    unfolding names_where_def by (auto intro!: image_eqI [where x = "(nm, _)"])
  then show ?thesis using assms by (simp add: get_node_def group_wf_def)
qed

lemma card_names_where:
  assumes "group_wf g"
  shows "card (names_where P g) = length (filter P (map snd (nodes g)))"
proof -
  have "distinct (map fst (filter (\<lambda>(k, n). P n) (nodes g)))"
    using assms by (simp add: group_wf_def distinct_map_filter)
  then have "card (names_where P g) = length (filter (\<lambda>(k, n). P n) (nodes g))"
    by (metis names_where_def distinct_card length_map set_map)
  also have "\<dots> = length (filter P (map snd (nodes g)))"
    by (simp add: filter_map comp_def case_prod_unfold)
  finally show ?thesis .
qed

lemma card_electable_names: "group_wf g \<Longrightarrow> card (electable_names g) = electable_count g"
  by (simp add: card_names_where electable_count_def)

section \<open>Ranking of candidates\<close>

record Proposal =
  node_name :: name
  dtvlsn :: u64
  vlsn :: u64
  priority :: u32
  pterm :: u64
  timestamp_ms :: u64

definition Proposal_with_timestamp :: "name \<Rightarrow> u64 \<Rightarrow> u32 \<Rightarrow> u64 \<Rightarrow> u64 \<Rightarrow> Proposal" where
  "Proposal_with_timestamp nm v p t ts =
     \<lparr> node_name = nm, dtvlsn = 0, vlsn = v, priority = p, pterm = t, timestamp_ms = ts \<rparr>"

definition with_dtvlsn :: "Proposal \<Rightarrow> u64 \<Rightarrow> Proposal" where
  "with_dtvlsn p d = p\<lparr>dtvlsn := d\<rparr>"

text \<open>\<open>Ordering::then_with\<close>.\<close>

fun then_with :: "Ordering \<Rightarrow> Ordering \<Rightarrow> Ordering" where
  "then_with Equal b = b"
| "then_with a b = a"

definition Proposal_cmp :: "Proposal \<Rightarrow> Proposal \<Rightarrow> Ordering" where
  "Proposal_cmp p other =
     then_with (cmp (dtvlsn p) (dtvlsn other))
       (then_with (cmp (vlsn p) (vlsn other))
         (then_with (cmp (priority p) (priority other))
           (cmp (node_name p) (node_name other))))"

definition is_better_than :: "Proposal \<Rightarrow> Proposal \<Rightarrow> bool" where
  "is_better_than p other \<longleftrightarrow> Proposal_cmp p other = Greater"

text \<open>The ranking is the lexicographic order of four keys.\<close>

definition ranking :: "Proposal \<Rightarrow> u64 \<times> u64 \<times> u32 \<times> name" where
  "ranking p = (dtvlsn p, vlsn p, priority p, node_name p)"

lemma then_with_cmp:
  "then_with (cmp a b) (cmp c d) = cmp (a, c) (b, d)"
  by (auto simp: cmp_def)

lemma Proposal_cmp_ranking: "Proposal_cmp p q = cmp (ranking p) (ranking q)"
  by (simp add: Proposal_cmp_def ranking_def then_with_cmp)

lemma better_iff [simp]: "is_better_than p q \<longleftrightarrow> ranking q < ranking p"
  by (simp add: is_better_than_def Proposal_cmp_ranking)

end
