(* ===== verification/Election_Acceptor.thy ===== *)
theory Election_Acceptor
  imports Rep_Group
begin

text \<open>
  The durable acceptor of the election protocol
  (\<open>crates/noxu-rep/src/elections/acceptor_state.rs\<close>): promises and acceptances keyed on the
  proposal number (term, proposer), the file \<open>acceptor.state\<close> they are flushed to before a reply
  is sent, and its reload, which fails on a file that is not \<open>readable\<close>.  The checksum function of crc32fast is the parameter \<open>crc\<close>.  A flush
  ends in one of three ways: it succeeds, it fails before the rename that publishes the file,
  or it fails after it.
\<close>

section \<open>UTF-8\<close>

text \<open>\<open>std::str::from_utf8\<close>: whether bytes are well-formed UTF-8.\<close>

definition utf8_cont :: "u8 \<Rightarrow> bool" where
  "utf8_cont b \<longleftrightarrow> 0x80 \<le> b \<and> b \<le> 0xBF"

definition utf8_second :: "u8 \<Rightarrow> u8 \<Rightarrow> bool" where
  "utf8_second a b \<longleftrightarrow>
     (if a = 0xE0 then 0xA0 \<le> b \<and> b \<le> 0xBF
      else if a = 0xED then 0x80 \<le> b \<and> b \<le> 0x9F
      else if a = 0xF0 then 0x90 \<le> b \<and> b \<le> 0xBF
      else if a = 0xF4 then 0x80 \<le> b \<and> b \<le> 0x8F
      else utf8_cont b)"

fun utf8_tail :: "nat \<Rightarrow> bytes \<Rightarrow> bytes option" where
  "utf8_tail 0 bs = Some bs"
| "utf8_tail (Suc n) [] = None"
| "utf8_tail (Suc n) (b # bs) = (if utf8_cont b then utf8_tail n bs else None)"

definition utf8_char :: "u8 \<Rightarrow> bytes \<Rightarrow> bytes option" where
  "utf8_char a bs =
     (if a < 0x80 then Some bs
      else if 0xC2 \<le> a \<and> a \<le> 0xDF then utf8_tail 1 bs
      else if 0xE0 \<le> a \<and> a \<le> 0xF4 then
        (case bs of [] \<Rightarrow> None
         | b # bs' \<Rightarrow> if utf8_second a b then utf8_tail (if a < 0xF0 then 1 else 2) bs' else None)
      else None)"

lemma length_utf8_tail: "utf8_tail n bs = Some r \<Longrightarrow> length r \<le> length bs"
  by (induction n bs rule: utf8_tail.induct) (auto split: if_splits)

lemma length_utf8_char: "utf8_char a bs = Some r \<Longrightarrow> length r < Suc (length bs)"
  by (auto simp: utf8_char_def split: if_splits list.splits dest: length_utf8_tail)

function utf8_valid :: "bytes \<Rightarrow> bool" where
  "utf8_valid [] = True"
| "utf8_valid (a # bs) = (case utf8_char a bs of None \<Rightarrow> False | Some r \<Rightarrow> utf8_valid r)"
  by pat_completeness auto
termination utf8_valid
  by (relation "measure length") (auto dest: length_utf8_char)

section \<open>Acceptor state\<close>

record PersistentAcceptorState =
  promised_term :: u64
  promised_proposer :: "name option"
  accepted_term :: u64
  accepted_master :: "name option"
  persist_path :: bool

definition in_memory :: PersistentAcceptorState where
  "in_memory = \<lparr> promised_term = 0, promised_proposer = None, accepted_term = 0,
     accepted_master = None, persist_path = False \<rparr>"

definition snapshot :: "PersistentAcceptorState \<Rightarrow> u64 \<times> u64 \<times> name option" where
  "snapshot st = (promised_term st, accepted_term st, accepted_master st)"

section \<open>The state file\<close>

definition MAGIC :: bytes where
  "MAGIC = [0x50, 0x58, 0x53, 0x54]"

definition VERSION :: u16 where
  "VERSION = 2"

definition MIN_LEN :: nat where
  "MIN_LEN = 4 + 2 + 8 + 8 + 2 + 4"

text \<open>\<open>as_deref().unwrap_or("").as_bytes()\<close>, a length capped at \<open>u16::MAX\<close>, and that many bytes.\<close>

definition name_field :: "name option \<Rightarrow> bytes" where
  "name_field x =
     (let s = (case x of None \<Rightarrow> [] | Some s \<Rightarrow> s);
          len = min (length s) 65535
      in le_bytes 2 (of_nat len :: u16) @ take len s)"

definition state_body :: "PersistentAcceptorState \<Rightarrow> bytes" where
  "state_body st =
     MAGIC @ le_bytes 2 VERSION @ le_bytes 8 (promised_term st) @ le_bytes 8 (accepted_term st)
     @ name_field (accepted_master st) @ name_field (promised_proposer st)"

definition state_bytes :: "(bytes \<Rightarrow> u32) \<Rightarrow> PersistentAcceptorState \<Rightarrow> bytes" where
  "state_bytes crc st = state_body st @ le_bytes 4 (crc (state_body st))"

definition flush_locked ::
  "(bytes \<Rightarrow> u32) \<Rightarrow> flush_outcome \<Rightarrow> PersistentAcceptorState \<Rightarrow> bytes option \<Rightarrow> bytes option \<times> bool" where
  "flush_locked crc io st disk =
     (if \<not> persist_path st then (disk, True)
      else (case io of
              FlushOk \<Rightarrow> (Some (state_bytes crc st), True)
            | FlushFailed \<Rightarrow> (disk, False)
            | FlushFailedAfterRename \<Rightarrow> (Some (state_bytes crc st), False)))"

datatype AcceptorPersistError =
    Io
  | BadMagic bytes
  | BadVersion u16
  | Truncated nat nat
  | BadChecksum u32 u32
  | BadMasterName

definition name_at :: "bytes \<Rightarrow> nat \<Rightarrow> nat \<Rightarrow> AcceptorPersistError + name option" where
  "name_at bs start len =
     (if len = 0 then Ok None
      else if utf8_valid (slice bs start (start + len)) then Ok (Some (slice bs start (start + len)))
      else Err BadMasterName)"

definition load_proposer :: "bytes \<Rightarrow> u16 \<Rightarrow> nat \<Rightarrow> AcceptorPersistError + name option" where
  "load_proposer bs version after_master =
     (if version \<ge> 2 then
        if length bs < after_master + 2 + 4 then Err (Truncated (after_master + 2 + 4) (length bs))
        else
          let proposer_len = unat (from_le_bytes (slice bs after_master (after_master + 2)) :: u16);
              p_start = after_master + 2
          in if length bs < p_start + proposer_len + 4
             then Err (Truncated (p_start + proposer_len + 4) (length bs))
             else name_at bs p_start proposer_len
      else Ok None)"

definition load_from_disk ::
  "(bytes \<Rightarrow> u32) \<Rightarrow> bool \<Rightarrow> bytes option \<Rightarrow>
     AcceptorPersistError + (u64 \<times> name option \<times> u64 \<times> name option) option" where
  "load_from_disk crc readable file =
     (case file of None \<Rightarrow> Ok None
      | Some bs \<Rightarrow>
        if \<not> readable then Err Io
        else if length bs < MIN_LEN then Err (Truncated MIN_LEN (length bs))
        else
          let body_end = length bs - 4;
              stored_crc = from_le_bytes (drop body_end bs);
              computed_crc = crc (take body_end bs)
          in if stored_crc \<noteq> computed_crc then Err (BadChecksum stored_crc computed_crc)
          else if slice bs 0 4 \<noteq> MAGIC then Err (BadMagic (slice bs 0 4))
          else
            let version = from_le_bytes (slice bs 4 6)
            in if version \<noteq> 1 \<and> version \<noteq> VERSION then Err (BadVersion version)
            else
              let promised = from_le_bytes (slice bs 6 14);
                  accepted = from_le_bytes (slice bs 14 22);
                  master_len = unat (from_le_bytes (slice bs 22 24) :: u16)
              in if length bs < 24 + master_len + 4
                 then Err (Truncated (24 + master_len + 4) (length bs))
                 else
                   and_then (name_at bs 24 master_len) (\<lambda>master.
                   and_then (load_proposer bs version (24 + master_len)) (\<lambda>proposer.
                   Ok (Some (promised, proposer, accepted, master)))))"

text \<open>Start of a node: a file that cannot be loaded is removed and the acceptor is fresh.\<close>

definition load_or_default ::
  "(bytes \<Rightarrow> u32) \<Rightarrow> bool \<Rightarrow> bytes option \<Rightarrow> PersistentAcceptorState \<times> bytes option" where
  "load_or_default crc readable file =
     (let st = in_memory\<lparr>persist_path := True\<rparr>
      in case load_from_disk crc readable file of
           Inr (Some (p, pp, a, m)) \<Rightarrow>
             (st\<lparr>promised_term := p, promised_proposer := pp, accepted_term := a, accepted_master := m\<rparr>, file)
         | Inr None \<Rightarrow> (st, file)
         | Inl e \<Rightarrow> (st, None))"

section \<open>Promises and acceptances\<close>

type_synonym acceptor = "PersistentAcceptorState \<times> bytes option"

definition try_promise_proposal ::
  "(bytes \<Rightarrow> u32) \<Rightarrow> flush_outcome \<Rightarrow> acceptor \<Rightarrow> u64 \<Rightarrow> name \<Rightarrow> acceptor \<times> bool" where
  "try_promise_proposal crc io acc t proposer =
     (let (st, disk) = acc;
          cur_term = promised_term st;
          cur_proposer = promised_proposer st;
          incoming = (t, Some proposer);
          promised = (cur_term, cur_proposer)
      in if promised > incoming then (acc, False)
         else
           let st' = st\<lparr>promised_term := t, promised_proposer := Some proposer\<rparr>;
               (disk', flushed) = flush_locked crc io st' disk
           in if \<not> flushed
              then ((st'\<lparr>promised_term := cur_term, promised_proposer := cur_proposer\<rparr>, disk'), False)
              else ((st', disk'), True))"

definition try_accept_proposal ::
  "(bytes \<Rightarrow> u32) \<Rightarrow> flush_outcome \<Rightarrow> acceptor \<Rightarrow> u64 \<Rightarrow> name \<Rightarrow> name \<Rightarrow> acceptor \<times> bool" where
  "try_accept_proposal crc io acc t proposer master =
     (let (st, disk) = acc
      in if (promised_term st, promised_proposer st) \<noteq> (t, Some proposer) then (acc, False)
         else
           let prev_accepted_term = accepted_term st;
               prev_accepted_master = accepted_master st
           in if prev_accepted_term = t \<and> prev_accepted_master \<noteq> Some master then (acc, False)
              else
                let st' = st\<lparr>accepted_term := t, accepted_master := Some master\<rparr>;
                    (disk', flushed) = flush_locked crc io st' disk
                in if \<not> flushed
                   then ((st'\<lparr>accepted_term := prev_accepted_term, accepted_master := prev_accepted_master\<rparr>, disk'), False)
                   else ((st', disk'), True))"

definition COMPAT_PROPOSER :: name where
  "COMPAT_PROPOSER = []"

definition try_promise :: "(bytes \<Rightarrow> u32) \<Rightarrow> flush_outcome \<Rightarrow> acceptor \<Rightarrow> u64 \<Rightarrow> acceptor \<times> bool" where
  "try_promise crc io acc t = try_promise_proposal crc io acc t COMPAT_PROPOSER"

definition try_accept :: "(bytes \<Rightarrow> u32) \<Rightarrow> flush_outcome \<Rightarrow> acceptor \<Rightarrow> u64 \<Rightarrow> name \<Rightarrow> acceptor \<times> bool" where
  "try_accept crc io acc t master = try_accept_proposal crc io acc t COMPAT_PROPOSER master"

section \<open>Reload after a flush\<close>

text \<open>The file does not tell an empty name from no name.\<close>

definition stored_name :: "name option \<Rightarrow> name option" where
  "stored_name x = (if x = Some [] then None else x)"

definition storable :: "name option \<Rightarrow> bool" where
  "storable x \<longleftrightarrow> (case x of None \<Rightarrow> True | Some s \<Rightarrow> utf8_valid s \<and> length s \<le> 65535)"

definition reloaded :: "PersistentAcceptorState \<Rightarrow> PersistentAcceptorState" where
  "reloaded st = st\<lparr>promised_proposer := stored_name (promised_proposer st),
     accepted_master := stored_name (accepted_master st), persist_path := True\<rparr>"

lemma length_MAGIC [simp]: "length MAGIC = 4"
  by (simp add: MAGIC_def)

lemma unat_u16: "n \<le> 65535 \<Longrightarrow> unat (of_nat n :: u16) = n"
  by (simp add: unsigned_of_nat take_bit_nat_eq_self)

lemma name_field_storable:
  assumes "storable x"
  obtains s where "name_field x = le_bytes 2 (of_nat (length s) :: u16) @ s" "length s \<le> 65535"
    "utf8_valid s" "stored_name x = (if s = [] then None else Some s)"
  using assms that [of "case x of None \<Rightarrow> [] | Some s \<Rightarrow> s"]
  by (auto simp: name_field_def storable_def stored_name_def Let_def split: option.splits)

lemma load_state_bytes:
  assumes "storable (promised_proposer st)" "storable (accepted_master st)"
  shows "load_from_disk crc True (Some (state_bytes crc st)) =
    Ok (Some (promised_term st, stored_name (promised_proposer st), accepted_term st,
      stored_name (accepted_master st)))"
proof -
  obtain m where m: "name_field (accepted_master st) = le_bytes 2 (of_nat (length m) :: u16) @ m"
    "length m \<le> 65535" "utf8_valid m" "stored_name (accepted_master st) = (if m = [] then None else Some m)"
    using assms(2) by (rule name_field_storable)
  obtain p where p: "name_field (promised_proposer st) = le_bytes 2 (of_nat (length p) :: u16) @ p"
    "length p \<le> 65535" "utf8_valid p" "stored_name (promised_proposer st) = (if p = [] then None else Some p)"
    using assms(1) by (rule name_field_storable)
  define c where "c = le_bytes 4 (crc (state_body st))"
  define bs where "bs = state_bytes crc st"
  have bs: "bs = MAGIC @ le_bytes 2 VERSION @ le_bytes 8 (promised_term st) @ le_bytes 8 (accepted_term st)
      @ le_bytes 2 (of_nat (length m) :: u16) @ m @ le_bytes 2 (of_nat (length p) :: u16) @ p @ c"
    by (simp add: bs_def state_bytes_def state_body_def m p c_def)
  have len: "length bs = 26 + length m + length p + 4"
    by (simp add: bs c_def)
  have fields: "slice bs 0 4 = MAGIC" "slice bs 4 6 = le_bytes 2 VERSION"
    "slice bs 6 14 = le_bytes 8 (promised_term st)" "slice bs 14 22 = le_bytes 8 (accepted_term st)"
    "slice bs 22 24 = le_bytes 2 (of_nat (length m) :: u16)" "slice bs 24 (24 + length m) = m"
    "slice bs (24 + length m) (24 + length m + 2) = le_bytes 2 (of_nat (length p) :: u16)"
    "slice bs (24 + length m + 2) (24 + length m + 2 + length p) = p"
    by (simp_all add: bs slice_def)
  have ends: "take (length bs - 4) bs = state_body st" "drop (length bs - 4) bs = c"
    by (simp_all add: bs_def state_bytes_def c_def)
  have bounds: "\<not> length bs < MIN_LEN" "\<not> length bs < 24 + length m + 4" by (simp_all add: len MIN_LEN_def)
  have master: "name_at bs 24 (length m) = Ok (stored_name (accepted_master st))"
    unfolding name_at_def fields using m(3,4) by simp
  have proposer: "load_proposer bs VERSION (24 + length m) = Ok (stored_name (promised_proposer st))"
    unfolding load_proposer_def name_at_def Let_def fields using p(2-4)
    by (simp add: len VERSION_def unat_u16 fields [simplified])
  have "load_from_disk crc True (Some bs) = Ok (Some (promised_term st, stored_name (promised_proposer st),
      accepted_term st, stored_name (accepted_master st)))"
    using m(2) bounds
    by (simp add: load_from_disk_def ends fields unat_u16 master proposer c_def Let_def)
  then show ?thesis by (simp add: bs_def)
qed

lemma load_or_default_flushed:
  assumes "storable (promised_proposer st)" "storable (accepted_master st)"
  shows "load_or_default crc True (Some (state_bytes crc st)) = (reloaded st, Some (state_bytes crc st))"
  using load_state_bytes [OF assms, of crc]
  by (cases st) (simp add: load_or_default_def reloaded_def in_memory_def)

section \<open>What the operations do\<close>

definition promise_number :: "PersistentAcceptorState \<Rightarrow> u64 \<times> name option" where
  "promise_number st = (promised_term st, promised_proposer st)"

definition with_promise :: "u64 \<Rightarrow> name \<Rightarrow> PersistentAcceptorState \<Rightarrow> PersistentAcceptorState" where
  "with_promise t proposer st = st\<lparr>promised_term := t, promised_proposer := Some proposer\<rparr>"

definition with_accept :: "u64 \<Rightarrow> name \<Rightarrow> PersistentAcceptorState \<Rightarrow> PersistentAcceptorState" where
  "with_accept t master st = st\<lparr>accepted_term := t, accepted_master := Some master\<rparr>"

text \<open>
  The state that a reload finds once \<open>st'\<close> has been written: the file is unchanged, or it holds
  \<open>st'\<close>, and it holds \<open>st'\<close> when the operation succeeded on a persistent acceptor.
\<close>

lemma flush_locked_cases:
  assumes "flush_locked crc io st disk = (disk', flushed)"
  shows "disk' = disk \<or> disk' = Some (state_bytes crc st)"
    and "flushed \<Longrightarrow> persist_path st \<Longrightarrow> disk' = Some (state_bytes crc st)"
    and "\<not> persist_path st \<Longrightarrow> flushed \<and> disk' = disk"
  using assms by (auto simp: flush_locked_def split: if_splits flush_outcome.splits)

lemma try_promise_cases:
  assumes "try_promise_proposal crc io (st, disk) t proposer = ((st', disk'), granted)"
  obtains (rejected) "\<not> granted" "st' = st" "disk' = disk" "(t, Some proposer) < promise_number st"
  | (unflushed) "\<not> granted" "st' = st" "promise_number st \<le> (t, Some proposer)" "persist_path st"
      "disk' = disk \<or> disk' = Some (state_bytes crc (with_promise t proposer st))"
  | (granted) "granted" "st' = with_promise t proposer st" "promise_number st \<le> (t, Some proposer)"
      "persist_path st \<Longrightarrow> disk' = Some (state_bytes crc st')" "\<not> persist_path st \<Longrightarrow> disk' = disk"
proof (cases "(t, Some proposer) < promise_number st")
  case True
  then show thesis
    using assms rejected by (simp add: try_promise_proposal_def promise_number_def Let_def)
next
  case False
  then have le: "promise_number st \<le> (t, Some proposer)" by simp
  obtain d f where f: "flush_locked crc io (with_promise t proposer st) disk = (d, f)" by fastforce
  note cases = flush_locked_cases [OF f]
  have pp: "persist_path (with_promise t proposer st) = persist_path st" by (simp add: with_promise_def)
  have eq: "((st', disk'), granted) = (if f then ((with_promise t proposer st, d), True) else ((st, d), False))"
    using assms False f
    by (cases st) (auto simp: try_promise_proposal_def promise_number_def with_promise_def Let_def)
  show thesis
  proof (cases f)
    case True
    then show thesis using eq le cases pp by (intro granted) auto
  next
    case False
    then show thesis using eq le cases pp by (intro unflushed) auto
  qed
qed

lemma try_accept_cases:
  assumes "try_accept_proposal crc io (st, disk) t proposer master = ((st', disk'), granted)"
  obtains (rejected) "\<not> granted" "st' = st" "disk' = disk"
      "promise_number st \<noteq> (t, Some proposer) \<or> accepted_term st = t \<and> accepted_master st \<noteq> Some master"
  | (unflushed) "\<not> granted" "st' = st" "promise_number st = (t, Some proposer)" "persist_path st"
      "accepted_term st \<noteq> t \<or> accepted_master st = Some master"
      "disk' = disk \<or> disk' = Some (state_bytes crc (with_accept t master st))"
  | (granted) "granted" "st' = with_accept t master st" "promise_number st = (t, Some proposer)"
      "accepted_term st \<noteq> t \<or> accepted_master st = Some master"
      "persist_path st \<Longrightarrow> disk' = Some (state_bytes crc st')" "\<not> persist_path st \<Longrightarrow> disk' = disk"
proof (cases "promise_number st \<noteq> (t, Some proposer) \<or> accepted_term st = t \<and> accepted_master st \<noteq> Some master")
  case True
  then show thesis
    using assms rejected
    by (auto simp: try_accept_proposal_def promise_number_def Let_def split: if_splits)
next
  case False
  obtain d f where f: "flush_locked crc io (with_accept t master st) disk = (d, f)" by fastforce
  note cases = flush_locked_cases [OF f]
  have pp: "persist_path (with_accept t master st) = persist_path st" by (simp add: with_accept_def)
  have eq: "((st', disk'), granted) = (if f then ((with_accept t master st, d), True) else ((st, d), False))"
    using assms False f
    by (cases st) (auto simp: try_accept_proposal_def promise_number_def with_accept_def Let_def)
  show thesis
  proof (cases f)
    case True
    then show thesis using eq False cases pp by (intro granted) auto
  next
    case fail: False
    then show thesis using eq False cases pp by (intro unflushed) auto
  qed
qed

section \<open>Restart\<close>

text \<open>
  C33. A promise or an acceptance that a persistent acceptor has granted is found again by the
  reload of its file after a restart.  A file that exists and cannot be read is deleted, and the
  acceptor starts without any promise.
\<close>

theorem acceptor_survives_restart:
  assumes "persist_path st" "storable (promised_proposer st)" "storable (accepted_master st)"
    and "storable (Some proposer)" "storable (Some master)"
  shows "(try_promise_proposal crc io (st, disk) t proposer = ((st', disk'), True) \<longrightarrow>
        load_or_default crc True disk' = (reloaded (with_promise t proposer st), disk'))
    \<and> (try_accept_proposal crc io (st, disk) t proposer master = ((st', disk'), True) \<longrightarrow>
        load_or_default crc True disk' = (reloaded (with_accept t master st), disk'))
    \<and> load_or_default crc False (Some file) = (in_memory\<lparr>persist_path := True\<rparr>, None)"
proof -
  have "load_or_default crc True disk' = (reloaded (with_promise t proposer st), disk')"
    if "try_promise_proposal crc io (st, disk) t proposer = ((st', disk'), True)"
    using that assms by (elim try_promise_cases) (auto simp: load_or_default_flushed with_promise_def)
  moreover have "load_or_default crc True disk' = (reloaded (with_accept t master st), disk')"
    if "try_accept_proposal crc io (st, disk) t proposer master = ((st', disk'), True)"
    using that assms by (elim try_accept_cases) (auto simp: load_or_default_flushed with_accept_def)
  ultimately show ?thesis by (simp add: load_or_default_def load_from_disk_def)
qed

theorem acceptor_survives_restart_witness:
  "let crc = (\<lambda>bs. of_nat (length bs)) :: bytes \<Rightarrow> u32;
       st = in_memory\<lparr>persist_path := True\<rparr>;
       ((st', disk'), granted) = try_promise_proposal crc FlushOk (st, None) 7 [0x6e, 0x31]
   in granted \<and> load_or_default crc True disk' = (reloaded (with_promise 7 [0x6e, 0x31] st), disk')"
proof -
  define crc where "crc = ((\<lambda>bs. of_nat (length bs)) :: bytes \<Rightarrow> u32)"
  define st where "st = in_memory\<lparr>persist_path := True\<rparr>"
  obtain st' disk' where p: "try_promise_proposal crc FlushOk (st, None) 7 [0x6e, 0x31] = ((st', disk'), True)"
    by (simp add: try_promise_proposal_def flush_locked_def st_def in_memory_def Let_def)
  have "load_or_default crc True disk' = (reloaded (with_promise 7 [0x6e, 0x31] st), disk')"
    using acceptor_survives_restart [of st "[0x6e, 0x31]" "[]" crc FlushOk None 7 st' disk'] p
    by (simp add: st_def in_memory_def storable_def utf8_char_def)
  then show ?thesis using p by (simp add: crc_def st_def Let_def)
qed

end
