(* ===== verification/Election_Paxos.thy ===== *)
theory Election_Paxos
  imports Election_Acceptor
begin

text \<open>
  Master elections (\<open>crates/noxu-rep/src/elections\<close>): the choice of the value and the two phases
  of the proposer and of the acceptor (\<open>paxos.rs\<close>), and the latch that freezes a node's sequence
  number during a round (\<open>commit_freeze_latch.rs\<close>).

  A proposer and an acceptor exchange messages over a channel and other sessions run in
  between, so a session is the sequence of its parts: \<open>acceptor_phase1\<close> and \<open>acceptor_phase2\<close> are
  what an acceptor does between two receives, and \<open>run_election_self\<close> takes what the calls of a
  proposer returned, the replies to its messages and the verdicts of the node's own acceptor.
\<close>

section \<open>Messages\<close>

datatype ProtocolMessage =
    ElectionProposal name u64 u32 u64 u64
  | ElectionVote name bool u64
  | ElectionResult name u64
  | OtherMessage

datatype RepError = ProtocolError | NetworkError

section \<open>Choice of the value\<close>

record PromiseRecord =
  proposal :: Proposal
  is_arbiter :: bool

datatype Phase2Value = Value Proposal | NoNonZeroPriority | ArbiterVeto

text \<open>The better of the remembered proposal and a new one; a tie keeps the first.\<close>

fun keep_better :: "Proposal option \<Rightarrow> Proposal \<Rightarrow> Proposal option" where
  "keep_better (Some cur) p = (if \<not> is_better_than p cur then Some cur else Some p)"
| "keep_better None p = Some p"

fun choose_loop ::
  "PromiseRecord list \<Rightarrow> Proposal option \<Rightarrow> Proposal option \<Rightarrow> nat \<Rightarrow> Proposal option \<times> Proposal option \<times> nat" where
  "choose_loop [] chosen arb_best non_arb_count = (chosen, arb_best, non_arb_count)"
| "choose_loop (p # ps) chosen arb_best non_arb_count =
     (if priority (proposal p) = 0 then choose_loop ps chosen arb_best non_arb_count
      else if is_arbiter p then choose_loop ps chosen (keep_better arb_best (proposal p)) non_arb_count
      else choose_loop ps (keep_better chosen (proposal p)) arb_best (non_arb_count + 1))"

definition choose_phase2_value :: "PromiseRecord list \<Rightarrow> Phase2Value" where
  "choose_phase2_value promises =
     (let (chosen, arb_best, non_arb_count) = choose_loop promises None None 0
      in case chosen of
           None \<Rightarrow> NoNonZeroPriority
         | Some value \<Rightarrow>
             if non_arb_count \<le> 1 \<and> (case arb_best of None \<Rightarrow> False | Some arb \<Rightarrow> is_better_than arb value)
             then ArbiterVeto else Value value)"

section \<open>The proposer\<close>

fun phase1_loop ::
  "RepGroup \<Rightarrow> (name \<Rightarrow> u64) \<Rightarrow> ('ch \<Rightarrow> ProtocolMessage option) \<Rightarrow> 'ch list \<Rightarrow>
     'ch list \<Rightarrow> PromiseRecord list \<Rightarrow> 'ch list \<times> PromiseRecord list" where
  "phase1_loop g now reply [] promises records = (promises, records)"
| "phase1_loop g now reply (ch # chs) promises records =
     (case reply ch of
        Some (ElectionVote voter True t) \<Rightarrow> phase1_loop g now reply chs (promises @ [ch]) records
      | Some (ElectionProposal peer_name peer_vlsn peer_priority peer_term peer_dtvlsn) \<Rightarrow>
          (let peer_node = get_node g peer_name;
               peer_can_be_master = (case peer_node of None \<Rightarrow> False | Some n \<Rightarrow> can_be_master n);
               peer_is_arbiter =
                 (case peer_node of None \<Rightarrow> False
                  | Some n \<Rightarrow> NodeType_is_electable (node_type n) \<and> \<not> can_be_master n);
               peer_p = with_dtvlsn (Proposal_with_timestamp peer_name peer_vlsn peer_priority peer_term (now peer_name))
                          peer_dtvlsn
           in phase1_loop g now reply chs (promises @ [ch])
                (if peer_can_be_master \<and> peer_priority \<noteq> 0
                 then records @ [\<lparr> proposal = peer_p, is_arbiter = False \<rparr>]
                 else if peer_is_arbiter then records @ [\<lparr> proposal = peer_p, is_arbiter = True \<rparr>]
                 else records))
      | _ \<Rightarrow> phase1_loop g now reply chs promises records)"

fun vote_granted :: "ProtocolMessage option \<Rightarrow> bool" where
  "vote_granted (Some (ElectionVote voter granted t)) = granted"
| "vote_granted _ = False"

text \<open>
  \<open>self_promise\<close> is the verdict of the node's own acceptor on its promise, if the caller supplied
  one; \<open>self_accept\<close> is its verdict on the acceptance of a master.
\<close>

definition run_election_self ::
  "u32 \<Rightarrow> name \<Rightarrow> RepGroup \<Rightarrow> 'ch list \<Rightarrow> u64 \<Rightarrow> u32 \<Rightarrow> u64 \<Rightarrow> u64 \<Rightarrow> (name \<Rightarrow> u64) \<Rightarrow>
     bool option \<Rightarrow> ('ch \<Rightarrow> ProtocolMessage option) \<Rightarrow>
     (name \<Rightarrow> bool) \<Rightarrow> (ProtocolMessage \<Rightarrow> 'ch \<Rightarrow> ProtocolMessage option) \<Rightarrow> u32 option" where
  "run_election_self my_id my_name g channels proposed_vlsn prio term own_dtvlsn now
     self_promise reply1 self_accept reply2 =
     (if \<not> (case get_node g my_name of None \<Rightarrow> False | Some n \<Rightarrow> can_be_master n) then None
      else if prio = 0 then None
      else if phase1_quorum g = 0 \<or> phase2_quorum g = 0 then None
      else
        let self_phase1_vote = (case self_promise of Some granted \<Rightarrow> if granted then 1 else 0 | None \<Rightarrow> 1);
            our_proposal = with_dtvlsn (Proposal_with_timestamp my_name proposed_vlsn prio term (now my_name)) own_dtvlsn;
            (promises, promise_records) =
              phase1_loop g now reply1 channels [] [\<lparr> proposal = our_proposal, is_arbiter = False \<rparr>]
        in if length promises + self_phase1_vote < phase1_quorum g then None
           else (case choose_phase2_value promise_records of
               ArbiterVeto \<Rightarrow> None
             | NoNonZeroPriority \<Rightarrow> None
             | Value p \<Rightarrow>
                 let winner_name = node_name p;
                     accepts = length (filter (\<lambda>ch. vote_granted (reply2 (ElectionResult winner_name term) ch)) promises);
                     self_phase2_vote =
                       (case self_promise of
                          Some granted \<Rightarrow> if self_phase1_vote = 1 then (if self_accept winner_name then 1 else 0) else 0
                        | None \<Rightarrow> 1)
                 in if accepts + self_phase2_vote \<ge> phase2_quorum g
                    then Some (if winner_name = my_name then my_id
                               else (case get_node g winner_name of Some n \<Rightarrow> node_id n | None \<Rightarrow> my_id))
                    else None))"

text \<open>The public entry points supply no acceptor of the node itself, and no durable position.\<close>

definition run_election_with_phi_dtvlsn ::
  "u32 \<Rightarrow> name \<Rightarrow> RepGroup \<Rightarrow> 'ch list \<Rightarrow> u64 \<Rightarrow> u32 \<Rightarrow> u64 \<Rightarrow> u64 \<Rightarrow> (name \<Rightarrow> u64) \<Rightarrow>
     ('ch \<Rightarrow> ProtocolMessage option) \<Rightarrow> (ProtocolMessage \<Rightarrow> 'ch \<Rightarrow> ProtocolMessage option) \<Rightarrow> u32 option" where
  "run_election_with_phi_dtvlsn my_id my_name g channels proposed_vlsn prio term own_dtvlsn now reply1 reply2 =
     run_election_self my_id my_name g channels proposed_vlsn prio term own_dtvlsn now None reply1 (\<lambda>_. False) reply2"

definition run_election_with_phi ::
  "u32 \<Rightarrow> name \<Rightarrow> RepGroup \<Rightarrow> 'ch list \<Rightarrow> u64 \<Rightarrow> u32 \<Rightarrow> u64 \<Rightarrow> (name \<Rightarrow> u64) \<Rightarrow>
     ('ch \<Rightarrow> ProtocolMessage option) \<Rightarrow> (ProtocolMessage \<Rightarrow> 'ch \<Rightarrow> ProtocolMessage option) \<Rightarrow> u32 option" where
  "run_election_with_phi my_id my_name g channels proposed_vlsn prio term now reply1 reply2 =
     run_election_with_phi_dtvlsn my_id my_name g channels proposed_vlsn prio term 0 now reply1 reply2"

definition run_election ::
  "u32 \<Rightarrow> name \<Rightarrow> RepGroup \<Rightarrow> 'ch list \<Rightarrow> u64 \<Rightarrow> u32 \<Rightarrow> u64 \<Rightarrow> (name \<Rightarrow> u64) \<Rightarrow>
     ('ch \<Rightarrow> ProtocolMessage option) \<Rightarrow> (ProtocolMessage \<Rightarrow> 'ch \<Rightarrow> ProtocolMessage option) \<Rightarrow> u32 option" where
  "run_election my_id my_name g channels proposed_vlsn prio term now reply1 reply2 =
     run_election_with_phi my_id my_name g channels proposed_vlsn prio term now reply1 reply2"

section \<open>The freeze latch\<close>

record CommitFreezeLatch =
  fl_proposal :: "Proposal option"
  freeze_end :: "nat option"
  generation :: u64
  frozen :: bool
  thawed_by_election :: bool
  fl_timeout :: nat
  freeze_count :: u64
  await_timeout_count :: u64
  await_election_count :: u64

definition CommitFreezeLatch_with_timeout :: "nat \<Rightarrow> CommitFreezeLatch" where
  "CommitFreezeLatch_with_timeout t =
     \<lparr> fl_proposal = None, freeze_end = None, generation = 0, frozen = False, thawed_by_election = False,
       fl_timeout = t, freeze_count = 0, await_timeout_count = 0, await_election_count = 0 \<rparr>"

definition freeze :: "nat \<Rightarrow> Proposal \<Rightarrow> CommitFreezeLatch \<Rightarrow> CommitFreezeLatch" where
  "freeze now p l =
     (let arm = (\<lambda>l. l\<lparr>fl_proposal := Some p, freeze_end := Some (now + fl_timeout l), frozen := True,
                       thawed_by_election := False, freeze_count := freeze_count l + 1\<rparr>)
      in case fl_proposal l of
           Some cur \<Rightarrow> if \<not> is_better_than p cur then l else arm (l\<lparr>generation := generation l + 1\<rparr>)
         | None \<Rightarrow> arm l)"

definition vlsn_event :: "Proposal \<Rightarrow> CommitFreezeLatch \<Rightarrow> CommitFreezeLatch" where
  "vlsn_event p l =
     (case fl_proposal l of
        None \<Rightarrow> l
      | Some cur \<Rightarrow>
          if \<not> is_better_than cur p
          then l\<lparr>frozen := False, thawed_by_election := True, generation := generation l + 1\<rparr>
          else l)"

definition clear_latch :: "CommitFreezeLatch \<Rightarrow> CommitFreezeLatch" where
  "clear_latch l =
     l\<lparr>frozen := False, fl_proposal := None, freeze_end := None, thawed_by_election := False,
       generation := generation l + 1\<rparr>"

text \<open>
  \<open>await_thaw\<close> up to its first wait, and one iteration of its loop: the result, or the
  generation to wait on and for how long.
\<close>

datatype thaw_wait = Thawed bool | Awaiting nat

definition await_loop :: "nat \<Rightarrow> u64 \<Rightarrow> CommitFreezeLatch \<Rightarrow> CommitFreezeLatch \<times> thaw_wait" where
  "await_loop now my_generation l =
     (if \<not> frozen l \<or> generation l \<noteq> my_generation then
        if \<not> frozen l
        then (l\<lparr>thawed_by_election := False, await_election_count := await_election_count l + 1,
                fl_proposal := None, freeze_end := None\<rparr>, Thawed True)
        else (l, Thawed False)
      else
        let e = (case freeze_end l of Some e \<Rightarrow> e | None \<Rightarrow> now)
        in if now \<ge> e
           then (l\<lparr>await_timeout_count := await_timeout_count l + 1, frozen := False, fl_proposal := None,
                   freeze_end := None\<rparr>, Thawed False)
           else (l, Awaiting (e - now)))"

definition await_thaw :: "nat \<Rightarrow> CommitFreezeLatch \<Rightarrow> CommitFreezeLatch \<times> thaw_wait" where
  "await_thaw now l =
     (if thawed_by_election l
      then (l\<lparr>thawed_by_election := False, frozen := False, fl_proposal := None, freeze_end := None,
              await_election_count := await_election_count l + 1\<rparr>, Thawed True)
      else if \<not> frozen l then (l, Thawed False)
      else await_loop now (generation l) l)"

definition round_proposal :: "u64 \<Rightarrow> Proposal" where
  "round_proposal term = with_dtvlsn (Proposal_with_timestamp [] term 0 term 0) term"

section \<open>The acceptor\<close>

definition ascii_lower :: "u8 \<Rightarrow> u8" where
  "ascii_lower b = (if 0x41 \<le> b \<and> b \<le> 0x5A then b + 0x20 else b)"

definition eq_ignore_ascii_case :: "name \<Rightarrow> name \<Rightarrow> bool" where
  "eq_ignore_ascii_case a b \<longleftrightarrow> map ascii_lower a = map ascii_lower b"

definition check_election_identity :: "name list option \<Rightarrow> name \<Rightarrow> RepError + unit" where
  "check_election_identity peer_identity proposer =
     (case peer_identity of
        Some subject_names \<Rightarrow>
          if \<not> list_ex (\<lambda>n. eq_ignore_ascii_case n proposer) subject_names then Err ProtocolError else Ok ()
      | None \<Rightarrow> Ok ())"

datatype session = Ended "RepError + name option" | Promised u64 name

type_synonym node_state = "acceptor \<times> CommitFreezeLatch option"

text \<open>
  The first part of a session: what was received, the reply, if one was sent, and how the
  session goes on.  \<open>sent\<close> tells whether sending the reply succeeds.
\<close>

definition acceptor_phase1 ::
  "(bytes \<Rightarrow> u32) \<Rightarrow> flush_outcome \<Rightarrow> nat \<Rightarrow> name list option \<Rightarrow> name \<Rightarrow> u64 \<Rightarrow> u32 \<Rightarrow> u64 \<Rightarrow> u64 \<Rightarrow> bool \<Rightarrow>
     RepError + ProtocolMessage option \<Rightarrow> node_state \<Rightarrow> node_state \<times> ProtocolMessage option \<times> session" where
  "acceptor_phase1 crc io now peer_identity my_name own_vlsn own_priority own_term own_dtvlsn sent received s =
     (case received of
        Inl e \<Rightarrow> (s, None, Ended (Err e))
      | Inr None \<Rightarrow> (s, None, Ended (Ok None))
      | Inr (Some (ElectionProposal proposer v p term d)) \<Rightarrow>
          (case check_election_identity peer_identity proposer of
             Inl e \<Rightarrow> (s, None, Ended (Err e))
           | Inr _ \<Rightarrow>
               let (acc, latch) = s;
                   (acc', granted) = try_promise_proposal crc io acc term proposer
               in if granted
                  then ((acc', map_option (freeze now (round_proposal term)) latch),
                        Some (ElectionProposal my_name own_vlsn own_priority own_term own_dtvlsn),
                        if sent then Promised term proposer else Ended (Err NetworkError))
                  else ((acc', latch),
                        Some (ElectionVote my_name False (promised_term (fst acc'))),
                        if sent then Ended (Ok None) else Ended (Err NetworkError)))
      | Inr (Some _) \<Rightarrow> (s, None, Ended (Err ProtocolError)))"

definition acceptor_phase2 ::
  "(bytes \<Rightarrow> u32) \<Rightarrow> flush_outcome \<Rightarrow> name \<Rightarrow> u64 \<Rightarrow> name \<Rightarrow> bool \<Rightarrow> RepError + ProtocolMessage option \<Rightarrow>
     node_state \<Rightarrow> node_state \<times> ProtocolMessage option \<times> (RepError + name option)" where
  "acceptor_phase2 crc io my_name phase1_term phase1_proposer sent received s =
     (let (acc, latch) = s;
          thaw = (\<lambda>term. map_option (vlsn_event (round_proposal term)) latch)
      in case received of
           Inl e \<Rightarrow> ((acc, thaw phase1_term), None, Err e)
         | Inr None \<Rightarrow> ((acc, thaw phase1_term), None, Ok None)
         | Inr (Some (ElectionResult master term)) \<Rightarrow>
             let latch' = thaw (max term phase1_term);
                 (acc', granted) =
                   (if term = phase1_term then try_accept_proposal crc io acc term phase1_proposer master
                    else (acc, False))
             in ((acc', latch'), Some (ElectionVote my_name granted term),
                 if sent then Ok (if granted then Some master else None) else Err NetworkError)
         | Inr (Some _) \<Rightarrow> ((acc, thaw phase1_term), None, Err ProtocolError))"

text \<open>
  \<open>run_acceptor\<close>, the entry point without a stored state, as one session: what was received twice
  and whether the two sends succeed; the messages sent and the result.  The promise is a local
  variable, so the first phase never rejects.
\<close>

definition run_acceptor_phase2 ::
  "name \<Rightarrow> u64 option \<Rightarrow> bool \<Rightarrow> RepError + ProtocolMessage option \<Rightarrow> ProtocolMessage list \<times> (RepError + name option)" where
  "run_acceptor_phase2 my_name promised sent received =
     (case received of
        Inl e \<Rightarrow> ([], Err e)
      | Inr None \<Rightarrow> ([], Ok None)
      | Inr (Some (ElectionResult master term)) \<Rightarrow>
          if (case promised of None \<Rightarrow> False | Some p \<Rightarrow> term \<ge> p)
          then ([ElectionVote my_name True term], if sent then Ok (Some master) else Err NetworkError)
          else ([ElectionVote my_name False term], if sent then Ok None else Err NetworkError)
      | Inr (Some _) \<Rightarrow> ([], Err ProtocolError))"

definition run_acceptor ::
  "name list option \<Rightarrow> name \<Rightarrow> u64 \<Rightarrow> u32 \<Rightarrow> u64 \<Rightarrow> bool \<Rightarrow> RepError + ProtocolMessage option \<Rightarrow>
     bool \<Rightarrow> RepError + ProtocolMessage option \<Rightarrow> ProtocolMessage list \<times> (RepError + name option)" where
  "run_acceptor peer_identity my_name own_vlsn own_priority own_term sent1 received1 sent2 received2 =
     (let own_dtvlsn = 0; promised_term = None in
      case received1 of
        Inl e \<Rightarrow> ([], Err e)
      | Inr None \<Rightarrow> ([], Ok None)
      | Inr (Some (ElectionProposal proposer v p term d)) \<Rightarrow>
          (case check_election_identity peer_identity proposer of
             Inl e \<Rightarrow> ([], Err e)
           | Inr _ \<Rightarrow>
               let should_promise = (case promised_term of None \<Rightarrow> True | Some promised \<Rightarrow> term \<ge> promised)
               in if should_promise then
                    let promise = ElectionProposal my_name own_vlsn own_priority own_term own_dtvlsn
                    in if \<not> sent1 then ([promise], Err NetworkError)
                       else (let (ms, r) = run_acceptor_phase2 my_name (Some term) sent2 received2
                             in (promise # ms, r))
                  else ([ElectionVote my_name False (case promised_term of None \<Rightarrow> own_term | Some t \<Rightarrow> t)],
                        if sent1 then Ok None else Err NetworkError))
      | Inr (Some _) \<Rightarrow> ([], Err ProtocolError))"

section \<open>The chosen value\<close>

definition candidates :: "PromiseRecord list \<Rightarrow> Proposal list" where
  "candidates ps = map proposal (filter (\<lambda>p. priority (proposal p) \<noteq> 0 \<and> \<not> is_arbiter p) ps)"

definition arbiters :: "PromiseRecord list \<Rightarrow> Proposal list" where
  "arbiters ps = map proposal (filter (\<lambda>p. priority (proposal p) \<noteq> 0 \<and> is_arbiter p) ps)"

lemma choose_loop_fold:
  "choose_loop ps chosen arb n =
     (foldl keep_better chosen (candidates ps), foldl keep_better arb (arbiters ps), n + length (candidates ps))"
  by (induction ps arbitrary: chosen arb n) (auto simp: candidates_def arbiters_def)

lemma foldl_keep_better_Some:
  "\<exists>b. foldl keep_better (Some a) xs = Some b \<and> b \<in> insert a (set xs) \<and> (\<forall>x \<in> insert a (set xs). ranking x \<le> ranking b)"
proof (induction xs arbitrary: a)
  case (Cons x xs)
  define a' where "a' = (if ranking a < ranking x then x else a)"
  obtain b where b: "foldl keep_better (Some a') xs = Some b" "b \<in> insert a' (set xs)"
    "\<forall>y \<in> insert a' (set xs). ranking y \<le> ranking b"
    using Cons.IH by blast
  have "ranking a \<le> ranking a'" "ranking x \<le> ranking a'" "a' \<in> {a, x}" by (auto simp: a'_def)
  moreover have "foldl keep_better (Some a) (x # xs) = Some b" using b(1) by (auto simp: a'_def)
  ultimately show ?case using b(2,3) by (fastforce intro: order_trans)
qed simp

lemma foldl_keep_better_eq_None: "foldl keep_better None xs = None \<longleftrightarrow> xs = []"
proof (cases xs)
  case (Cons a ys)
  then show ?thesis using foldl_keep_better_Some [of a ys] by auto
qed simp

lemma foldl_keep_better_max:
  assumes "foldl keep_better None xs = Some b"
  shows "b \<in> set xs \<and> (\<forall>x \<in> set xs. ranking x \<le> ranking b)"
proof (cases xs)
  case (Cons a ys)
  then show ?thesis using assms foldl_keep_better_Some [of a ys] by simp
qed (use assms in simp)

lemmas foldl_keep_better_None = foldl_keep_better_eq_None foldl_keep_better_max

lemma choose_Value:
  assumes "choose_phase2_value ps = Value p"
  shows "p \<in> set (candidates ps)" "\<forall>q \<in> set (candidates ps). ranking q \<le> ranking p"
    "length (candidates ps) \<le> 1 \<Longrightarrow> a \<in> set (arbiters ps) \<Longrightarrow> ranking a \<le> ranking p"
proof -
  have f: "foldl keep_better None (candidates ps) = Some p"
    using assms by (auto simp: choose_phase2_value_def choose_loop_fold split: option.splits if_splits)
  then show "p \<in> set (candidates ps)" "\<forall>q \<in> set (candidates ps). ranking q \<le> ranking p"
    using foldl_keep_better_None(2) by blast+
  show "ranking a \<le> ranking p" if few: "length (candidates ps) \<le> 1" and a: "a \<in> set (arbiters ps)"
  proof -
    obtain b where b: "foldl keep_better None (arbiters ps) = Some b"
      using foldl_keep_better_None(1) [of "arbiters ps"] a by fastforce
    then have "ranking a \<le> ranking b" using foldl_keep_better_None(2) a by blast
    moreover have "\<not> ranking p < ranking b"
      using assms f b few by (auto simp: choose_phase2_value_def choose_loop_fold split: if_splits)
    ultimately show ?thesis by simp
  qed
qed

lemma choose_none: "choose_phase2_value ps = NoNonZeroPriority \<longleftrightarrow> candidates ps = []"
  using foldl_keep_better_None(1) [of "candidates ps"]
  by (auto simp: choose_phase2_value_def choose_loop_fold split: option.splits)

lemma choose_veto:
  "choose_phase2_value ps = ArbiterVeto \<longleftrightarrow>
   (\<exists>c. candidates ps = [c] \<and> (\<exists>a \<in> set (arbiters ps). ranking c < ranking a))"
proof -
  obtain x where x: "foldl keep_better None (candidates ps) = x" by blast
  obtain y where y: "foldl keep_better None (arbiters ps) = y" by blast
  have one: "candidates ps = [c]" if "x = Some c" "length (candidates ps) \<le> 1" for c
    using that x by (cases "candidates ps") auto
  have arb: "(\<exists>a \<in> set (arbiters ps). r < ranking a) \<longleftrightarrow> (case y of None \<Rightarrow> False | Some b \<Rightarrow> r < ranking b)" for r
    using foldl_keep_better_None [of "arbiters ps"] y
    by (cases y) (auto intro: order_less_le_trans)
  show ?thesis
    using x y one
    by (cases x) (auto simp: choose_phase2_value_def choose_loop_fold arb split: if_splits option.splits)
qed

section \<open>What an election needs\<close>

definition promised :: "ProtocolMessage option \<Rightarrow> bool" where
  "promised m \<longleftrightarrow> (case m of Some (ElectionVote _ granted _) \<Rightarrow> granted | Some (ElectionProposal _ _ _ _ _) \<Rightarrow> True | _ \<Rightarrow> False)"

definition can_be_master_name :: "RepGroup \<Rightarrow> name \<Rightarrow> bool" where
  "can_be_master_name g nm \<longleftrightarrow> (\<exists>n. get_node g nm = Some n \<and> can_be_master n)"

definition advertised :: "(name \<Rightarrow> u64) \<Rightarrow> name \<Rightarrow> u64 \<Rightarrow> u32 \<Rightarrow> u64 \<Rightarrow> u64 \<Rightarrow> Proposal" where
  "advertised now nm v p t d = with_dtvlsn (Proposal_with_timestamp nm v p t (now nm)) d"

definition peer_records :: "RepGroup \<Rightarrow> (name \<Rightarrow> u64) \<Rightarrow> ProtocolMessage option \<Rightarrow> PromiseRecord list" where
  "peer_records g now m =
     (case m of
        Some (ElectionProposal nm v p t d) \<Rightarrow>
          if can_be_master_name g nm \<and> p \<noteq> 0 then [\<lparr> proposal = advertised now nm v p t d, is_arbiter = False \<rparr>]
          else if \<exists>n. get_node g nm = Some n \<and> NodeType_is_electable (node_type n) \<and> \<not> can_be_master n
          then [\<lparr> proposal = advertised now nm v p t d, is_arbiter = True \<rparr>]
          else []
      | _ \<Rightarrow> [])"

lemma can_be_master_name_code [code]:
  "can_be_master_name g nm = (case get_node g nm of None \<Rightarrow> False | Some n \<Rightarrow> can_be_master n)"
  by (auto simp: can_be_master_name_def split: option.splits)

lemma peer_records_code [code]:
  "peer_records g now m =
     (case m of
        Some (ElectionProposal nm v p t d) \<Rightarrow>
          if can_be_master_name g nm \<and> p \<noteq> 0 then [\<lparr> proposal = advertised now nm v p t d, is_arbiter = False \<rparr>]
          else if (case get_node g nm of None \<Rightarrow> False | Some n \<Rightarrow> NodeType_is_electable (node_type n) \<and> \<not> can_be_master n)
          then [\<lparr> proposal = advertised now nm v p t d, is_arbiter = True \<rparr>]
          else []
      | _ \<Rightarrow> [])"
  by (auto simp: peer_records_def split: option.splits ProtocolMessage.splits)

lemma phase1_loop_eq:
  "phase1_loop g now reply chs ps rs =
     (ps @ filter (\<lambda>ch. promised (reply ch)) chs, rs @ concat (map (\<lambda>ch. peer_records g now (reply ch)) chs))"
proof (induction chs arbitrary: ps rs)
  case (Cons ch chs)
  show ?case
  proof (cases "reply ch")
    case (Some m)
    then show ?thesis
      using Cons.IH
      by (cases m) (auto simp: promised_def peer_records_def can_be_master_name_def advertised_def Let_def
          split: option.splits bool.splits)
  qed (simp add: Cons.IH promised_def peer_records_def)
qed simp

definition election_records ::
  "RepGroup \<Rightarrow> (name \<Rightarrow> u64) \<Rightarrow> Proposal \<Rightarrow> ('ch \<Rightarrow> ProtocolMessage option) \<Rightarrow> 'ch list \<Rightarrow> PromiseRecord list" where
  "election_records g now our reply chs =
     \<lparr> proposal = our, is_arbiter = False \<rparr> # concat (map (\<lambda>ch. peer_records g now (reply ch)) chs)"

text \<open>
  The master that a round would elect, and the promises and acceptances it is elected with.
\<close>

definition election_value ::
  "name \<Rightarrow> RepGroup \<Rightarrow> 'ch list \<Rightarrow> u64 \<Rightarrow> u32 \<Rightarrow> u64 \<Rightarrow> u64 \<Rightarrow> (name \<Rightarrow> u64) \<Rightarrow> ('ch \<Rightarrow> ProtocolMessage option) \<Rightarrow> Phase2Value" where
  "election_value my_name g channels v prio term d now reply1 =
     choose_phase2_value (election_records g now (advertised now my_name v prio term d) reply1 channels)"

lemma run_election_SomeD:
  assumes "run_election_self my_id my_name g channels v prio term d now (Some self1) reply1 self_accept reply2 = Some i"
  obtains p where "can_be_master_name g my_name" "prio \<noteq> 0"
    "election_value my_name g channels v prio term d now reply1 = Value p"
    "phase1_quorum g \<le> length (filter (\<lambda>ch. promised (reply1 ch)) channels) + of_bool self1"
    "0 < phase2_quorum g"
    "phase2_quorum g \<le> length (filter (\<lambda>ch. promised (reply1 ch) \<and>
        vote_granted (reply2 (ElectionResult (node_name p) term) ch)) channels) + of_bool (self1 \<and> self_accept (node_name p))"
    "i = (if node_name p = my_name then my_id
          else case get_node g (node_name p) of Some n \<Rightarrow> node_id n | None \<Rightarrow> my_id)"
proof -
  have "can_be_master_name g my_name" "prio \<noteq> 0" "0 < phase2_quorum g"
    using assms by (auto simp: run_election_self_def can_be_master_name_def split: if_splits option.splits)
  moreover obtain p where "election_value my_name g channels v prio term d now reply1 = Value p"
    "phase1_quorum g \<le> length (filter (\<lambda>ch. promised (reply1 ch)) channels) + of_bool self1"
    "phase2_quorum g \<le> length (filter (\<lambda>ch. promised (reply1 ch) \<and>
        vote_granted (reply2 (ElectionResult (node_name p) term) ch)) channels) + of_bool (self1 \<and> self_accept (node_name p))"
    "i = (if node_name p = my_name then my_id
          else case get_node g (node_name p) of Some n \<Rightarrow> node_id n | None \<Rightarrow> my_id)"
    using assms
    by (auto simp: run_election_self_def phase1_loop_eq election_value_def election_records_def
        advertised_def [symmetric] Let_def conj_commute not_less not_le
        split: if_splits option.splits Phase2Value.splits)
  ultimately show thesis using that by blast
qed

text \<open>A record of a candidate comes from a node that may be master.\<close>

lemma value_can_be_master:
  assumes "can_be_master_name g my_name" "election_value my_name g channels v prio t d now reply1 = Value p"
  shows "can_be_master_name g (node_name p)"
  using choose_Value(1) [OF assms(2) [unfolded election_value_def]] assms(1)
  by (auto simp: election_records_def candidates_def peer_records_def advertised_def with_dtvlsn_def
      Proposal_with_timestamp_def split: option.splits ProtocolMessage.splits if_splits)

lemma winner_id:
  assumes "can_be_master_name g nm" "map_option node_id (get_node g my_name) = Some my_id"
  shows "map_option node_id (get_node g nm) =
    Some (if nm = my_name then my_id else case get_node g nm of Some n \<Rightarrow> node_id n | None \<Rightarrow> my_id)"
  using assms by (auto simp: can_be_master_name_def)

text \<open>
  C34. The node that an election returns may be master, has a priority other than 0, and ranks
  at least as high, by durable position, log position, priority and name, as every candidate that
  promised, the proposer included; when it is the only candidate it also ranks as high as
  every arbiter that promised.
\<close>

theorem election_winner:
  assumes "run_election_self my_id my_name g channels v prio t d now (Some self1) reply1 self_accept reply2 = Some i"
    "map_option node_id (get_node g my_name) = Some my_id"
  shows "\<exists>p. election_value my_name g channels v prio t d now reply1 = Value p \<and>
    map_option node_id (get_node g (node_name p)) = Some i \<and> can_be_master_name g (node_name p) \<and> priority p \<noteq> 0 \<and>
    (let records = election_records g now (advertised now my_name v prio t d) reply1 channels in
     (\<forall>q \<in> set (candidates records). ranking q \<le> ranking p) \<and>
     (length (candidates records) \<le> 1 \<longrightarrow> (\<forall>a \<in> set (arbiters records). ranking a \<le> ranking p)))"
  using assms(1)
proof (rule run_election_SomeD)
  fix p
  assume p: "can_be_master_name g my_name" "election_value my_name g channels v prio t d now reply1 = Value p"
    and i: "i = (if node_name p = my_name then my_id
          else case get_node g (node_name p) of Some n \<Rightarrow> node_id n | None \<Rightarrow> my_id)"
  note chosen = choose_Value [OF p(2) [unfolded election_value_def]]
  have m: "can_be_master_name g (node_name p)" by (rule value_can_be_master [OF p])
  moreover have "map_option node_id (get_node g (node_name p)) = Some i"
    unfolding i by (rule winner_id [OF m assms(2)])
  moreover have "priority p \<noteq> 0" using chosen(1) by (auto simp: candidates_def)
  ultimately show ?thesis using p(2) chosen(2,3) unfolding Let_def by blast
qed

theorem election_winner_witness:
  "\<exists>p. election_value [0x61] (fst (add_node (RepGroup_new [] 1) (RepNode_new [0x61] Electable [] 1 7))) ([] :: nat list) 3 1 1 0 (\<lambda>_. 0) (\<lambda>_. None) = Value p \<and>
    can_be_master_name (fst (add_node (RepGroup_new [] 1) (RepNode_new [0x61] Electable [] 1 7))) (node_name p) \<and> priority p \<noteq> 0"
proof -
  let ?g = "fst (add_node (RepGroup_new [] 1) (RepNode_new [0x61] Electable [] 1 7))"
  have "run_election_self 7 [0x61] ?g ([] :: nat list) 3 1 1 0 (\<lambda>_. 0) (Some True) (\<lambda>_. None) (\<lambda>_. True) (\<lambda>_ _. None) = Some 7"
    by code_simp
  moreover have "map_option node_id (get_node ?g [0x61]) = Some 7" by code_simp
  ultimately show ?thesis using election_winner by metis
qed

section \<open>The session without a stored state\<close>

text \<open>A whole session with a stored state: the two parts one after the other.\<close>

definition stored_session ::
  "(bytes \<Rightarrow> u32) \<Rightarrow> name list option \<Rightarrow> name \<Rightarrow> u64 \<Rightarrow> u32 \<Rightarrow> u64 \<Rightarrow> u64 \<Rightarrow> node_state \<Rightarrow> bool \<Rightarrow> RepError + ProtocolMessage option \<Rightarrow>
     bool \<Rightarrow> RepError + ProtocolMessage option \<Rightarrow> ProtocolMessage list \<times> (RepError + name option)" where
  "stored_session crc ident my_name v p t d s sent1 received1 sent2 received2 =
     (let (s1, reply1, out) = acceptor_phase1 crc FlushOk 0 ident my_name v p t d sent1 received1 s
      in case out of
           Ended r \<Rightarrow> (case reply1 of None \<Rightarrow> [] | Some m \<Rightarrow> [m], r)
         | Promised t1 proposer \<Rightarrow>
             let (s2, reply2, r) = acceptor_phase2 crc FlushOk my_name t1 proposer sent2 received2 s1
             in ((case reply1 of None \<Rightarrow> [] | Some m \<Rightarrow> [m]) @ (case reply2 of None \<Rightarrow> [] | Some m \<Rightarrow> [m]), r))"

text \<open>The term of the result differs from the term of the proposal, or the proposal has term 0.\<close>

definition term_changed :: "RepError + ProtocolMessage option \<Rightarrow> RepError + ProtocolMessage option \<Rightarrow> bool" where
  "term_changed received1 received2 \<longleftrightarrow>
     (case (received1, received2) of
        (Inr (Some (ElectionProposal _ _ _ t _)), Inr (Some (ElectionResult _ t'))) \<Rightarrow> t \<noteq> t' \<or> t = 0
      | _ \<Rightarrow> False)"

text \<open>
  C35. A session of the acceptor without a stored state sends the messages, and returns the
  result, of a session with a fresh in-memory state and no durable position, unless the result
  comes with another term than the proposal, or with term 0.
\<close>

theorem run_acceptor_equiv:
  "term_changed received1 received2 \<or>
   run_acceptor ident my_name v p t sent1 received1 sent2 received2 =
   stored_session crc ident my_name v p t 0 ((in_memory, None), latch) sent1 received1 sent2 received2"
proof (cases "\<exists>nm v p t d. received1 = Inr (Some (ElectionProposal nm v p t d))")
  case True
  then obtain nm v' p' t' d' where r1: "received1 = Inr (Some (ElectionProposal nm v' p' t' d'))" by blast
  show ?thesis
    by (auto simp: r1 term_changed_def run_acceptor_def run_acceptor_phase2_def stored_session_def acceptor_phase1_def
        acceptor_phase2_def try_promise_proposal_def try_accept_proposal_def flush_locked_def in_memory_def Let_def
        split: sum.splits option.splits ProtocolMessage.splits if_splits)
next
  case False
  then show ?thesis
    by (auto simp: run_acceptor_def stored_session_def acceptor_phase1_def split: sum.splits option.splits ProtocolMessage.splits)
qed

section \<open>Freezes end\<close>

text \<open>
  What the operations keep of a latch that is only frozen for rounds of elections: a freeze
  belongs to a round and ends within the time-out.
\<close>

definition latch_ok :: "nat \<Rightarrow> CommitFreezeLatch \<Rightarrow> bool" where
  "latch_ok now l \<longleftrightarrow> (\<forall>p. fl_proposal l = Some p \<longrightarrow> p = round_proposal (pterm p)) \<and>
     (frozen l \<longrightarrow> fl_proposal l \<noteq> None \<and> (\<exists>e. freeze_end l = Some e \<and> e \<le> now + fl_timeout l))"

lemma pterm_round_proposal [simp]: "pterm (round_proposal t) = t"
  by (simp add: round_proposal_def with_dtvlsn_def Proposal_with_timestamp_def)

lemma round_proposal_less: "ranking (round_proposal t) < ranking (round_proposal u) \<longleftrightarrow> t < u"
  by (auto simp: ranking_def round_proposal_def with_dtvlsn_def Proposal_with_timestamp_def)

lemma latch_ok_new: "latch_ok now (CommitFreezeLatch_with_timeout t)"
  by (simp add: latch_ok_def CommitFreezeLatch_with_timeout_def)

lemma latch_ok_later: "latch_ok now l \<Longrightarrow> now \<le> now' \<Longrightarrow> latch_ok now' l"
  by (fastforce simp: latch_ok_def)

lemma latch_ok_freeze: "latch_ok now l \<Longrightarrow> latch_ok now (freeze now (round_proposal t) l)"
  by (auto simp: latch_ok_def freeze_def Let_def split: option.splits)

lemma latch_ok_event: "latch_ok now l \<Longrightarrow> latch_ok now (vlsn_event p l)"
  by (auto simp: latch_ok_def vlsn_event_def split: option.splits)

lemma latch_ok_clear: "latch_ok now (clear_latch l)"
  by (simp add: latch_ok_def clear_latch_def)

lemma latch_ok_await: "latch_ok now l \<Longrightarrow> latch_ok now (fst (await_thaw now l))"
  by (auto simp: latch_ok_def await_thaw_def await_loop_def Let_def)

lemma event_lifts:
  assumes "latch_ok now l" "frozen (vlsn_event (round_proposal t) l)"
  shows "\<exists>r > t. fl_proposal (vlsn_event (round_proposal t) l) = Some (round_proposal r)"
proof -
  obtain p where p: "fl_proposal l = Some p" "ranking (round_proposal t) < ranking p"
    using assms by (auto simp: vlsn_event_def latch_ok_def split: option.splits if_splits)
  then have "p = round_proposal (pterm p)" using assms(1) by (simp add: latch_ok_def)
  then show ?thesis
    using p round_proposal_less [of t "pterm p"] by (auto simp: vlsn_event_def)
qed

lemma phase2_latch:
  "\<exists>u \<ge> t1. snd (fst (acceptor_phase2 crc io nm t1 proposer sent received (acc, Some l))) =
     Some (vlsn_event (round_proposal u) l)"
  by (auto simp: acceptor_phase2_def Let_def split: sum.splits option.splits ProtocolMessage.splits prod.splits
      intro: exI [of _ t1] exI [of _ "max _ t1"])



end
