(* ===== verification/Election_Safety.thy ===== *)
theory Election_Safety
  imports Election_Paxos
begin

text \<open>
  Elections as a system: the acceptors of all nodes run sessions of any number of proposers,
  vote on their own rounds, and crash and restart, in any order.  At most one master is elected
  per term under majority quorums; the section on quorum policies shows what goes wrong without
  them, and the last section what elections preserve of committed transactions.
\<close>

section \<open>Quorums\<close>

lemma sets_meet:
  assumes "finite V" "A \<subseteq> V" "B \<subseteq> V" "card V < card A + card B"
  shows "A \<inter> B \<noteq> {}"
proof
  assume "A \<inter> B = {}"
  then have "card A + card B = card (A \<union> B)"
    using assms finite_subset by (metis card_Un_disjoint)
  also have "\<dots> \<le> card V" using assms by (intro card_mono) auto
  finally show False using assms(4) by linarith
qed

text \<open>
  The contract between a quorum policy and its users: the sizes of the two quorums make every
  first-phase quorum meet every second-phase quorum.
\<close>

locale quorum_sizes =
  fixes size1 size2 :: "nat \<Rightarrow> nat" and safe :: "nat \<Rightarrow> bool"
  assumes overlap: "safe n \<Longrightarrow> n < size1 n + size2 n"
begin

lemma quorums_meet:
  assumes "finite V" "safe (card V)" "A \<subseteq> V" "B \<subseteq> V" "size1 (card V) \<le> card A" "size2 (card V) \<le> card B"
  shows "A \<inter> B \<noteq> {}"
  using assms overlap [OF assms(2)] by (intro sets_meet [of V]) auto

end

lemma majority_overlap: "0 < n \<Longrightarrow> n < majority_size n + majority_size n"
  by (simp add: majority_size_def)

interpretation majority: quorum_sizes
  "QuorumPolicy_phase1_quorum SimpleMajority" "QuorumPolicy_phase2_quorum SimpleMajority" "\<lambda>n. 0 < n"
  by unfold_locales (simp add: majority_overlap)

interpretation flexible: quorum_sizes
  "QuorumPolicy_phase1_quorum (Flexible p1 p2)" "QuorumPolicy_phase2_quorum (Flexible p1 p2)"
  "validate (Flexible p1 p2)" for p1 p2
  by unfold_locales simp

section \<open>One acceptor\<close>

text \<open>
  \<open>V\<close> is the set of votes that an acceptor has granted, as (term, proposer, master).  A state
  covers them when it cannot grant a different master for the term of any of them.
\<close>

definition covers :: "(u64 \<times> name \<times> name) set \<Rightarrow> PersistentAcceptorState \<Rightarrow> bool" where
  "covers V st \<longleftrightarrow> accepted_term st \<le> promised_term st \<and>
     (\<forall>(t, proposer, master) \<in> V. t \<le> accepted_term st \<and>
        (t = accepted_term st \<longrightarrow> accepted_master st = Some master \<or> accepted_master st = None))"

definition names_ok :: "PersistentAcceptorState \<Rightarrow> bool" where
  "names_ok st \<longleftrightarrow> storable (promised_proposer st) \<and> storable (accepted_master st)"

definition one_value :: "(u64 \<times> name \<times> name) set \<Rightarrow> bool" where
  "one_value V \<longleftrightarrow> (\<forall>(t, p, m) \<in> V. \<forall>(t', p', m') \<in> V. t = t' \<longrightarrow> m = m')"

definition file_covers :: "(bytes \<Rightarrow> u32) \<Rightarrow> (u64 \<times> name \<times> name) set \<Rightarrow> bytes option \<Rightarrow> bool" where
  "file_covers crc V disk \<longleftrightarrow> (disk = None \<and> V = {}) \<or>
     (\<exists>st. disk = Some (state_bytes crc st) \<and> covers V st \<and> names_ok st)"

definition acceptor_inv :: "(bytes \<Rightarrow> u32) \<Rightarrow> (u64 \<times> name \<times> name) set \<Rightarrow> acceptor \<Rightarrow> bool" where
  "acceptor_inv crc V acc \<longleftrightarrow> one_value V \<and> covers V (fst acc) \<and> names_ok (fst acc) \<and>
     (persist_path (fst acc) \<longrightarrow> file_covers crc V (snd acc))"

lemma covers_promise:
  "covers V st \<Longrightarrow> promise_number st \<le> (t, Some proposer) \<Longrightarrow> covers V (with_promise t proposer st)"
  by (auto simp: covers_def promise_number_def with_promise_def intro: order_trans)

lemma covers_accept:
  assumes "covers V st" "promise_number st = (t, Some proposer)"
    "accepted_term st \<noteq> t \<or> accepted_master st = Some master"
  shows "covers (insert (t, p, master) V) (with_accept t master st)"
    and "(t, q, m) \<in> V \<Longrightarrow> m = master"
  using assms
  by (auto simp: covers_def promise_number_def with_accept_def dest!: bspec intro: order_trans)

lemma covers_subset: "covers V st \<Longrightarrow> W \<subseteq> V \<Longrightarrow> covers W st"
  by (auto simp: covers_def)

lemma covers_reloaded: "covers V st \<Longrightarrow> covers V (reloaded st)"
  by (auto simp: covers_def reloaded_def stored_name_def)

lemma names_ok_reloaded: "names_ok st \<Longrightarrow> names_ok (reloaded st)"
  by (auto simp: names_ok_def reloaded_def stored_name_def storable_def)

lemma acceptor_inv_promise:
  assumes "acceptor_inv crc V (st, disk)" "storable (Some proposer)"
    "try_promise_proposal crc io (st, disk) t proposer = ((st', disk'), granted)"
  shows "acceptor_inv crc V (st', disk')"
  using assms(3)
proof (cases rule: try_promise_cases)
  case rejected
  then show ?thesis using assms(1) by simp
next
  case unflushed
  have "covers V (with_promise t proposer st)" "names_ok (with_promise t proposer st)"
    using assms(1,2) unflushed(3) covers_promise
    by (auto simp: acceptor_inv_def names_ok_def with_promise_def)
  then show ?thesis
    using assms(1) unflushed by (auto simp: acceptor_inv_def file_covers_def)
next
  case granted
  have "covers V st'" "names_ok st'" "persist_path st' = persist_path st"
    using assms(1,2) granted(2,3) covers_promise
    by (auto simp: acceptor_inv_def names_ok_def with_promise_def)
  then show ?thesis
    using assms(1) granted by (auto simp: acceptor_inv_def file_covers_def)
qed

lemma acceptor_inv_accept:
  assumes "acceptor_inv crc V (st, disk)" "storable (Some master)"
    "try_accept_proposal crc io (st, disk) t proposer master = ((st', disk'), granted)"
  shows "acceptor_inv crc (if granted then insert (t, proposer, master) V else V) (st', disk')"
  using assms(3)
proof (cases rule: try_accept_cases)
  case rejected
  then show ?thesis using assms(1) by simp
next
  case unflushed
  have "covers (insert (t, proposer, master) V) (with_accept t master st)"
    using assms(1) covers_accept(1) [OF _ unflushed(3,5)] by (simp add: acceptor_inv_def)
  then have "covers V (with_accept t master st)" by (rule covers_subset) blast
  moreover have "names_ok (with_accept t master st)"
    using assms(1,2) by (auto simp: acceptor_inv_def names_ok_def with_accept_def)
  ultimately show ?thesis
    using assms(1) unflushed by (auto simp: acceptor_inv_def file_covers_def)
next
  case granted
  note c = covers_accept [OF _ granted(3,4), of V]
  have inv: "covers V st" "names_ok st" "one_value V"
    using assms(1) by (auto simp: acceptor_inv_def)
  have "covers (insert (t, proposer, master) V) st'" "names_ok st'" "persist_path st' = persist_path st"
    using c(1) inv assms(2) granted(2) by (auto simp: names_ok_def with_accept_def)
  moreover have "one_value (insert (t, proposer, master) V)"
    using inv(3) c(2) [OF inv(1)] by (auto simp: one_value_def)
  ultimately show ?thesis
    using granted inv by (auto simp: acceptor_inv_def file_covers_def)
qed

lemma acceptor_inv_restart:
  assumes "acceptor_inv crc V (st, disk)" "persist_path st"
  shows "acceptor_inv crc V (load_or_default crc True disk)"
proof -
  have "file_covers crc V disk" "one_value V" using assms by (auto simp: acceptor_inv_def)
  then consider "disk = None" "V = {}" | st' where "disk = Some (state_bytes crc st')" "covers V st'" "names_ok st'"
    by (auto simp: file_covers_def)
  then show ?thesis
  proof cases
    case 1
    then show ?thesis
      by (auto simp: load_or_default_def load_from_disk_def acceptor_inv_def one_value_def covers_def
          names_ok_def storable_def in_memory_def file_covers_def)
  next
    case 2
    then have "load_or_default crc True disk = (reloaded st', disk)"
      by (simp add: load_or_default_flushed names_ok_def)
    with 2 \<open>one_value V\<close> show ?thesis
      by (auto simp: acceptor_inv_def covers_reloaded names_ok_reloaded file_covers_def)
  qed
qed

section \<open>The system\<close>

record election_system =
  node_states :: "name \<Rightarrow> node_state"
  votes :: "(name \<times> u64 \<times> name \<times> name) set"

text \<open>
  A step of one node \<open>a\<close>.  Sessions of peers: \<open>acceptor_phase1\<close> on any message, and
  \<open>acceptor_phase2\<close> for any promise and any message, so that sessions interleave freely.  The
  node's own rounds: \<open>try_promise_proposal\<close> and \<open>try_accept_proposal\<close> on its own acceptor.  A
  restart of a persistent node reloads its file.  \<open>votes\<close> records every acceptance granted.
\<close>

fun proposer_storable :: "RepError + ProtocolMessage option \<Rightarrow> bool" where
  "proposer_storable (Inr (Some (ElectionProposal nm v p t d))) = storable (Some nm)"
| "proposer_storable _ = True"

inductive election_step :: "(bytes \<Rightarrow> u32) \<Rightarrow> election_system \<Rightarrow> election_system \<Rightarrow> bool" for crc where
  session1: "proposer_storable received \<Longrightarrow>
    acceptor_phase1 crc io now ident a own_vlsn own_prio own_term own_dtvlsn sent received (node_states s a) = (n, reply, out) \<Longrightarrow>
    election_step crc s (s\<lparr>node_states := (node_states s)(a := n)\<rparr>)"
| session2: "received = Inr (Some (ElectionResult master t)) \<Longrightarrow> storable (Some master) \<Longrightarrow>
    acceptor_phase2 crc io a t1 proposer sent received (node_states s a) = (n, reply, out) \<Longrightarrow>
    election_step crc s (s\<lparr>node_states := (node_states s)(a := n),
      votes := (if vote_granted reply then insert (a, t, proposer, master) (votes s) else votes s)\<rparr>)"
| session2_no_result: "(\<And>master t. received \<noteq> Inr (Some (ElectionResult master t))) \<Longrightarrow>
    acceptor_phase2 crc io a t1 proposer sent received (node_states s a) = (n, reply, out) \<Longrightarrow>
    election_step crc s (s\<lparr>node_states := (node_states s)(a := n)\<rparr>)"
| self_promise: "storable (Some a) \<Longrightarrow> node_states s a = (acc, latch) \<Longrightarrow>
    try_promise_proposal crc io acc t a = (acc', granted) \<Longrightarrow>
    election_step crc s (s\<lparr>node_states := (node_states s)(a := (acc', latch))\<rparr>)"
| self_accept: "storable (Some master) \<Longrightarrow> node_states s a = (acc, latch) \<Longrightarrow>
    try_accept_proposal crc io acc t a master = (acc', granted) \<Longrightarrow>
    election_step crc s (s\<lparr>node_states := (node_states s)(a := (acc', latch)),
      votes := (if granted then insert (a, t, a, master) (votes s) else votes s)\<rparr>)"
| restart: "node_states s a = (acc, latch) \<Longrightarrow> persist_path (fst acc) \<Longrightarrow>
    election_step crc s (s\<lparr>node_states := (node_states s)(a := (load_or_default crc True (snd acc), latch'))\<rparr>)"

definition election_init :: "election_system \<Rightarrow> bool" where
  "election_init s \<longleftrightarrow> votes s = {} \<and>
     (\<forall>a. fst (node_states s a) \<in> {(in_memory, None), (in_memory\<lparr>persist_path := True\<rparr>, None)})"

inductive election_reachable :: "(bytes \<Rightarrow> u32) \<Rightarrow> election_system \<Rightarrow> bool" for crc where
  start: "election_init s \<Longrightarrow> election_reachable crc s"
| step: "election_reachable crc s \<Longrightarrow> election_step crc s s' \<Longrightarrow> election_reachable crc s'"

definition votes_of :: "election_system \<Rightarrow> name \<Rightarrow> (u64 \<times> name \<times> name) set" where
  "votes_of s a = {v. (a, v) \<in> votes s}"

definition election_inv :: "(bytes \<Rightarrow> u32) \<Rightarrow> election_system \<Rightarrow> bool" where
  "election_inv crc s \<longleftrightarrow> (\<forall>a. acceptor_inv crc (votes_of s a) (fst (node_states s a)))"

lemma election_inv_init: "election_init s \<Longrightarrow> election_inv crc s"
  unfolding election_inv_def
proof
  fix a assume "election_init s"
  then show "acceptor_inv crc (votes_of s a) (fst (node_states s a))"
    by (auto simp: election_init_def votes_of_def acceptor_inv_def one_value_def covers_def names_ok_def
        storable_def in_memory_def file_covers_def dest!: spec [of _ a])
qed

text \<open>Only the acceptor of the node that takes the step, and the votes of that node, change.\<close>

lemma election_inv_update:
  assumes "election_inv crc s" "acceptor_inv crc V (fst n)"
    "votes s' = {(b, v). if b = a then v \<in> V else (b, v) \<in> votes s}"
    "node_states s' = (node_states s)(a := n)"
  shows "election_inv crc s'"
  using assms by (auto simp: election_inv_def votes_of_def)

text \<open>What the two parts of a session do to the acceptor.\<close>

lemma acceptor_phase1_inv:
  assumes "acceptor_inv crc V (fst n0)" "proposer_storable received"
    "acceptor_phase1 crc io now ident a own_vlsn own_prio own_term own_dtvlsn sent received n0 = (n, reply, out)"
  shows "acceptor_inv crc V (fst n)"
proof (cases "fst n = fst n0")
  case False
  obtain st disk latch where n0: "n0 = ((st, disk), latch)" by (metis prod.exhaust)
  obtain nm v p t d granted where
    "received = Inr (Some (ElectionProposal nm v p t d))"
    "try_promise_proposal crc io (st, disk) t nm = (fst n, granted)"
    using assms(3) False n0
    by (auto simp: acceptor_phase1_def Let_def split: sum.splits option.splits ProtocolMessage.splits prod.splits if_splits)
  then show ?thesis
    using acceptor_inv_promise [of crc V st disk nm io t "fst (fst n)" "snd (fst n)" granted] assms(1,2) n0 by simp
qed (use assms(1) in simp)

lemma acceptor_phase2_inv:
  assumes "acceptor_inv crc V (fst n0)" "storable (Some master)"
    "acceptor_phase2 crc io a t1 proposer sent (Inr (Some (ElectionResult master t))) n0 = (n, reply, out)"
  shows "acceptor_inv crc (if vote_granted reply then insert (t, proposer, master) V else V) (fst n)"
proof -
  obtain st disk latch where n0: "n0 = ((st, disk), latch)" by (metis prod.exhaust)
  show ?thesis
  proof (cases "t = t1")
    case True
    then obtain granted where g: "try_accept_proposal crc io (st, disk) t proposer master = (fst n, granted)"
      "reply = Some (ElectionVote a granted t)"
      using assms(3) n0 by (auto simp: acceptor_phase2_def Let_def split: prod.splits)
    show ?thesis
      using acceptor_inv_accept [of crc V st disk master io t proposer "fst (fst n)" "snd (fst n)" granted] assms(1,2) n0 g
      by simp
  next
    case False
    then show ?thesis using assms(1,3) n0 by (auto simp: acceptor_phase2_def Let_def)
  qed
qed

lemma acceptor_phase2_no_result:
  assumes "\<And>master t. received \<noteq> Inr (Some (ElectionResult master t))"
    "acceptor_phase2 crc io a t1 proposer sent received n0 = (n, reply, out)"
  shows "fst n = fst n0"
  using assms
  by (cases n0) (auto simp: acceptor_phase2_def Let_def split: sum.splits option.splits ProtocolMessage.splits)

lemma election_inv_step:
  assumes "election_step crc s s'" "election_inv crc s"
  shows "election_inv crc s'"
proof -
  have inv: "acceptor_inv crc (votes_of s a) (fst (node_states s a))" for a
    using assms(2) by (simp add: election_inv_def)
  from assms(1) show ?thesis
  proof cases
    case (session1 received io now ident a own_vlsn own_prio own_term own_dtvlsn sent n reply out)
    have "acceptor_inv crc (votes_of s a) (fst n)"
      using acceptor_phase1_inv [OF inv session1(2,3)] .
    then show ?thesis
      by (rule election_inv_update [OF assms(2), where a = a]) (auto simp: session1(1) votes_of_def)
  next
    case (session2 received master t io a t1 proposer sent n reply out)
    have "acceptor_inv crc (if vote_granted reply then insert (t, proposer, master) (votes_of s a) else votes_of s a) (fst n)"
      using acceptor_phase2_inv [OF inv session2(3) session2(4) [unfolded session2(2)]] .
    then show ?thesis
      by (rule election_inv_update [OF assms(2), where a = a]) (auto simp: session2(1) votes_of_def)
  next
    case (session2_no_result received io a t1 proposer sent n reply out)
    have "acceptor_inv crc (votes_of s a) (fst n)"
      using inv [of a] acceptor_phase2_no_result [OF session2_no_result(2,3)] by simp
    then show ?thesis
      by (rule election_inv_update [OF assms(2), where a = a]) (auto simp: session2_no_result(1) votes_of_def)
  next
    case (self_promise a acc latch io t acc' granted)
    have "acceptor_inv crc (votes_of s a) (fst (acc', latch))"
      using inv [of a] self_promise(2,3,4) acceptor_inv_promise [of crc _ "fst acc" "snd acc" a io t "fst acc'" "snd acc'" granted]
      by simp
    then show ?thesis
      by (rule election_inv_update [OF assms(2), where a = a]) (auto simp: self_promise(1) votes_of_def)
  next
    case (self_accept master a acc latch io t acc' granted)
    have "acceptor_inv crc (if granted then insert (t, a, master) (votes_of s a) else votes_of s a) (fst (acc', latch))"
      using inv [of a] self_accept(2,3,4) acceptor_inv_accept [of crc _ "fst acc" "snd acc" master io t a "fst acc'" "snd acc'" granted]
      by simp
    then show ?thesis
      by (rule election_inv_update [OF assms(2), where a = a]) (auto simp: self_accept(1) votes_of_def split: if_splits)
  next
    case (restart a acc latch latch')
    have "acceptor_inv crc (votes_of s a) (fst (load_or_default crc True (snd acc), latch'))"
      using inv [of a] restart(2,3) acceptor_inv_restart [of crc _ "fst acc" "snd acc"] by simp
    then show ?thesis
      by (rule election_inv_update [OF assms(2), where a = a]) (auto simp: restart(1) votes_of_def)
  qed
qed

lemma election_inv_reachable: "election_reachable crc s \<Longrightarrow> election_inv crc s"
  by (induction rule: election_reachable.induct) (simp_all add: election_inv_init election_inv_step)

section \<open>Concrete runs\<close>

text \<open>
  Runs of in-memory acceptors, as lists of events: a node serves the first or the second part of
  a session of a proposer, or votes on its own round.
\<close>

datatype vote_event =
    PeerPromise name name u64
  | PeerAccept name name u64 name
  | OwnPromise name u64
  | OwnAccept name u64 name

definition zero_crc :: "bytes \<Rightarrow> u32" where
  "zero_crc _ = 0"

definition fresh_nodes :: election_system where
  "fresh_nodes = \<lparr> node_states = (\<lambda>_. ((in_memory, None), None)), votes = {} \<rparr>"

fun play :: "election_system \<Rightarrow> vote_event \<Rightarrow> election_system" where
  "play s (PeerPromise a proposer t) =
     s\<lparr>node_states := (node_states s)(a := fst (acceptor_phase1 zero_crc FlushOk 0 None a 0 1 0 0 True
         (Inr (Some (ElectionProposal proposer 0 1 t 0))) (node_states s a)))\<rparr>"
| "play s (PeerAccept a proposer t master) =
     (let (n, reply, out) = acceptor_phase2 zero_crc FlushOk a t proposer True
            (Inr (Some (ElectionResult master t))) (node_states s a)
      in s\<lparr>node_states := (node_states s)(a := n),
           votes := (if vote_granted reply then insert (a, t, proposer, master) (votes s) else votes s)\<rparr>)"
| "play s (OwnPromise a t) =
     (let (acc, latch) = node_states s a; (acc', granted) = try_promise_proposal zero_crc FlushOk acc t a
      in s\<lparr>node_states := (node_states s)(a := (acc', latch))\<rparr>)"
| "play s (OwnAccept a t master) =
     (let (acc, latch) = node_states s a; (acc', granted) = try_accept_proposal zero_crc FlushOk acc t a master
      in s\<lparr>node_states := (node_states s)(a := (acc', latch)),
           votes := (if granted then insert (a, t, a, master) (votes s) else votes s)\<rparr>)"

fun event_storable :: "vote_event \<Rightarrow> bool" where
  "event_storable (PeerPromise a proposer t) = storable (Some proposer)"
| "event_storable (PeerAccept a proposer t master) = storable (Some master)"
| "event_storable (OwnPromise a t) = storable (Some a)"
| "event_storable (OwnAccept a t master) = storable (Some master)"

lemma play_step: "event_storable e \<Longrightarrow> election_step zero_crc s (play s e)"
proof (cases e)
  case (PeerPromise a proposer t)
  assume "event_storable e"
  then show ?thesis
    using PeerPromise by (simp, intro election_step.session1) (auto simp: prod_eq_iff)
next
  case (PeerAccept a proposer t master)
  assume "event_storable e"
  moreover obtain n reply out where "acceptor_phase2 zero_crc FlushOk a t proposer True
    (Inr (Some (ElectionResult master t))) (node_states s a) = (n, reply, out)" by (rule prod_cases3)
  ultimately show ?thesis
    using PeerAccept election_step.session2 [OF refl, of master zero_crc FlushOk a t proposer True t s n reply out]
    by simp
next
  case (OwnPromise a t)
  assume "event_storable e"
  moreover obtain acc latch where "node_states s a = (acc, latch)" by fastforce
  moreover obtain acc' granted where "try_promise_proposal zero_crc FlushOk acc t a = (acc', granted)" by fastforce
  ultimately show ?thesis
    using OwnPromise election_step.self_promise [of a s acc latch zero_crc FlushOk t acc' granted] by simp
next
  case (OwnAccept a t master)
  assume "event_storable e"
  moreover obtain acc latch where "node_states s a = (acc, latch)" by fastforce
  moreover obtain acc' granted where "try_accept_proposal zero_crc FlushOk acc t a master = (acc', granted)" by fastforce
  ultimately show ?thesis
    using OwnAccept election_step.self_accept [of master s a acc latch zero_crc FlushOk t acc' granted] by simp
qed

lemma play_reachable:
  "list_all event_storable es \<Longrightarrow> election_reachable zero_crc (foldl play fresh_nodes es)"
proof (induction es rule: rev_induct)
  case Nil
  then show ?case
    by (auto simp: fresh_nodes_def election_init_def intro: election_reachable.start)
next
  case (snoc e es)
  then show ?case by (auto intro: election_reachable.step play_step)
qed

text \<open>
  Groups of electable nodes with one-letter names, identified by their position, and replies of
  their acceptors: every peer advertises a position in the log, and the given voters accept.
\<close>

definition letters :: "nat \<Rightarrow> QuorumPolicy \<Rightarrow> RepGroup" where
  "letters n policy = foldl (\<lambda>g i. fst (add_node g (RepNode_new [0x60 + of_nat i] Electable [] 5000 (of_nat i))))
     (with_policy [] 1 policy) [1..<n + 1]"

definition advertises :: "(name \<Rightarrow> u64) \<Rightarrow> name \<Rightarrow> ProtocolMessage option" where
  "advertises at ch = Some (ElectionProposal ch (at ch) 1 0 0)"

definition accepts_from :: "name list \<Rightarrow> name \<Rightarrow> u64 \<Rightarrow> ProtocolMessage \<Rightarrow> name \<Rightarrow> ProtocolMessage option" where
  "accepts_from accepting master t m ch = Some (ElectionVote ch (m = ElectionResult master t \<and> ch \<in> set accepting) t)"

section \<open>One master per term\<close>

text \<open>
  A round that node \<open>me\<close> runs in the group: its channels lead to different electable peers, the
  identifier it claims is its own, and every acceptance it counted was granted, by the peer at
  the other end of the channel or by its own acceptor.
\<close>

definition round_in :: "election_system \<Rightarrow> RepGroup \<Rightarrow> u32 \<Rightarrow> name \<Rightarrow> name list \<Rightarrow> u64 \<Rightarrow>
    (name \<Rightarrow> bool) \<Rightarrow> (ProtocolMessage \<Rightarrow> name \<Rightarrow> ProtocolMessage option) \<Rightarrow> bool" where
  "round_in s g my_id me channels t self_accept reply2 \<longleftrightarrow>
     distinct channels \<and> me \<notin> set channels \<and> set channels \<subseteq> electable_names g \<and>
     map_option node_id (get_node g me) = Some my_id \<and>
     (\<forall>m. self_accept m \<longrightarrow> (me, t, me, m) \<in> votes s) \<and>
     (\<forall>m. \<forall>ch \<in> set channels. vote_granted (reply2 (ElectionResult m t) ch) \<longrightarrow> (ch, t, me, m) \<in> votes s)"

definition voters :: "election_system \<Rightarrow> RepGroup \<Rightarrow> u64 \<Rightarrow> name \<Rightarrow> name \<Rightarrow> name set" where
  "voters s g t proposer master = {a \<in> electable_names g. (a, t, proposer, master) \<in> votes s}"

lemma can_be_master_electable:
  "group_wf g \<Longrightarrow> can_be_master_name g nm \<Longrightarrow> nm \<in> electable_names g"
  by (auto simp: names_where_iff can_be_master_name_def can_be_master_def NodeType_can_be_master_def NodeType_is_electable_def
      split: NodeType.splits)

lemma card_channels:
  assumes "distinct chs" "me \<notin> set chs"
  shows "length (filter P chs) + of_bool b = card ({ch \<in> set chs. P ch} \<union> (if b then {me} else {}))"
  using assms distinct_length_filter [OF assms(1), of P] by (auto simp: Collect_conj_eq Int_commute)

lemma round_voters:
  assumes "group_wf g" "round_in s g my_id me channels t self_accept reply2"
    "run_election_self my_id me g channels v prio t d now (Some self1) reply1 self_accept reply2 = Some i"
  obtains p where "election_value me g channels v prio t d now reply1 = Value p"
    "phase2_quorum g \<le> card (voters s g t me (node_name p))" "0 < phase2_quorum g"
    "map_option node_id (get_node g (node_name p)) = Some i"
  using assms(3)
proof (rule run_election_SomeD)
  fix p :: Proposal
  let ?P = "\<lambda>ch. promised (reply1 ch) \<and> vote_granted (reply2 (ElectionResult (node_name p) t) ch)"
  let ?b = "self1 \<and> self_accept (node_name p)"
  assume p: "can_be_master_name g me" "prio \<noteq> 0" "election_value me g channels v prio t d now reply1 = Value p"
    "phase2_quorum g \<le> length (filter ?P channels) + of_bool ?b" "0 < phase2_quorum g"
    and i: "i = (if node_name p = me then my_id
          else case get_node g (node_name p) of Some n \<Rightarrow> node_id n | None \<Rightarrow> my_id)"
  have "{ch \<in> set channels. ?P ch} \<union> (if ?b then {me} else {}) \<subseteq> voters s g t me (node_name p)"
    using assms(2) can_be_master_electable [OF assms(1) p(1)] by (auto simp: round_in_def voters_def)
  then have "card ({ch \<in> set channels. ?P ch} \<union> (if ?b then {me} else {})) \<le> card (voters s g t me (node_name p))"
    by (intro card_mono) (auto simp: voters_def)
  then have q: "phase2_quorum g \<le> card (voters s g t me (node_name p))"
    using p(4) card_channels [of channels me ?P ?b] assms(2) by (simp add: round_in_def)
  have "map_option node_id (get_node g (node_name p)) = Some i"
    unfolding i using value_can_be_master [OF p(1,3)] assms(2) by (intro winner_id) (simp_all add: round_in_def)
  then show thesis using that p q by blast
qed

lemmas evaluate_run = fresh_nodes_def acceptor_phase1_def acceptor_phase2_def try_promise_proposal_def
  try_accept_proposal_def flush_locked_def in_memory_def check_election_identity_def Let_def

text \<open>
  Node \<open>a\<close> wins term 1 with the vote of \<open>b\<close>; then \<open>c\<close>, whose proposal number for the same term is
  higher, runs a round for \<open>a\<close> with the votes of \<open>a\<close> and \<open>b\<close>.
\<close>

definition two_rounds :: election_system where
  "two_rounds = foldl play fresh_nodes
     [OwnPromise [0x61] 1, PeerPromise [0x62] [0x61] 1, OwnAccept [0x61] 1 [0x61], PeerAccept [0x62] [0x61] 1 [0x61],
      OwnPromise [0x63] 1, PeerPromise [0x61] [0x63] 1, PeerPromise [0x62] [0x63] 1,
      PeerAccept [0x61] [0x63] 1 [0x61], PeerAccept [0x62] [0x63] 1 [0x61]]"

lemma two_rounds_reachable: "election_reachable zero_crc two_rounds"
  unfolding two_rounds_def by (rule play_reachable) (simp add: storable_def utf8_char_def)

lemma two_rounds_votes: "votes two_rounds =
  {([0x61], 1, [0x61], [0x61]), ([0x62], 1, [0x61], [0x61]), ([0x61], 1, [0x63], [0x61]), ([0x62], 1, [0x63], [0x61])}"
  by (simp add: two_rounds_def evaluate_run) auto

lemma letters3: "group_wf (letters 3 SimpleMajority)"
  "electable_names (letters 3 SimpleMajority) = {[0x61], [0x62], [0x63]}"
  "map_option node_id (get_node (letters 3 SimpleMajority) [0x61]) = Some 1"
  "map_option node_id (get_node (letters 3 SimpleMajority) [0x63]) = Some 3"
  by code_simp+

lemma two_rounds_in:
  "round_in two_rounds (letters 3 SimpleMajority) 1 [0x61] [[0x62]] 1 (\<lambda>m. m = [0x61]) (accepts_from [[0x62]] [0x61] 1)"
  "round_in two_rounds (letters 3 SimpleMajority) 3 [0x63] [[0x61], [0x62]] 1 (\<lambda>_. False) (accepts_from [[0x61], [0x62]] [0x61] 1)"
  by (simp_all add: round_in_def two_rounds_votes letters3 accepts_from_def)

text \<open>
  C2. Safety of elections: in a group with the simple-majority policy, two rounds for the same
  term, run by the same or by different nodes, never elect different masters, whatever sessions,
  own votes, failed writes and restarts of persistent acceptors happen in whatever order.
\<close>

theorem one_master_per_term:
  assumes "election_reachable crc s" "group_wf g" "quorum_policy g = SimpleMajority"
    "round_in s g id1 me1 chs1 t accept1 phase2_1"
    "run_election_self id1 me1 g chs1 v1 prio1 t d1 now1 (Some self1) phase1_1 accept1 phase2_1 = Some i"
    "round_in s g id2 me2 chs2 t accept2 phase2_2"
    "run_election_self id2 me2 g chs2 v2 prio2 t d2 now2 (Some self2) phase1_2 accept2 phase2_2 = Some j"
  shows "i = j"
proof -
  obtain p :: Proposal where p: "phase2_quorum g \<le> card (voters s g t me1 (node_name p))" "0 < phase2_quorum g"
    "map_option node_id (get_node g (node_name p)) = Some i"
    by (rule round_voters [OF assms(2,4,5)])
  obtain q :: Proposal where q: "phase2_quorum g \<le> card (voters s g t me2 (node_name q))"
    "map_option node_id (get_node g (node_name q)) = Some j"
    by (rule round_voters [OF assms(2,6,7)])
  let ?n = "card (electable_names g)"
  have quorum: "phase2_quorum g = majority_size ?n"
    using assms(2,3) by (simp add: phase2_quorum_def card_electable_names)
  then have "0 < ?n" using p(2) by (simp add: majority_size_def card_gt_0_iff split: if_splits)
  then have "voters s g t me1 (node_name p) \<inter> voters s g t me2 (node_name q) \<noteq> {}"
    using majority.quorums_meet [of "electable_names g"] p(1) q(1) quorum by (simp add: voters_def)
  then obtain a where "(t, me1, node_name p) \<in> votes_of s a" "(t, me2, node_name q) \<in> votes_of s a"
    by (auto simp: voters_def votes_of_def)
  moreover have "one_value (votes_of s a)"
    using election_inv_reachable [OF assms(1)] by (simp add: election_inv_def acceptor_inv_def)
  ultimately have "node_name p = node_name q" by (fastforce simp: one_value_def)
  then show ?thesis using p(3) q(2) by simp
qed

theorem one_master_per_term_witness:
  "election_reachable zero_crc two_rounds \<and>
   run_election_self 1 [0x61] (letters 3 SimpleMajority) [[0x62]] 5 1 1 0 (\<lambda>_. 0) (Some True)
     (advertises (\<lambda>_. 3)) (\<lambda>m. m = [0x61]) (accepts_from [[0x62]] [0x61] 1) = Some 1 \<and>
   run_election_self 3 [0x63] (letters 3 SimpleMajority) [[0x61], [0x62]] 3 1 1 0 (\<lambda>_. 0) (Some True)
     (advertises (\<lambda>ch. if ch = [0x61] then 5 else 3)) (\<lambda>_. False) (accepts_from [[0x61], [0x62]] [0x61] 1) = Some (1 :: u32)"
proof -
  have 1: "run_election_self 1 [0x61] (letters 3 SimpleMajority) [[0x62]] 5 1 1 0 (\<lambda>_. 0) (Some True)
     (advertises (\<lambda>_. 3)) (\<lambda>m. m = [0x61]) (accepts_from [[0x62]] [0x61] 1) = Some 1"
    by code_simp
  obtain j where 2: "run_election_self 3 [0x63] (letters 3 SimpleMajority) [[0x61], [0x62]] 3 1 1 0 (\<lambda>_. 0) (Some True)
     (advertises (\<lambda>ch. if ch = [0x61] then 5 else 3)) (\<lambda>_. False) (accepts_from [[0x61], [0x62]] [0x61] 1) = Some j"
    by (rule that [of 1]) code_simp
  have "quorum_policy (letters 3 SimpleMajority) = SimpleMajority" by code_simp
  then have "1 = j"
    by (rule one_master_per_term [OF two_rounds_reachable letters3(1) _ two_rounds_in(1) 1 two_rounds_in(2) 2])
  then show ?thesis using 1 2 two_rounds_reachable by blast
qed

section \<open>Quorum policies other than majorities\<close>

text \<open>
  With the flexible policy of sizes 4 and 2 in a group of 5, node \<open>a\<close> wins term 1 with the
  votes of \<open>a\<close> and \<open>b\<close>, although \<open>c\<close> and \<open>d\<close> have promised too; then \<open>e\<close> collects the promises
  of \<open>b\<close>, \<open>c\<close> and \<open>d\<close> for the same term and wins it with the votes of \<open>c\<close> and \<open>e\<close>.
\<close>

definition split_term :: election_system where
  "split_term = foldl play fresh_nodes
     [OwnPromise [0x61] 1, PeerPromise [0x62] [0x61] 1, PeerPromise [0x63] [0x61] 1, PeerPromise [0x64] [0x61] 1,
      OwnAccept [0x61] 1 [0x61], PeerAccept [0x62] [0x61] 1 [0x61],
      OwnPromise [0x65] 1, PeerPromise [0x62] [0x65] 1, PeerPromise [0x63] [0x65] 1, PeerPromise [0x64] [0x65] 1,
      OwnAccept [0x65] 1 [0x65], PeerAccept [0x62] [0x65] 1 [0x65], PeerAccept [0x63] [0x65] 1 [0x65]]"

lemma split_term_reachable: "election_reachable zero_crc split_term"
  unfolding split_term_def by (rule play_reachable) (simp add: storable_def utf8_char_def)

lemma split_term_votes: "votes split_term =
  {([0x61], 1, [0x61], [0x61]), ([0x62], 1, [0x61], [0x61]), ([0x65], 1, [0x65], [0x65]), ([0x63], 1, [0x65], [0x65])}"
  by (simp add: split_term_def evaluate_run) auto

lemma letters5: "group_wf (letters 5 (Flexible 4 2))"
  "electable_names (letters 5 (Flexible 4 2)) = {[0x61], [0x62], [0x63], [0x64], [0x65]}"
  "map_option node_id (get_node (letters 5 (Flexible 4 2)) [0x61]) = Some 1"
  "map_option node_id (get_node (letters 5 (Flexible 4 2)) [0x65]) = Some 5"
  by code_simp+

text \<open>
  C32. The flexible policy does not give this: the policy of sizes 4 and 2 in a group of 5 passes
  the validation of the group, and a reachable run of acceptors elects node 1 and node 5 in the
  same term.  The first-phase quorum of the second round meets the second-phase quorum of the
  first, but a promise does not report the value that the acceptor has accepted.
\<close>

theorem flexible_quorums_split_a_term:
  "rebuild_quorum_system (letters 5 (Flexible 4 2)) \<and>
   election_reachable zero_crc split_term \<and>
   round_in split_term (letters 5 (Flexible 4 2)) 1 [0x61] [[0x62], [0x63], [0x64]] 1
     (\<lambda>m. m = [0x61]) (accepts_from [[0x62]] [0x61] 1) \<and>
   run_election_self 1 [0x61] (letters 5 (Flexible 4 2)) [[0x62], [0x63], [0x64]] 5 1 1 0 (\<lambda>_. 0) (Some True)
     (advertises (\<lambda>_. 3)) (\<lambda>m. m = [0x61]) (accepts_from [[0x62]] [0x61] 1) = Some 1 \<and>
   round_in split_term (letters 5 (Flexible 4 2)) 5 [0x65] [[0x62], [0x63], [0x64]] 1
     (\<lambda>m. m = [0x65]) (accepts_from [[0x63]] [0x65] 1) \<and>
   run_election_self 5 [0x65] (letters 5 (Flexible 4 2)) [[0x62], [0x63], [0x64]] 3 1 1 0 (\<lambda>_. 0) (Some True)
     (advertises (\<lambda>_. 3)) (\<lambda>m. m = [0x65]) (accepts_from [[0x63]] [0x65] 1) = Some 5"
proof (intro conjI)
  show "rebuild_quorum_system (letters 5 (Flexible 4 2))" by code_simp
  show "election_reachable zero_crc split_term" by (rule split_term_reachable)
  show "round_in split_term (letters 5 (Flexible 4 2)) 1 [0x61] [[0x62], [0x63], [0x64]] 1
     (\<lambda>m. m = [0x61]) (accepts_from [[0x62]] [0x61] 1)"
    by (simp add: round_in_def split_term_votes letters5 accepts_from_def)
  show "round_in split_term (letters 5 (Flexible 4 2)) 5 [0x65] [[0x62], [0x63], [0x64]] 1
     (\<lambda>m. m = [0x65]) (accepts_from [[0x63]] [0x65] 1)"
    by (simp add: round_in_def split_term_votes letters5 accepts_from_def)
qed code_simp+

section \<open>Elections keep durable commits\<close>

text \<open>
  \<open>answers\<close>: a node that holds the commit at position \<open>c\<close> and promises reports a position at or
  after it, with a priority that lets it be elected.  \<open>consistent\<close>: the durable position that a
  node reports grows with its position in the log, because replicas take it from the records
  of the replication stream (\<open>set_dtvlsn\<close>).
\<close>

definition answers :: "u64 \<Rightarrow> name \<Rightarrow> ProtocolMessage option \<Rightarrow> bool" where
  "answers c a m \<longleftrightarrow> (promised m \<longrightarrow>
     (case m of Some (ElectionProposal nm v p t d) \<Rightarrow> nm = a \<and> c \<le> v \<and> p \<noteq> 0 | _ \<Rightarrow> False))"

definition consistent :: "Proposal list \<Rightarrow> bool" where
  "consistent ps \<longleftrightarrow> (\<forall>p \<in> set ps. \<forall>q \<in> set ps. vlsn p \<le> vlsn q \<longrightarrow> dtvlsn p \<le> dtvlsn q)"

abbreviation data_names :: "RepGroup \<Rightarrow> name set" where
  "data_names \<equiv> names_where can_be_master"

lemma electable_split: "electable_count g = data_node_count g + arbiter_count g"
proof -
  have "length (filter (\<lambda>n. NodeType_is_electable (node_type n)) ns) =
    length (filter (\<lambda>n. NodeType_is_electable (node_type n) \<and> \<not> NodeType_is_arbiter (node_type n)) ns)
    + length (filter (\<lambda>n. NodeType_is_arbiter (node_type n)) ns)" for ns
    by (induction ns) (auto simp: NodeType_is_electable_def NodeType_is_arbiter_def split: NodeType.splits)
  then show ?thesis unfolding electable_count_def data_node_count_def arbiter_count_def by blast
qed

lemma acked_majority:
  assumes "arbiter_count g \<le> 1" "data_node_count g > 0"
  shows "electable_count g < majority_size (electable_count g) + (RepGroup_required_acks g AckSimpleMajority + 1)"
proof (cases "arbiter_count g")
  case 0
  then show ?thesis
    using assms(2) by (auto simp: electable_split RepGroup_required_acks_def ack_group_size_def majority_size_def Let_def)
next
  case (Suc k)
  then have "arbiter_count g = 1" using assms(1) by simp
  then show ?thesis
    using assms(2) by (cases "data_node_count g = 1")
      (auto simp: electable_split RepGroup_required_acks_def ack_group_size_def majority_size_def Let_def; presburger)+
qed

lemma own_record:
  "prio \<noteq> 0 \<Longrightarrow> advertised now me v prio t d \<in> set (candidates (election_records g now (advertised now me v prio t d) reply chs))"
  by (simp add: candidates_def election_records_def advertised_def with_dtvlsn_def Proposal_with_timestamp_def)

lemma peer_record:
  assumes "ch \<in> set chs" "reply ch = Some (ElectionProposal ch v p t d)" "can_be_master_name g ch" "p \<noteq> 0"
  shows "advertised now ch v p t d \<in> set (candidates (election_records g now our reply chs))"
proof -
  have "\<lparr> proposal = advertised now ch v p t d, is_arbiter = False \<rparr> \<in> set (peer_records g now (reply ch))"
    using assms by (simp add: peer_records_def)
  then have "\<lparr> proposal = advertised now ch v p t d, is_arbiter = False \<rparr> \<in> set (election_records g now our reply chs)"
    using assms(1) by (auto simp: election_records_def)
  then show ?thesis
    using assms(4) by (force simp: candidates_def advertised_def with_dtvlsn_def Proposal_with_timestamp_def)
qed

lemma vlsn_advertised [simp]: "vlsn (advertised now nm v p t d) = v"
  by (simp add: advertised_def with_dtvlsn_def Proposal_with_timestamp_def)

lemma best_is_latest:
  assumes "consistent ps" "p \<in> set ps" "q \<in> set ps" "ranking q \<le> ranking p"
  shows "vlsn q \<le> vlsn p"
proof (rule ccontr)
  assume "\<not> vlsn q \<le> vlsn p"
  moreover from this have "dtvlsn p \<le> dtvlsn q" using assms(1-3) by (simp add: consistent_def)
  ultimately show False using assms(4) by (auto simp: ranking_def)
qed

lemma card_data_names: "group_wf g \<Longrightarrow> card (data_names g) = data_node_count g"
  by (auto simp: card_names_where data_node_count_def can_be_master_def NodeType_can_be_master_def
      NodeType_is_electable_def NodeType_is_arbiter_def intro!: arg_cong [where f = length] filter_cong)

text \<open>A majority of promises includes one of a node that holds the commit.\<close>

lemma promise_of_holder:
  assumes "group_wf g" "arbiter_count g \<le> 1" "A \<subseteq> data_names g" "P \<subseteq> electable_names g"
    "RepGroup_required_acks g AckSimpleMajority + 1 \<le> card A" "majority_size (electable_count g) \<le> card P"
  obtains a where "a \<in> A" "a \<in> P" "can_be_master_name g a"
proof -
  have A: "A \<subseteq> electable_names g" "\<forall>a \<in> A. can_be_master_name g a"
    using assms(1,3) can_be_master_electable by (auto simp: names_where_iff can_be_master_name_def)
  have "card A \<le> data_node_count g"
    using assms(3) by (auto simp: card_data_names [OF assms(1), symmetric] intro: card_mono)
  then have "card (electable_names g) < card P + card A"
    using acked_majority [OF assms(2)] assms(5,6) by (simp add: card_electable_names [OF assms(1)])
  then show thesis using sets_meet [OF finite_names_where assms(4) A(1)] A(2) that by blast
qed

lemma holder_candidate:
  assumes "can_be_master_name g a" "answers c a (reply1 a)" "a = me \<longrightarrow> c \<le> v" "prio \<noteq> 0"
    "a = me \<or> a \<in> set chs \<and> promised (reply1 a)"
  shows "\<exists>q \<in> set (candidates (election_records g now (advertised now me v prio t d) reply1 chs)). c \<le> vlsn q"
proof (cases "a = me")
  case True
  then show ?thesis using assms(3) by (intro bexI [OF _ own_record [OF assms(4)]]) simp
next
  case False
  then obtain v' p' t' d' where r: "reply1 a = Some (ElectionProposal a v' p' t' d')" "c \<le> v'" "p' \<noteq> 0"
    using assms(2,5) by (auto simp: answers_def split: option.splits ProtocolMessage.splits)
  show ?thesis
    using r(2) False assms(5) by (intro bexI [OF _ peer_record [where reply = reply1, OF _ r(1) assms(1) r(3)]]) simp_all
qed



end
