(* ===== verification/Raw_Rwlock.thy ===== *)
theory Raw_Rwlock
  imports Noxu_Prelude
begin

unbundle bit_operations_syntax

text \<open>
  The reader-writer lock of \<open>crates/noxu-sync/src/raw_rwlock.rs\<close>, on which the latches of the tree
  are built.  A thread is a program location, one per atomic access of the code, with its
  local variables; every function of the source is a step function from a location to the next.
  Threads interleave at every access, under sequential consistency.  The clock is known by
  the verdicts \<open>expired\<close> of the comparisons with the deadline, and \<open>spurious\<close> tells whether a weak
  compare-exchange fails although it compares equal.
\<close>

section \<open>The lock word\<close>

definition WRITE_LOCKED :: u32 where
  "WRITE_LOCKED = push_bit 30 1"

definition READERS_PARKED :: u32 where
  "READERS_PARKED = push_bit 31 1"

definition WRITERS_PARKED :: u32 where
  "WRITERS_PARKED = push_bit 29 1"

definition ONE_READER :: u32 where
  "ONE_READER = 1"

definition READERS_MASK :: u32 where
  "READERS_MASK = WRITERS_PARKED - 1"

definition WRITE_SPIN_ATTEMPTS :: u32 where
  "WRITE_SPIN_ATTEMPTS = 400"

definition DRAIN_SPIN_RELAX_ATTEMPTS :: u32 where
  "DRAIN_SPIN_RELAX_ATTEMPTS = 3"

definition DRAIN_SPIN_YIELD_ATTEMPTS :: u32 where
  "DRAIN_SPIN_YIELD_ATTEMPTS = 7"

record NoxuRawRwLock =
  lock_word :: u32
  write_futex :: u32
  drain_futex :: u32
  read_waiters :: u64
  write_waiters :: u64
  exclusive_owner :: u64

definition RwLock_INIT :: NoxuRawRwLock where
  "RwLock_INIT = \<lparr> lock_word = 0, write_futex = 0, drain_futex = 0, read_waiters = 0, write_waiters = 0,
     exclusive_owner = 0 \<rparr>"

section \<open>Locations\<close>

text \<open>A request blocks, tries once, or waits until a deadline.\<close>

datatype lock_mode = Blocking | TryOnce | Timed

datatype shared_fast_pc = SF_load | SF_cas u32

datatype shared_slow_pc =
    SS_load
  | SS_admit u32
  | SS_park u32
  | SS_deadline u32
  | SS_wait u32
  | SS_asleep
  | SS_woken

datatype exclusive_slow_pc =
    XS_enter
  | XS_spin u32 u32
  | XS_spin_cas u32 u32 u32
  | XS_spun
  | XS_gen
  | XS_load u32
  | XS_reserve u32
  | XS_reserved u32
  | XS_mark u32 u32
  | XS_deadline u32
  | XS_wait u32
  | XS_asleep
  | XS_woken
  | XS_abandon

datatype drain_pc =
    WD_spin u32
  | WD_gen
  | WD_load u32
  | WD_wait u32
  | WD_asleep

datatype give_up_pc = GU_load | GU_cas u32

text \<open>After \<open>notify_one_writer\<close> the flag tells whether the parked readers are to be woken too.\<close>

datatype notify_pc = NW_bump bool | NW_wake bool | ND_bump | ND_wake | WR_wake

datatype rw_pc =
    Unlocked
  | SharedFast shared_fast_pc
  | SharedSlow shared_slow_pc
  | Reading
  | UnlockShared
  | UnlockSharedClear
  | ExclusiveFast
  | StoreOwner
  | ExclusiveSlow exclusive_slow_pc
  | WaitForDrain drain_pc
  | GiveUp give_up_pc
  | Writing
  | UnlockExclusive
  | UnlockExclusiveWord
  | Notify notify_pc

text \<open>What a step does to the threads that sleep on the three futex words.\<close>

datatype futex_wakes = NoWake | WakeReaders | WakeWriter | WakeDrain

type_synonym rw_result = "NoxuRawRwLock \<times> rw_pc \<times> futex_wakes"

definition goto :: "NoxuRawRwLock \<Rightarrow> rw_pc \<Rightarrow> rw_result" where
  "goto l p = (l, p, NoWake)"

text \<open>\<open>compare_exchange\<close> on the lock word, with what follows success and failure.\<close>

definition cas :: "NoxuRawRwLock \<Rightarrow> u32 \<Rightarrow> u32 \<Rightarrow> rw_pc \<Rightarrow> rw_pc \<Rightarrow> rw_result" where
  "cas l old new p q = (if lock_word l = old then goto (l\<lparr>lock_word := new\<rparr>) p else goto l q)"

definition cas_weak :: "bool \<Rightarrow> NoxuRawRwLock \<Rightarrow> u32 \<Rightarrow> u32 \<Rightarrow> rw_pc \<Rightarrow> rw_pc \<Rightarrow> rw_result" where
  "cas_weak spurious l old new p q = (if spurious then goto l q else cas l old new p q)"

section \<open>Shared access\<close>

text \<open>
  \<open>lock_shared\<close>, \<open>try_lock_shared\<close> and the timed requests start with the fast path, and all but
  \<open>try_lock_shared\<close> go on with the slow one.
\<close>

definition shared_fast_failed :: "lock_mode \<Rightarrow> rw_pc" where
  "shared_fast_failed m = (if m = TryOnce then Unlocked else SharedSlow SS_load)"

fun try_lock_shared_fast :: "lock_mode \<Rightarrow> NoxuRawRwLock \<Rightarrow> shared_fast_pc \<Rightarrow> rw_result" where
  "try_lock_shared_fast m l SF_load =
     (let st = lock_word l
      in if st AND WRITE_LOCKED \<noteq> 0 then goto l (shared_fast_failed m) else goto l (SharedFast (SF_cas st)))"
| "try_lock_shared_fast m l (SF_cas st) = cas l st (st + ONE_READER) Reading (shared_fast_failed m)"

fun lock_shared_slow :: "bool \<Rightarrow> bool \<Rightarrow> NoxuRawRwLock \<Rightarrow> shared_slow_pc \<Rightarrow> rw_result" where
  "lock_shared_slow expired spurious l SS_load =
     (let st = lock_word l
      in if st AND WRITE_LOCKED = 0 then goto l (SharedSlow (SS_admit st))
         else if st AND READERS_PARKED = 0 then goto l (SharedSlow (SS_park st))
         else goto l (SharedSlow (SS_deadline (st OR READERS_PARKED))))"
| "lock_shared_slow expired spurious l (SS_admit st) =
     cas_weak spurious l st (st + ONE_READER) Reading (SharedSlow SS_load)"
| "lock_shared_slow expired spurious l (SS_park st) =
     cas_weak spurious l st (st OR READERS_PARKED)
       (SharedSlow (SS_deadline (st OR READERS_PARKED))) (SharedSlow SS_load)"
| "lock_shared_slow expired spurious l (SS_deadline parked_state) =
     (if expired then goto l Unlocked
      else goto (l\<lparr>read_waiters := read_waiters l + 1\<rparr>) (SharedSlow (SS_wait parked_state)))"
| "lock_shared_slow expired spurious l (SS_wait parked_state) =
     (if lock_word l = parked_state then goto l (SharedSlow SS_asleep) else goto l (SharedSlow SS_woken))"
| "lock_shared_slow expired spurious l SS_asleep = goto l (SharedSlow SS_asleep)"
| "lock_shared_slow expired spurious l SS_woken =
     (let l' = l\<lparr>read_waiters := read_waiters l - 1\<rparr>
      in if expired then goto l' Unlocked else goto l' (SharedSlow SS_load))"

definition unlock_shared :: "NoxuRawRwLock \<Rightarrow> rw_result" where
  "unlock_shared l =
     (let prev = lock_word l; l' = l\<lparr>lock_word := prev - ONE_READER\<rparr>
      in if prev AND READERS_MASK = ONE_READER
         then if prev AND WRITE_LOCKED \<noteq> 0 then goto l' (Notify ND_bump)
              else if prev AND WRITERS_PARKED \<noteq> 0 then goto l' UnlockSharedClear
              else goto l' Unlocked
         else goto l' Unlocked)"

definition unlock_shared_clear :: "NoxuRawRwLock \<Rightarrow> rw_result" where
  "unlock_shared_clear l =
     goto (l\<lparr>lock_word := lock_word l AND NOT WRITERS_PARKED\<rparr>) (Notify (NW_bump False))"

section \<open>Notifications\<close>

fun notify :: "NoxuRawRwLock \<Rightarrow> notify_pc \<Rightarrow> rw_result" where
  "notify l (NW_bump readers) = goto (l\<lparr>write_futex := write_futex l + 1\<rparr>) (Notify (NW_wake readers))"
| "notify l (NW_wake readers) = (l, if readers then Notify WR_wake else Unlocked, WakeWriter)"
| "notify l ND_bump = goto (l\<lparr>drain_futex := drain_futex l + 1\<rparr>) (Notify ND_wake)"
| "notify l ND_wake = (l, Unlocked, WakeDrain)"
| "notify l WR_wake = (l, Unlocked, WakeReaders)"

text \<open>The wakes of \<open>unlock_exclusive\<close> and \<open>try_give_up_reservation\<close>, decided on the cleared word.\<close>

definition after_release :: "u32 \<Rightarrow> rw_pc" where
  "after_release prev =
     (if prev AND WRITERS_PARKED \<noteq> 0 then Notify (NW_bump (prev AND READERS_PARKED \<noteq> 0))
      else if prev AND READERS_PARKED \<noteq> 0 then Notify WR_wake
      else Unlocked)"

definition RELEASE_MASK :: u32 where
  "RELEASE_MASK = NOT (WRITE_LOCKED OR READERS_PARKED OR WRITERS_PARKED)"

section \<open>Exclusive access\<close>

definition exclusive_fast_failed :: "lock_mode \<Rightarrow> rw_pc" where
  "exclusive_fast_failed m = (if m = TryOnce then Unlocked else ExclusiveSlow XS_enter)"

definition lock_exclusive_fast :: "lock_mode \<Rightarrow> NoxuRawRwLock \<Rightarrow> rw_result" where
  "lock_exclusive_fast m l = cas l 0 WRITE_LOCKED StoreOwner (exclusive_fast_failed m)"

definition store_owner :: "u64 \<Rightarrow> NoxuRawRwLock \<Rightarrow> rw_result" where
  "store_owner thread_id l = goto (l\<lparr>exclusive_owner := thread_id\<rparr>) Writing"

fun lock_exclusive_slow :: "bool \<Rightarrow> bool \<Rightarrow> NoxuRawRwLock \<Rightarrow> exclusive_slow_pc \<Rightarrow> rw_result" where
  "lock_exclusive_slow expired spurious l XS_enter =
     goto (l\<lparr>write_waiters := write_waiters l + 1\<rparr>) (ExclusiveSlow (XS_spin 0 1))"
| "lock_exclusive_slow expired spurious l (XS_spin iterations_spent backoff) =
     (if iterations_spent < WRITE_SPIN_ATTEMPTS then
        let st = lock_word l
        in if st AND (READERS_MASK OR WRITE_LOCKED) = 0
           then goto l (ExclusiveSlow (XS_spin_cas iterations_spent backoff st))
           else goto l (ExclusiveSlow (XS_spin (iterations_spent + backoff) (min (backoff * 2) WRITE_SPIN_ATTEMPTS)))
      else goto l (ExclusiveSlow XS_gen))"
| "lock_exclusive_slow expired spurious l (XS_spin_cas iterations_spent backoff st) =
     cas_weak spurious l st (st OR WRITE_LOCKED) (ExclusiveSlow XS_spun)
       (ExclusiveSlow (XS_spin (iterations_spent + 1) backoff))"
| "lock_exclusive_slow expired spurious l XS_spun = goto (l\<lparr>write_waiters := write_waiters l - 1\<rparr>) StoreOwner"
| "lock_exclusive_slow expired spurious l XS_gen = goto l (ExclusiveSlow (XS_load (write_futex l)))"
| "lock_exclusive_slow expired spurious l (XS_load seen_gen) =
     (let st = lock_word l
      in if st AND WRITE_LOCKED = 0 then goto l (ExclusiveSlow (XS_reserve st))
         else if st AND WRITERS_PARKED = 0 then goto l (ExclusiveSlow (XS_mark seen_gen st))
         else goto l (ExclusiveSlow (XS_deadline seen_gen)))"
| "lock_exclusive_slow expired spurious l (XS_reserve st) =
     cas_weak spurious l st ((st OR WRITE_LOCKED) OR WRITERS_PARKED)
       (ExclusiveSlow (XS_reserved (st AND READERS_MASK))) (ExclusiveSlow XS_gen)"
| "lock_exclusive_slow expired spurious l (XS_reserved readers_now) =
     goto (l\<lparr>write_waiters := write_waiters l - 1\<rparr>)
       (if readers_now = 0 then StoreOwner else WaitForDrain (WD_spin 0))"
| "lock_exclusive_slow expired spurious l (XS_mark seen_gen st) =
     cas_weak spurious l st (st OR WRITERS_PARKED) (ExclusiveSlow (XS_deadline seen_gen)) (ExclusiveSlow XS_gen)"
| "lock_exclusive_slow expired spurious l (XS_deadline seen_gen) =
     goto l (if expired then ExclusiveSlow XS_abandon else ExclusiveSlow (XS_wait seen_gen))"
| "lock_exclusive_slow expired spurious l (XS_wait seen_gen) =
     goto l (if write_futex l = seen_gen then ExclusiveSlow XS_asleep else ExclusiveSlow XS_woken)"
| "lock_exclusive_slow expired spurious l XS_asleep = goto l (ExclusiveSlow XS_asleep)"
| "lock_exclusive_slow expired spurious l XS_woken =
     goto l (if expired then ExclusiveSlow XS_abandon else ExclusiveSlow XS_gen)"
| "lock_exclusive_slow expired spurious l XS_abandon =
     goto (l\<lparr>write_waiters := write_waiters l - 1\<rparr>) Unlocked"

fun wait_for_drain :: "bool \<Rightarrow> NoxuRawRwLock \<Rightarrow> drain_pc \<Rightarrow> rw_result" where
  "wait_for_drain expired l (WD_spin i) =
     (if i < DRAIN_SPIN_RELAX_ATTEMPTS + DRAIN_SPIN_YIELD_ATTEMPTS then
        if lock_word l AND READERS_MASK = 0 then goto l StoreOwner else goto l (WaitForDrain (WD_spin (i + 1)))
      else goto l (WaitForDrain WD_gen))"
| "wait_for_drain expired l WD_gen = goto l (WaitForDrain (WD_load (drain_futex l)))"
| "wait_for_drain expired l (WD_load seen_gen) =
     (if lock_word l AND READERS_MASK = 0 then goto l StoreOwner
      else if expired then goto l (GiveUp GU_load)
      else goto l (WaitForDrain (WD_wait seen_gen)))"
| "wait_for_drain expired l (WD_wait seen_gen) =
     goto l (if drain_futex l = seen_gen then WaitForDrain WD_asleep else WaitForDrain WD_gen)"
| "wait_for_drain expired l WD_asleep = goto l (WaitForDrain WD_asleep)"

fun try_give_up_reservation :: "bool \<Rightarrow> NoxuRawRwLock \<Rightarrow> give_up_pc \<Rightarrow> rw_result" where
  "try_give_up_reservation spurious l GU_load =
     (let st = lock_word l in if st AND READERS_MASK = 0 then goto l StoreOwner else goto l (GiveUp (GU_cas st)))"
| "try_give_up_reservation spurious l (GU_cas st) =
     cas_weak spurious l st (st AND RELEASE_MASK) (after_release st) (GiveUp GU_load)"

definition unlock_exclusive :: "NoxuRawRwLock \<Rightarrow> rw_result" where
  "unlock_exclusive l = goto (l\<lparr>exclusive_owner := 0\<rparr>) UnlockExclusiveWord"

definition unlock_exclusive_word :: "NoxuRawRwLock \<Rightarrow> rw_result" where
  "unlock_exclusive_word l =
     (let prev = lock_word l in goto (l\<lparr>lock_word := prev AND RELEASE_MASK\<rparr>) (after_release prev))"

section \<open>Queries\<close>

definition is_locked :: "NoxuRawRwLock \<Rightarrow> bool" where
  "is_locked l \<longleftrightarrow> lock_word l AND (READERS_MASK OR WRITE_LOCKED) \<noteq> 0"

definition is_locked_exclusive :: "NoxuRawRwLock \<Rightarrow> bool" where
  "is_locked_exclusive l \<longleftrightarrow> lock_word l AND WRITE_LOCKED \<noteq> 0 \<and> lock_word l AND READERS_MASK = 0"

definition is_write_locked :: "NoxuRawRwLock \<Rightarrow> bool" where
  "is_write_locked l \<longleftrightarrow> lock_word l AND WRITE_LOCKED \<noteq> 0 \<and> lock_word l AND READERS_MASK = 0"

definition reader_count :: "NoxuRawRwLock \<Rightarrow> u32" where
  "reader_count l = lock_word l AND READERS_MASK"

definition get_n_waiters :: "NoxuRawRwLock \<Rightarrow> u64" where
  "get_n_waiters l = read_waiters l + write_waiters l"

definition get_exclusive_owner :: "NoxuRawRwLock \<Rightarrow> u64" where
  "get_exclusive_owner l = exclusive_owner l"

section \<open>Threads\<close>

text \<open>
  The step of a thread that runs: the function it is in.  A thread between two calls, in its
  critical section or asleep does not run.
\<close>

definition rw_thread_step :: "u64 \<Rightarrow> lock_mode \<Rightarrow> bool \<Rightarrow> bool \<Rightarrow> NoxuRawRwLock \<Rightarrow> rw_pc \<Rightarrow> rw_result" where
  "rw_thread_step thread_id m late spurious l p =
     (let expired = (m = Timed \<and> late) in
      case p of
        SharedFast q \<Rightarrow> try_lock_shared_fast m l q
      | SharedSlow q \<Rightarrow> lock_shared_slow expired spurious l q
      | UnlockShared \<Rightarrow> unlock_shared l
      | UnlockSharedClear \<Rightarrow> unlock_shared_clear l
      | ExclusiveFast \<Rightarrow> lock_exclusive_fast m l
      | StoreOwner \<Rightarrow> store_owner thread_id l
      | ExclusiveSlow q \<Rightarrow> lock_exclusive_slow expired spurious l q
      | WaitForDrain q \<Rightarrow> wait_for_drain expired l q
      | GiveUp q \<Rightarrow> try_give_up_reservation spurious l q
      | UnlockExclusive \<Rightarrow> unlock_exclusive l
      | UnlockExclusiveWord \<Rightarrow> unlock_exclusive_word l
      | Notify q \<Rightarrow> notify l q
      | _ \<Rightarrow> goto l p)"

abbreviation asleep :: "rw_pc \<Rightarrow> bool" where
  "asleep p \<equiv> p \<in> {SharedSlow SS_asleep, ExclusiveSlow XS_asleep, WaitForDrain WD_asleep}"

definition running :: "rw_pc \<Rightarrow> bool" where
  "running p \<longleftrightarrow> p \<notin> {Unlocked, Reading, Writing} \<and> \<not> asleep p"

text \<open>Where a thread goes on when \<open>futex_wait\<close> returns.\<close>

fun woken :: "rw_pc \<Rightarrow> rw_pc" where
  "woken (SharedSlow SS_asleep) = SharedSlow SS_woken"
| "woken (ExclusiveSlow XS_asleep) = ExclusiveSlow XS_woken"
| "woken (WaitForDrain WD_asleep) = WaitForDrain WD_gen"
| "woken p = p"

text \<open>
  \<open>futex_wake\<close> wakes all threads that sleep on the word, or one of them, if there is one.
\<close>

definition wake_one :: "rw_pc \<Rightarrow> (nat \<Rightarrow> rw_pc) \<Rightarrow> (nat \<Rightarrow> rw_pc) \<Rightarrow> bool" where
  "wake_one p pcs pcs' \<longleftrightarrow>
     (if \<exists>j. pcs j = p then \<exists>j. pcs j = p \<and> pcs' = pcs(j := woken p) else pcs' = pcs)"

fun futex_wake :: "futex_wakes \<Rightarrow> (nat \<Rightarrow> rw_pc) \<Rightarrow> (nat \<Rightarrow> rw_pc) \<Rightarrow> bool" where
  "futex_wake NoWake pcs pcs' = (pcs' = pcs)"
| "futex_wake WakeReaders pcs pcs' =
     (pcs' = (\<lambda>j. if pcs j = SharedSlow SS_asleep then SharedSlow SS_woken else pcs j))"
| "futex_wake WakeWriter pcs pcs' = wake_one (ExclusiveSlow XS_asleep) pcs pcs'"
| "futex_wake WakeDrain pcs pcs' = wake_one (WaitForDrain WD_asleep) pcs pcs'"

text \<open>
  All threads.  \<open>hand_overs\<close> is not in the code: it counts the increments of the two generation
  words, which wrap around.
\<close>

record rw_system =
  rw :: NoxuRawRwLock
  pcs :: "nat \<Rightarrow> rw_pc"
  modes :: "nat \<Rightarrow> lock_mode"
  hand_overs :: nat

definition rw_init :: "rw_system" where
  "rw_init = \<lparr> rw = RwLock_INIT, pcs = (\<lambda>_. Unlocked), modes = (\<lambda>_. Blocking), hand_overs = 0 \<rparr>"

text \<open>
  The steps of a system of \<open>N\<close> threads: a thread that holds nothing calls the lock, a thread in its
  critical section leaves it, a thread in a function of the lock makes its next access, and a
  sleeping thread wakes up without a notification, when its time-out ends or spuriously.
  \<open>timed_writers\<close> tells whether there are exclusive requests with a deadline.
\<close>

inductive rw_step :: "(nat \<Rightarrow> u64) \<Rightarrow> nat \<Rightarrow> bool \<Rightarrow> rw_system \<Rightarrow> rw_system \<Rightarrow> bool"
  for thread_id N timed_writers where
  call_shared: "i < N \<Longrightarrow> pcs s i = Unlocked \<Longrightarrow>
    rw_step thread_id N timed_writers s
      (s\<lparr>pcs := (pcs s)(i := SharedFast SF_load), modes := (modes s)(i := m)\<rparr>)"
| call_exclusive: "i < N \<Longrightarrow> pcs s i = Unlocked \<Longrightarrow> m = Timed \<longrightarrow> timed_writers \<Longrightarrow>
    rw_step thread_id N timed_writers s
      (s\<lparr>pcs := (pcs s)(i := ExclusiveFast), modes := (modes s)(i := m)\<rparr>)"
| leave_shared: "pcs s i = Reading \<Longrightarrow>
    rw_step thread_id N timed_writers s (s\<lparr>pcs := (pcs s)(i := UnlockShared)\<rparr>)"
| leave_exclusive: "pcs s i = Writing \<Longrightarrow>
    rw_step thread_id N timed_writers s (s\<lparr>pcs := (pcs s)(i := UnlockExclusive)\<rparr>)"
| run: "running (pcs s i) \<Longrightarrow>
    rw_thread_step (thread_id i) (modes s i) late spurious (rw s) (pcs s i) = (l, p, w) \<Longrightarrow>
    futex_wake w ((pcs s)(i := p)) pcs' \<Longrightarrow>
    rw_step thread_id N timed_writers s
      (s\<lparr>rw := l, pcs := pcs',
         hand_overs := hand_overs s + of_bool (write_futex l \<noteq> write_futex (rw s))
           + of_bool (drain_futex l \<noteq> drain_futex (rw s))\<rparr>)"
| wake_up: "asleep (pcs s i) \<Longrightarrow>
    rw_step thread_id N timed_writers s (s\<lparr>pcs := (pcs s)(i := woken (pcs s i))\<rparr>)"

inductive rw_reachable :: "(nat \<Rightarrow> u64) \<Rightarrow> nat \<Rightarrow> bool \<Rightarrow> rw_system \<Rightarrow> bool" for thread_id N timed_writers where
  start: "rw_reachable thread_id N timed_writers rw_init"
| step: "rw_reachable thread_id N timed_writers s \<Longrightarrow> rw_step thread_id N timed_writers s s' \<Longrightarrow>
    rw_reachable thread_id N timed_writers s'"

end
