(* ===== verification/Raw_Rwlock_Props.thy ===== *)
theory Raw_Rwlock_Props
  imports Raw_Rwlock
begin

unbundle bit_operations_syntax

text \<open>
  Properties of the reader-writer lock: exclusion for any number of threads, and when
  notifications reach the threads that sleep.
\<close>

section \<open>Reading the lock word\<close>

definition rd :: "u32 \<Rightarrow> nat" where
  "rd st = unat (st AND READERS_MASK)"

abbreviation wp :: "u32 \<Rightarrow> bool" where
  "wp st \<equiv> bit st 29"

abbreviation wl :: "u32 \<Rightarrow> bool" where
  "wl st \<equiv> bit st 30"

abbreviation rp :: "u32 \<Rightarrow> bool" where
  "rp st \<equiv> bit st 31"

lemma flag_consts: "WRITE_LOCKED = 2 ^ 30" "READERS_PARKED = 2 ^ 31" "WRITERS_PARKED = 2 ^ 29" "READERS_MASK = mask 29"
  by (simp_all add: WRITE_LOCKED_def READERS_PARKED_def WRITERS_PARKED_def READERS_MASK_def push_bit_eq_mult mask_eq_exp_minus_1)

lemma bit_flags: "bit WRITE_LOCKED n \<longleftrightarrow> n = 30" "bit READERS_PARKED n \<longleftrightarrow> n = 31" "bit WRITERS_PARKED n \<longleftrightarrow> n = 29"
  "bit READERS_MASK n \<longleftrightarrow> n < 29"
  unfolding flag_consts bit_exp_iff bit_mask_iff by auto

lemma rd_mod: "rd st = unat st mod 2 ^ 29"
  unfolding rd_def flag_consts take_bit_eq_mask [symmetric] unfolding unsigned_take_bit_eq take_bit_eq_mod [where 'a = nat] ..

lemma flag_tests [simp]:
  "st AND WRITE_LOCKED = 0 \<longleftrightarrow> \<not> wl st" "st AND READERS_PARKED = 0 \<longleftrightarrow> \<not> rp st" "st AND WRITERS_PARKED = 0 \<longleftrightarrow> \<not> wp st"
  unfolding flag_consts by (rule and_exp_eq_0_iff_not_bit)+

lemma rd_tests [simp]:
  "st AND READERS_MASK = 0 \<longleftrightarrow> rd st = 0" "st AND READERS_MASK = ONE_READER \<longleftrightarrow> rd st = 1"
  "st AND (READERS_MASK OR WRITE_LOCKED) = 0 \<longleftrightarrow> rd st = 0 \<and> \<not> wl st"
proof -
  show z: "st AND READERS_MASK = 0 \<longleftrightarrow> rd st = 0" by (simp add: rd_def unat_eq_0)
  show "st AND READERS_MASK = ONE_READER \<longleftrightarrow> rd st = 1"
    by (simp add: rd_def ONE_READER_def word_eq_iff_unsigned [where 'a = nat])
  show "st AND (READERS_MASK OR WRITE_LOCKED) = 0 \<longleftrightarrow> rd st = 0 \<and> \<not> wl st"
    using z by (simp add: bit.conj_disj_distrib or_eq_0_iff)
qed

lemma rd_cong: "(\<And>n. n < 29 \<Longrightarrow> bit v n = bit u n) \<Longrightarrow> rd v = rd u"
  unfolding rd_def by (intro arg_cong [where f = unat] bit_word_eqI) (auto simp: bit_simps bit_flags)

lemma set_flags [simp]:
  "rd (st OR WRITE_LOCKED) = rd st" "rd (st OR READERS_PARKED) = rd st" "rd (st OR WRITERS_PARKED) = rd st"
  "wl (st OR WRITE_LOCKED)" "wl (st OR READERS_PARKED) = wl st" "wl (st OR WRITERS_PARKED) = wl st"
  "rp (st OR WRITE_LOCKED) = rp st" "rp (st OR READERS_PARKED)" "rp (st OR WRITERS_PARKED) = rp st"
  "wp (st OR WRITE_LOCKED) = wp st" "wp (st OR READERS_PARKED) = wp st" "wp (st OR WRITERS_PARKED)"
  by (auto simp: bit_simps bit_flags intro!: rd_cong)

lemma clear_flags [simp]:
  "rd (st AND RELEASE_MASK) = rd st" "\<not> wl (st AND RELEASE_MASK)" "\<not> rp (st AND RELEASE_MASK)" "\<not> wp (st AND RELEASE_MASK)"
  by (auto simp: RELEASE_MASK_def bit_simps bit_flags intro!: rd_cong)

lemma zero_word [simp]: "rd 0 = 0" "rd WRITE_LOCKED = 0" "wl WRITE_LOCKED" "\<not> rp WRITE_LOCKED" "\<not> wp WRITE_LOCKED"
  using set_flags(1) [of 0] by (simp_all add: rd_def bit_flags)

lemma bit_unat: "bit st n \<longleftrightarrow> odd (unat (st :: u32) div 2 ^ n)"
  by (metis bit_iff_odd bit_unsigned_iff possible_bit_nat)

lemma Suc_mod_div:
  fixes u B :: nat
  assumes "u mod B + 1 < B"
  shows "(u + 1) mod B = u mod B + 1" "(u + 1) div B = u div B"
  using assms by (simp_all add: mod_Suc div_Suc)

lemma count_up:
  assumes "rd st + 1 < 2 ^ 29"
  shows "rd (st + ONE_READER) = rd st + 1" "29 \<le> n \<Longrightarrow> bit (st + ONE_READER) n = bit st n"
proof -
  note m = Suc_mod_div [OF assms [unfolded rd_mod]]
  have "unat st < 2 ^ 32" using unsigned_less [of st] by simp
  moreover have "unat st \<noteq> 2 ^ 32 - 1" using assms by (auto simp: rd_mod)
  ultimately have u: "unat (st + ONE_READER) = unat st + 1"
    by (simp add: ONE_READER_def unat_word_ariths)
  show "rd (st + ONE_READER) = rd st + 1" unfolding rd_mod u by (rule m(1))
  show "bit (st + ONE_READER) n = bit st n" if "29 \<le> n"
  proof -
    have "2 ^ n = (2 :: nat) ^ 29 * 2 ^ (n - 29)" using that by (simp only: power_add [symmetric] le_add_diff_inverse)
    then show ?thesis unfolding bit_unat u by (simp only: div_mult2_eq m(2))
  qed
qed

lemma pred_mod:
  fixes u B :: nat
  assumes "0 < u mod B" "0 < B"
  shows "(u - 1) mod B + 1 < B" "u mod B = (u - 1) mod B + 1"
proof -
  obtain v where v: "u = Suc v" using assms by (cases u) auto
  then show "u mod B = (u - 1) mod B + 1" using assms by (auto simp: mod_Suc split: if_splits)
  then show "(u - 1) mod B + 1 < B" using mod_less_divisor [OF assms(2), of u] by linarith
qed

lemma count_down:
  assumes "0 < rd st"
  shows "rd (st - ONE_READER) = rd st - 1" "29 \<le> n \<Longrightarrow> bit (st - ONE_READER) n = bit st n"
proof -
  have "st \<noteq> 0" using assms by (auto simp: rd_def)
  then have u: "unat (st - ONE_READER) = unat st - 1"
    unfolding ONE_READER_def by (rule unat_minus_one)
  note m = pred_mod [OF assms [unfolded rd_mod] zero_less_power [OF zero_less_numeral]]
  have c: "rd (st - ONE_READER) + 1 < 2 ^ 29" "rd st = rd (st - ONE_READER) + 1"
    unfolding rd_mod u using m by blast+
  then show "rd (st - ONE_READER) = rd st - 1" by simp
  show "29 \<le> n \<Longrightarrow> bit (st - ONE_READER) n = bit st n"
    using count_up(2) [OF c(1), of n] by simp
qed

section \<open>Who holds the lock\<close>

fun holds_read :: "rw_pc \<Rightarrow> bool" where
  "holds_read Reading = True"
| "holds_read UnlockShared = True"
| "holds_read p = False"

text \<open>
  A thread owns the flag \<open>WRITE_LOCKED\<close> from the compare-exchange that sets it to the one that
  clears it; it is granted exclusive access once it knows that no reader is left.
\<close>

fun owns_word :: "rw_pc \<Rightarrow> bool" where
  "owns_word StoreOwner = True"
| "owns_word Writing = True"
| "owns_word UnlockExclusive = True"
| "owns_word UnlockExclusiveWord = True"
| "owns_word (ExclusiveSlow XS_spun) = True"
| "owns_word (ExclusiveSlow (XS_reserved r)) = True"
| "owns_word (WaitForDrain q) = True"
| "owns_word (GiveUp q) = True"
| "owns_word p = False"

fun granted :: "rw_pc \<Rightarrow> bool" where
  "granted StoreOwner = True"
| "granted Writing = True"
| "granted UnlockExclusive = True"
| "granted UnlockExclusiveWord = True"
| "granted (ExclusiveSlow XS_spun) = True"
| "granted (ExclusiveSlow (XS_reserved r)) = (r = 0)"
| "granted p = False"

text \<open>What a thread knows of the word it has read.\<close>

fun pc_ok :: "rw_pc \<Rightarrow> bool" where
  "pc_ok (SharedFast (SF_cas st)) = (\<not> wl st)"
| "pc_ok (SharedSlow (SS_admit st)) = (\<not> wl st)"
| "pc_ok (SharedSlow (SS_park st)) = wl st"
| "pc_ok (SharedSlow (SS_deadline st)) = (wl st \<and> rp st)"
| "pc_ok (SharedSlow (SS_wait st)) = (wl st \<and> rp st)"
| "pc_ok (ExclusiveSlow (XS_spin_cas i b st)) = (\<not> wl st \<and> rd st = 0)"
| "pc_ok (ExclusiveSlow (XS_reserve st)) = (\<not> wl st)"
| "pc_ok (ExclusiveSlow (XS_mark g st)) = wl st"
| "pc_ok UnlockSharedClear = False"
| "pc_ok p = True"

lemma granted_owns: "granted p \<Longrightarrow> owns_word p"
  by (cases p rule: granted.cases) auto

lemma holds_not_owns: "holds_read p \<Longrightarrow> \<not> owns_word p \<and> \<not> granted p"
  by (cases p rule: holds_read.cases) auto

text \<open>A step of a thread does one of six things to the word.\<close>

datatype word_effect = Keep | Admit | Leave | Acquire | Release | Mark

fun effect :: "word_effect \<Rightarrow> u32 \<Rightarrow> rw_pc \<Rightarrow> u32 \<Rightarrow> rw_pc \<Rightarrow> bool" where
  "effect Keep v p v' p' \<longleftrightarrow> v' = v \<and> holds_read p' = holds_read p \<and> owns_word p' = owns_word p \<and>
     (granted p' \<longrightarrow> granted p \<or> rd v = 0)"
| "effect Admit v p v' p' \<longleftrightarrow> v' = v + ONE_READER \<and> \<not> wl v \<and> \<not> holds_read p \<and> holds_read p' \<and> \<not> owns_word p"
| "effect Leave v p v' p' \<longleftrightarrow> v' = v - ONE_READER \<and> holds_read p \<and> \<not> holds_read p' \<and> \<not> owns_word p'"
| "effect Acquire v p v' p' \<longleftrightarrow> rd v' = rd v \<and> wl v' \<and> \<not> wl v \<and> \<not> holds_read p \<and> \<not> holds_read p' \<and>
     \<not> owns_word p \<and> owns_word p' \<and> (granted p' \<longrightarrow> rd v = 0) \<and> rp v' = rp v"
| "effect Release v p v' p' \<longleftrightarrow> rd v' = rd v \<and> \<not> wl v' \<and> \<not> wp v' \<and> \<not> rp v' \<and> \<not> holds_read p \<and> \<not> holds_read p' \<and>
     owns_word p \<and> \<not> owns_word p'"
| "effect Mark v p v' p' \<longleftrightarrow> rd v' = rd v \<and> wl v' \<and> wl v \<and> \<not> holds_read p \<and> \<not> holds_read p' \<and>
     \<not> owns_word p \<and> \<not> owns_word p'"

lemmas step_defs = goto_def cas_def cas_weak_def shared_fast_failed_def exclusive_fast_failed_def unlock_shared_def
  unlock_shared_clear_def after_release_def lock_exclusive_fast_def store_owner_def unlock_exclusive_def
  unlock_exclusive_word_def Let_def

lemma shared_fast_effect:
  assumes "try_lock_shared_fast m l q = (l', p', w)" "pc_ok (SharedFast q)"
  shows "pc_ok p' \<and> (\<exists>e. effect e (lock_word l) (SharedFast q) (lock_word l') p')"
  using assms
  by (cases q) (auto simp: step_defs split: if_splits intro: exI [of _ Keep] exI [of _ Admit])

lemma shared_slow_effect:
  assumes "lock_shared_slow expired spurious l q = (l', p', w)" "pc_ok (SharedSlow q)"
  shows "pc_ok p' \<and> (\<exists>e. effect e (lock_word l) (SharedSlow q) (lock_word l') p')"
  using assms
  by (cases q) (auto simp: step_defs split: if_splits intro: exI [of _ Keep] exI [of _ Admit] exI [of _ Mark])

lemma exclusive_slow_effect:
  assumes "lock_exclusive_slow expired spurious l q = (l', p', w)" "pc_ok (ExclusiveSlow q)"
  shows "pc_ok p' \<and> (\<exists>e. effect e (lock_word l) (ExclusiveSlow q) (lock_word l') p')"
  using assms
  by (cases q) (auto simp: step_defs split: if_splits intro: exI [of _ Keep] exI [of _ Acquire] exI [of _ Mark])

lemma drain_effect:
  assumes "wait_for_drain expired l q = (l', p', w)"
  shows "pc_ok p' \<and> (\<exists>e. effect e (lock_word l) (WaitForDrain q) (lock_word l') p')"
  using assms by (cases q) (auto simp: step_defs split: if_splits intro: exI [of _ Keep])

lemma give_up_effect:
  assumes "try_give_up_reservation spurious l q = (l', p', w)"
  shows "pc_ok p' \<and> (\<exists>e. effect e (lock_word l) (GiveUp q) (lock_word l') p')"
  using assms by (cases q) (auto simp: step_defs split: if_splits intro: exI [of _ Keep] exI [of _ Release])

lemma notify_effect:
  assumes "notify l q = (l', p', w)"
  shows "pc_ok p' \<and> effect Keep (lock_word l) (Notify q) (lock_word l') p'"
  using assms by (cases q) (auto simp: step_defs split: if_splits)

lemma thread_effect:
  assumes "rw_thread_step tid m late spurious l p = (l', p', w)" "pc_ok p" "running p"
    "wp (lock_word l) \<longrightarrow> wl (lock_word l)"
  shows "pc_ok p' \<and> (\<exists>e. effect e (lock_word l) p (lock_word l') p')"
proof (cases p)
  case (SharedFast q)
  then show ?thesis using assms(1,2) shared_fast_effect by (auto simp: rw_thread_step_def)
next
  case (SharedSlow q)
  then show ?thesis using assms(1,2) shared_slow_effect by (auto simp: rw_thread_step_def Let_def)
next
  case UnlockShared
  then show ?thesis
    using assms(1,4) by (auto simp: rw_thread_step_def step_defs split: if_splits intro: exI [of _ Leave])
next
  case ExclusiveFast
  then show ?thesis
    using assms(1) by (auto simp: rw_thread_step_def step_defs split: if_splits intro: exI [of _ Keep] exI [of _ Acquire])
next
  case StoreOwner
  then show ?thesis using assms(1) by (auto simp: rw_thread_step_def step_defs intro: exI [of _ Keep])
next
  case (ExclusiveSlow q)
  then show ?thesis using assms(1,2) exclusive_slow_effect by (auto simp: rw_thread_step_def Let_def)
next
  case (WaitForDrain q)
  then show ?thesis using assms(1) drain_effect by (auto simp: rw_thread_step_def Let_def)
next
  case (GiveUp q)
  then show ?thesis using assms(1) give_up_effect by (auto simp: rw_thread_step_def)
next
  case UnlockExclusive
  then show ?thesis using assms(1) by (auto simp: rw_thread_step_def step_defs intro: exI [of _ Keep])
next
  case UnlockExclusiveWord
  then show ?thesis using assms(1) by (auto simp: rw_thread_step_def step_defs intro: exI [of _ Release])
next
  case (Notify q)
  then show ?thesis
    using assms(1) notify_effect [of l q l' p' w] by (auto simp: rw_thread_step_def intro: exI [of _ Keep])
qed (use assms(2,3) in \<open>auto simp: running_def\<close>)

section \<open>The invariant\<close>

definition rw_inv :: "nat \<Rightarrow> u32 \<Rightarrow> (nat \<Rightarrow> rw_pc) \<Rightarrow> bool" where
  "rw_inv N v ps \<longleftrightarrow>
     (\<forall>i. ps i \<noteq> Unlocked \<longrightarrow> i < N) \<and>
     (\<forall>i. pc_ok (ps i)) \<and>
     rd v = card {i. holds_read (ps i)} \<and>
     (wl v \<longleftrightarrow> (\<exists>i. owns_word (ps i))) \<and>
     (\<forall>i j. owns_word (ps i) \<longrightarrow> owns_word (ps j) \<longrightarrow> i = j) \<and>
     (\<forall>i. granted (ps i) \<longrightarrow> rd v = 0) \<and>
     (wp v \<or> rp v \<longrightarrow> wl v)"

lemma finite_holders:
  assumes "rw_inv N v ps"
  shows "finite {i. holds_read (ps i)}"
proof (rule finite_subset)
  show "{i. holds_read (ps i)} \<subseteq> {..<N}"
  proof
    fix i assume "i \<in> {i. holds_read (ps i)}"
    then have "ps i \<noteq> Unlocked" by auto
    then show "i \<in> {..<N}" using assms by (simp add: rw_inv_def)
  qed
qed simp

lemma card_update:
  assumes "finite {i. P (f i)}" "\<not> P (f i)" "P x"
  shows "card {j. P ((f(i := x)) j)} = card {j. P (f j)} + 1"
proof -
  have "{j. P ((f(i := x)) j)} = insert i {j. P (f j)}" using assms(3) by auto
  then show ?thesis using assms(1,2) by simp
qed

lemma card_update_out:
  assumes "finite {i. P (f i)}" "P (f i)" "\<not> P x"
  shows "card {j. P ((f(i := x)) j)} + 1 = card {j. P (f j)}"
proof -
  have "{j. P (f j)} = insert i {j. P ((f(i := x)) j)}" using assms(2) by auto
  moreover have "finite {j. P ((f(i := x)) j)}"
    by (rule finite_subset [OF _ assms(1)]) (use assms(2) in auto)
  ultimately show ?thesis using assms(3) by simp
qed

lemma holders_same: "P x = P (f i) \<Longrightarrow> {j. P ((f(i := x)) j)} = {j. P (f j)}"
  by auto

lemma reader_room:
  assumes "rw_inv N v ps" "i < N" "N < 2 ^ 29" "\<not> holds_read (ps i)"
  shows "rd v + 1 < 2 ^ 29"
proof -
  have "{j. holds_read (ps j)} \<subseteq> {..<N} - {i}"
  proof
    fix j assume "j \<in> {j. holds_read (ps j)}"
    then have "ps j \<noteq> Unlocked" "j \<noteq> i" using assms(4) by auto
    then show "j \<in> {..<N} - {i}" using assms(1) by (simp add: rw_inv_def)
  qed
  then have "card {j. holds_read (ps j)} \<le> card ({..<N} - {i})" by (intro card_mono) simp_all
  then show ?thesis using assms by (simp add: rw_inv_def)
qed

lemma reader_counted:
  assumes "rw_inv N v ps" "holds_read (ps i)"
  shows "0 < rd v"
proof -
  have "{j. holds_read (ps j)} \<noteq> {}" using assms(2) by blast
  moreover have "rd v = card {j. holds_read (ps j)}" using assms(1) unfolding rw_inv_def by blast
  ultimately show ?thesis using finite_holders [OF assms(1)] by (simp add: card_gt_0_iff)
qed

lemma rw_inv_update:
  assumes inv: "rw_inv N v ps" and i: "i < N" and ok: "pc_ok p'"
    and rd: "rd v' = card {j. holds_read ((ps(i := p')) j)}"
    and wl: "wl v' \<longleftrightarrow> owns_word p' \<or> (\<exists>j. j \<noteq> i \<and> owns_word (ps j))"
    and one: "\<And>j. owns_word p' \<Longrightarrow> j \<noteq> i \<Longrightarrow> \<not> owns_word (ps j)"
    and gr: "granted p' \<Longrightarrow> rd v' = 0" "\<And>j. j \<noteq> i \<Longrightarrow> granted (ps j) \<Longrightarrow> rd v' = 0"
    and gates: "wp v' \<or> rp v' \<longrightarrow> wl v'"
  shows "rw_inv N v' (ps(i := p'))"
  unfolding rw_inv_def
proof (intro conjI allI impI)
  fix j k
  show "(ps(i := p')) j \<noteq> Unlocked \<Longrightarrow> j < N" using inv i by (cases "j = i") (simp_all add: rw_inv_def)
  show "pc_ok ((ps(i := p')) j)" using inv ok by (simp add: rw_inv_def)
  show "wl v' \<longleftrightarrow> (\<exists>i'. owns_word ((ps(i := p')) i'))" unfolding wl by (metis fun_upd_apply)
  show "owns_word ((ps(i := p')) j) \<Longrightarrow> owns_word ((ps(i := p')) k) \<Longrightarrow> j = k"
    using inv one [of j] one [of k] by (auto simp: rw_inv_def split: if_splits)
  show "granted ((ps(i := p')) j) \<Longrightarrow> rd v' = 0" using gr by (cases "j = i") simp_all
qed (use rd gates in blast)+

text \<open>Every effect of a step keeps the invariant.\<close>

lemma rw_inv_effect:
  assumes inv: "rw_inv N v ps" and ok: "pc_ok p'" and i: "i < N" "N < 2 ^ 29" and e: "effect e v (ps i) v' p'"
  shows "rw_inv N v' (ps(i := p'))"
proof -
  note fin = finite_holders [OF inv]
  have rd: "rd v = card {i. holds_read (ps i)}"
    and wl: "wl v \<longleftrightarrow> (\<exists>i. owns_word (ps i))" and one: "owns_word (ps j) \<Longrightarrow> owns_word (ps k) \<Longrightarrow> j = k"
    and gr: "granted (ps j) \<Longrightarrow> rd v = 0" and gates: "wp v \<or> rp v \<longrightarrow> wl v" for j k
    using inv unfolding rw_inv_def by blast+
  note upd = rw_inv_update [OF inv i(1) ok]
  show ?thesis
  proof (cases e)
    case Keep
    then have k: "v' = v" "holds_read p' = holds_read (ps i)" "owns_word p' = owns_word (ps i)"
      "granted p' \<Longrightarrow> rd v = 0" using e gr by auto
    show ?thesis
      unfolding k(1)
    proof (rule upd)
      show "rd v = card {j. holds_read ((ps(i := p')) j)}" unfolding holders_same [of holds_read p' ps i, OF k(2)] by (rule rd)
      show "wl v \<longleftrightarrow> owns_word p' \<or> (\<exists>j. j \<noteq> i \<and> owns_word (ps j))" unfolding wl k(3) by metis
      show "\<And>j. owns_word p' \<Longrightarrow> j \<noteq> i \<Longrightarrow> \<not> owns_word (ps j)" using one k(3) by metis
    qed (use k gr gates in blast)+
  next
    case Admit
    then have k: "v' = v + ONE_READER" "\<not> wl v" "\<not> holds_read (ps i)" "holds_read p'" using e by auto
    have none: "\<not> owns_word (ps j)" for j using wl k(2) by blast
    have up: "rd v + 1 < 2 ^ 29" by (rule reader_room [OF inv i k(3)])
    show ?thesis
      unfolding k(1)
    proof (rule upd)
      show "rd (v + ONE_READER) = card {j. holds_read ((ps(i := p')) j)}"
        unfolding count_up(1) [OF up] card_update [where P = holds_read and f = ps, OF fin k(3,4)] rd ..
    qed (use none k holds_not_owns [OF k(4)] granted_owns gates count_up(2) [OF up] in auto)
  next
    case Leave
    then have k: "v' = v - ONE_READER" "holds_read (ps i)" "\<not> holds_read p'" "\<not> owns_word p'"
      using e by auto
    have down: "0 < rd v" by (rule reader_counted [OF inv k(2)])
    show ?thesis
      unfolding k(1)
    proof (rule upd)
      show "rd (v - ONE_READER) = card {j. holds_read ((ps(i := p')) j)}"
        unfolding count_down(1) [OF down] using card_update_out [where P = holds_read and f = ps, OF fin k(2,3)] rd by linarith
      show "wl (v - ONE_READER) \<longleftrightarrow> owns_word p' \<or> (\<exists>j. j \<noteq> i \<and> owns_word (ps j))"
        using wl k(4) holds_not_owns [OF k(2)] count_down(2) [OF down, of 30, simplified] by metis
    qed (use k granted_owns gates gr down count_down(2) [OF down] in auto)
  next
    case Acquire
    then have k: "rd v' = rd v" "wl v'" "\<not> wl v" "holds_read p' = holds_read (ps i)" "owns_word p'"
      "granted p' \<Longrightarrow> rd v = 0" using e by auto
    have none: "\<not> owns_word (ps j)" for j using wl k(3) by blast
    show ?thesis
    proof (rule upd)
      show "rd v' = card {j. holds_read ((ps(i := p')) j)}" unfolding k(1) holders_same [of holds_read p' ps i, OF k(4)] by (rule rd)
    qed (use none k granted_owns in auto)
  next
    case Release
    then have k: "rd v' = rd v" "\<not> wl v'" "\<not> wp v'" "\<not> rp v'" "holds_read p' = holds_read (ps i)" "owns_word (ps i)"
      "\<not> owns_word p'" using e by auto
    have none: "j \<noteq> i \<Longrightarrow> \<not> owns_word (ps j)" for j using one k(6) by blast
    show ?thesis
    proof (rule upd)
      show "rd v' = card {j. holds_read ((ps(i := p')) j)}" unfolding k(1) holders_same [of holds_read p' ps i, OF k(5)] by (rule rd)
    qed (use none k granted_owns in auto)
  next
    case Mark
    then have k: "rd v' = rd v" "wl v'" "wl v" "holds_read p' = holds_read (ps i)" "\<not> owns_word (ps i)" "\<not> owns_word p'"
      using e by auto
    have "\<exists>j. j \<noteq> i \<and> owns_word (ps j)" using k(3,5) wl by metis
    moreover have "rd v' = card {j. holds_read ((ps(i := p')) j)}"
      unfolding k(1) holders_same [of holds_read p' ps i, OF k(4)] by (rule rd)
    ultimately show ?thesis using k granted_owns gr by (intro upd) auto
  qed
qed

text \<open>Waking threads up changes nothing that the invariant speaks of.\<close>

lemma woken_classes [simp]:
  "holds_read (woken p) = holds_read p" "owns_word (woken p) = owns_word p" "granted (woken p) = granted p"
  "pc_ok p \<Longrightarrow> pc_ok (woken p)" "woken p = Unlocked \<longleftrightarrow> p = Unlocked"
  by (cases p rule: woken.cases; simp)+

lemma futex_wake_woken:
  "futex_wake w ps ps' \<Longrightarrow> ps' j = ps j \<or> asleep (ps j) \<and> ps' j = woken (ps j)"
  by (cases w) (auto simp: wake_one_def split: if_splits)

lemma rw_inv_wake:
  assumes "rw_inv N v ps" "\<And>j. ps' j = ps j \<or> ps' j = woken (ps j)"
  shows "rw_inv N v ps'"
proof -
  have same: "holds_read (ps' j) = holds_read (ps j)" "owns_word (ps' j) = owns_word (ps j)" "granted (ps' j) = granted (ps j)"
    "pc_ok (ps j) \<Longrightarrow> pc_ok (ps' j)" "ps' j = Unlocked \<longleftrightarrow> ps j = Unlocked" for j
    using assms(2) [of j] by (elim disjE; simp)+
  show ?thesis using assms(1) same(4) unfolding rw_inv_def same(1-3,5) by blast
qed

lemma rw_inv_init: "rw_inv N (lock_word (rw rw_init)) (pcs rw_init)"
  by (simp add: rw_inv_def rw_init_def RwLock_INIT_def)

lemma rw_inv_step:
  assumes "rw_step thread_id N timed_writers s s'" "rw_inv N (lock_word (rw s)) (pcs s)" "N < 2 ^ 29"
  shows "rw_inv N (lock_word (rw s')) (pcs s')"
proof -
  have quiet: "rw_inv N (lock_word (rw s)) ((pcs s)(i := p'))" if "i < N" "pc_ok p'" "effect Keep (lock_word (rw s)) (pcs s i) (lock_word (rw s)) p'" for i p'
    by (rule rw_inv_effect [OF assms(2) that(2,1) assms(3) that(3)])
  have bound: "i < N" if "pcs s i \<noteq> Unlocked" for i
    using assms(2) that by (simp add: rw_inv_def)
  from assms(1) show ?thesis
  proof cases
    case (call_shared i m)
    then show ?thesis using quiet [of i] by simp
  next
    case (call_exclusive i m)
    then show ?thesis using quiet [of i] by simp
  next
    case (leave_shared i)
    then show ?thesis using quiet [of i] bound [of i] by simp
  next
    case (leave_exclusive i)
    then show ?thesis using quiet [of i] bound [of i] by simp
  next
    case (run i late spurious l p w pcs')
    have i: "i < N" using run(2) bound [of i] by (auto simp: running_def)
    have "pc_ok p \<and> (\<exists>e. effect e (lock_word (rw s)) (pcs s i) (lock_word l) p)"
      using thread_effect [OF run(3) _ run(2)] assms(2) unfolding rw_inv_def by blast
    then have "rw_inv N (lock_word l) ((pcs s)(i := p))"
      using rw_inv_effect [OF assms(2) _ i assms(3)] by blast
    then have "rw_inv N (lock_word l) pcs'"
      by (rule rw_inv_wake) (use futex_wake_woken [OF run(4)] in blast)
    then show ?thesis by (simp add: run(1))
  next
    case (wake_up i)
    then show ?thesis using rw_inv_wake [OF assms(2), of "(pcs s)(i := woken (pcs s i))"] by simp
  qed
qed

lemma rw_inv_reachable:
  "rw_reachable thread_id N timed_writers s \<Longrightarrow> N < 2 ^ 29 \<Longrightarrow> rw_inv N (lock_word (rw s)) (pcs s)"
  by (induction rule: rw_reachable.induct) (simp_all add: rw_inv_init rw_inv_step)

section \<open>Concrete runs\<close>

text \<open>
  Runs as lists of events, for \<open>N\<close> threads.  A step names the thread, whether its deadline has
  passed, and which of the sleeping threads a notification reaches.
\<close>

datatype rw_event = CallShared nat lock_mode | CallExclusive nat lock_mode | Exit nat | Step nat bool nat

definition sleepers :: "nat \<Rightarrow> rw_pc \<Rightarrow> (nat \<Rightarrow> rw_pc) \<Rightarrow> nat list" where
  "sleepers N p ps = filter (\<lambda>j. ps j = p) [0..<N]"

definition wake_nth :: "nat \<Rightarrow> rw_pc \<Rightarrow> nat \<Rightarrow> (nat \<Rightarrow> rw_pc) \<Rightarrow> nat \<Rightarrow> rw_pc" where
  "wake_nth N p k ps =
     (case drop k (sleepers N p ps) @ sleepers N p ps of [] \<Rightarrow> ps | j # js \<Rightarrow> ps(j := woken p))"

fun do_wake :: "nat \<Rightarrow> futex_wakes \<Rightarrow> nat \<Rightarrow> (nat \<Rightarrow> rw_pc) \<Rightarrow> nat \<Rightarrow> rw_pc" where
  "do_wake N NoWake k ps = ps"
| "do_wake N WakeReaders k ps = (\<lambda>j. if ps j = SharedSlow SS_asleep then SharedSlow SS_woken else ps j)"
| "do_wake N WakeWriter k ps = wake_nth N (ExclusiveSlow XS_asleep) k ps"
| "do_wake N WakeDrain k ps = wake_nth N (WaitForDrain WD_asleep) k ps"

fun rw_play :: "nat \<Rightarrow> rw_system option \<Rightarrow> rw_event \<Rightarrow> rw_system option" where
  "rw_play N None e = None"
| "rw_play N (Some s) (CallShared i m) =
     (if i < N \<and> pcs s i = Unlocked
      then Some (s\<lparr>pcs := (pcs s)(i := SharedFast SF_load), modes := (modes s)(i := m)\<rparr>) else None)"
| "rw_play N (Some s) (CallExclusive i m) =
     (if i < N \<and> pcs s i = Unlocked
      then Some (s\<lparr>pcs := (pcs s)(i := ExclusiveFast), modes := (modes s)(i := m)\<rparr>) else None)"
| "rw_play N (Some s) (Exit i) =
     (if pcs s i = Reading then Some (s\<lparr>pcs := (pcs s)(i := UnlockShared)\<rparr>)
      else if pcs s i = Writing then Some (s\<lparr>pcs := (pcs s)(i := UnlockExclusive)\<rparr>) else None)"
| "rw_play N (Some s) (Step i late k) =
     (if running (pcs s i) then
        (case rw_thread_step (of_nat i) (modes s i) late False (rw s) (pcs s i) of (l, p, w) \<Rightarrow>
           Some (s\<lparr>rw := l, pcs := do_wake N w k ((pcs s)(i := p)),
             hand_overs := hand_overs s + of_bool (write_futex l \<noteq> write_futex (rw s))
               + of_bool (drain_futex l \<noteq> drain_futex (rw s))\<rparr>))
      else None)"

lemma wake_nth_one:
  assumes "\<And>j. ps j = p \<Longrightarrow> j < N"
  shows "wake_one p ps (wake_nth N p k ps)"
proof (cases "\<exists>j. ps j = p")
  case True
  then have "sleepers N p ps \<noteq> []" using assms by (force simp: sleepers_def filter_empty_conv)
  then obtain j js where j: "drop k (sleepers N p ps) @ sleepers N p ps = j # js" by (meson append_is_Nil_conv neq_Nil_conv)
  then have "j \<in> set (sleepers N p ps)" by (metis Un_iff in_set_dropD list.set_intros(1) set_append)
  then have "ps j = p" by (simp add: sleepers_def)
  then show ?thesis using j True by (auto simp: wake_one_def wake_nth_def)
next
  case False
  then show ?thesis by (auto simp: wake_one_def wake_nth_def sleepers_def)
qed

lemma do_wake_futex:
  assumes "\<And>j. asleep (ps j) \<Longrightarrow> j < N"
  shows "futex_wake w ps (do_wake N w k ps)"
  using assms by (cases w) (auto intro!: wake_nth_one)

fun untimed :: "rw_event \<Rightarrow> bool" where
  "untimed (CallExclusive i m) = (m \<noteq> Timed)"
| "untimed e = True"

lemma rw_play_reachable:
  assumes "rw_reachable of_nat N tw s" "N < 2 ^ 29" "rw_play N (Some s) e = Some s'" "tw \<or> untimed e"
  shows "rw_reachable of_nat N tw s'"
proof (rule rw_reachable.step [OF assms(1)])
  have inv: "pcs s i \<noteq> Unlocked \<Longrightarrow> i < N" for i
    using rw_inv_reachable [OF assms(1,2)] by (simp add: rw_inv_def)
  show "rw_step of_nat N tw s s'"
  proof (cases e)
    case (Step i late k)
    obtain l p w where r: "rw_thread_step (of_nat i) (modes s i) late False (rw s) (pcs s i) = (l, p, w)"
      by (rule prod_cases3)
    have run: "running (pcs s i)" using assms(3) Step by (auto split: if_splits)
    have "asleep (((pcs s)(i := p)) j) \<Longrightarrow> j < N" for j
      using inv [of j] run by (cases "j = i") (auto simp: running_def)
    then show ?thesis
      using rw_step.run [where thread_id = of_nat and s = s and i = i, OF run r do_wake_futex [of "(pcs s)(i := p)" N w k]] assms(3) Step run r by simp
  qed (use assms(3,4) in \<open>auto split: if_splits intro: rw_step.intros\<close>)
qed

lemma rw_play_run:
  assumes "N < 2 ^ 29" "foldl (rw_play N) (Some rw_init) es = Some s" "tw \<or> list_all untimed es"
  shows "rw_reachable of_nat N tw s"
  using assms(2,3)
proof (induction es arbitrary: s rule: rev_induct)
  case Nil
  then show ?case by (simp add: rw_reachable.start)
next
  case (snoc e es)
  then obtain s0 where "foldl (rw_play N) (Some rw_init) es = Some s0" "rw_play N (Some s0) e = Some s"
    by (cases "foldl (rw_play N) (Some rw_init) es") auto
  then show ?case using snoc.IH snoc.prems(2) rw_play_reachable [OF _ assms(1)] by auto
qed

lemma rw_play_obtains:
  assumes "map_option f (foldl (rw_play N) (Some rw_init) es) = Some x" "N < 2 ^ 29" "tw \<or> list_all untimed es"
  shows "\<exists>s. rw_reachable of_nat N tw s \<and> f s = x"
  using assms rw_play_run [OF assms(2)] by auto

section \<open>Exclusion\<close>

text \<open>
  C4. Exclusion: among fewer than \<open>2 ^ 29\<close> threads that lock, try, wait with deadlines, give up and
  release in any interleaving, a thread that is granted exclusive access is alone, the
  count in the lock word is the number of threads that hold shared access, the queries report
  what is held, and the branch of \<open>unlock_shared\<close> for a parked writer without a reservation is
  never taken.
\<close>

theorem rwlock_exclusion:
  assumes "rw_reachable thread_id N timed_writers s" "N < 2 ^ 29"
  shows "(granted (pcs s i) \<longrightarrow>
       (\<forall>j. holds_read (pcs s j) \<longrightarrow> False) \<and> (\<forall>j. j \<noteq> i \<longrightarrow> \<not> owns_word (pcs s j)) \<and> is_locked_exclusive (rw s)) \<and>
     unat (reader_count (rw s)) = card {j. holds_read (pcs s j)} \<and>
     (is_locked (rw s) \<longleftrightarrow> (\<exists>j. holds_read (pcs s j) \<or> owns_word (pcs s j))) \<and>
     (is_locked_exclusive (rw s) \<longrightarrow> (\<exists>j. owns_word (pcs s j)) \<and> (\<forall>j. \<not> holds_read (pcs s j))) \<and>
     pcs s i \<noteq> UnlockSharedClear"
proof -
  let ?v = "lock_word (rw s)"
  have inv: "rw_inv N ?v (pcs s)" by (rule rw_inv_reachable [OF assms])
  note fin = finite_holders [OF inv]
  have rd: "rd ?v = card {j. holds_read (pcs s j)}" and wl: "wl ?v \<longleftrightarrow> (\<exists>i. owns_word (pcs s i))"
    and one: "owns_word (pcs s j) \<Longrightarrow> owns_word (pcs s k) \<Longrightarrow> j = k" and gr: "granted (pcs s i) \<Longrightarrow> rd ?v = 0"
    and ok: "pc_ok (pcs s i)" for j k
    using inv unfolding rw_inv_def by blast+
  have zero: "rd ?v = 0 \<longleftrightarrow> (\<forall>j. \<not> holds_read (pcs s j))" using rd fin by auto
  have "is_locked_exclusive (rw s) \<longleftrightarrow> wl ?v \<and> rd ?v = 0" by (simp add: is_locked_exclusive_def)
  moreover have "is_locked (rw s) \<longleftrightarrow> \<not> (rd ?v = 0 \<and> \<not> wl ?v)" by (simp add: is_locked_def)
  moreover have "unat (reader_count (rw s)) = rd ?v" by (simp add: reader_count_def rd_def)
  moreover have "pcs s i \<noteq> UnlockSharedClear" using ok by auto
  moreover have "granted (pcs s i) \<Longrightarrow> j \<noteq> i \<Longrightarrow> \<not> owns_word (pcs s j)" for j using granted_owns one by blast
  ultimately show ?thesis using rd wl gr zero granted_owns by metis
qed

definition two_readers :: "rw_event list" where
  "two_readers = [CallShared 0 Blocking, Step 0 False 0, Step 0 False 0, CallShared 1 TryOnce, Step 1 False 0, Step 1 False 0]"

theorem rwlock_exclusion_witness: "\<exists>s. rw_reachable of_nat 3 True s \<and> card {j. holds_read (pcs s j)} = 2"
proof -
  have run: "map_option (\<lambda>s. reader_count (rw s)) (foldl (rw_play 3) (Some rw_init) two_readers) = Some 2" by code_simp
  obtain s where s: "rw_reachable of_nat 3 True s" "reader_count (rw s) = 2"
    using rw_play_obtains [OF run, of True] by auto
  then show ?thesis using rwlock_exclusion [OF s(1)] by auto
qed

section \<open>A lost notification\<close>

text \<open>
  Threads 1, with a deadline, and 2, without, wait for exclusive access while thread 0 has it.
  The release of thread 0 wakes thread 1, whose deadline has passed: it gives up.
\<close>

definition spins :: "nat \<Rightarrow> rw_event list" where
  "spins i = replicate 11 (Step i False 0)"

definition lost_notification :: "rw_event list" where
  "lost_notification =
     [CallExclusive 0 Blocking, Step 0 False 0, Step 0 False 0]
     @ [CallExclusive 1 Timed, Step 1 False 0] @ spins 1 @ replicate 5 (Step 1 False 0)
     @ [CallExclusive 2 Blocking, Step 2 False 0] @ spins 2 @ replicate 4 (Step 2 False 0)
     @ [Exit 0] @ replicate 4 (Step 0 False 0)
     @ [Step 1 True 0, Step 1 False 0]"

lemma lost_notification_run:
  "map_option (\<lambda>s. (lock_word (rw s), modes s 2, map (pcs s) [0, 1, 2])) (foldl (rw_play 3) (Some rw_init) lost_notification)
   = Some (0, Blocking, [Unlocked, Unlocked, ExclusiveSlow XS_asleep])"
  by code_simp

text \<open>
  C23. A timed exclusive request loses a notification: in a reachable state the lock is free, no
  thread is in any of its functions or holds it, and a thread sleeps that has asked for
  exclusive access without a deadline; nothing is left that would wake it up.
\<close>

theorem timed_writer_loses_notification:
  "\<exists>s. rw_reachable of_nat 3 True s \<and> lock_word (rw s) = 0 \<and> modes s 2 = Blocking \<and>
     pcs s = (\<lambda>_. Unlocked)(2 := ExclusiveSlow XS_asleep)"
proof -
  obtain s where s: "rw_reachable of_nat 3 True s" "lock_word (rw s) = 0" "modes s 2 = Blocking"
    "pcs s 0 = Unlocked" "pcs s 1 = Unlocked" "pcs s 2 = ExclusiveSlow XS_asleep"
    using rw_play_obtains [OF lost_notification_run, of True] by auto
  have "pcs s i = ((\<lambda>_. Unlocked)(2 := ExclusiveSlow XS_asleep)) i" for i
  proof (cases "i < 3")
    case True
    then have "i = 0 \<or> i = 1 \<or> i = 2" by auto
    then show ?thesis using s by auto
  next
    case False
    then show ?thesis using rw_inv_reachable [OF s(1)] by (auto simp: rw_inv_def)
  qed
  then show ?thesis using s by blast
qed

end
