(* ===== verification/Raw_Rwlock_Wakeup.thy ===== *)
theory Raw_Rwlock_Wakeup
  imports Raw_Rwlock_Props
begin

unbundle bit_operations_syntax

text \<open>
  Notifications of the reader-writer lock: without timed exclusive requests, a thread sleeps
  only while some other thread is in the lock or holds it.
\<close>

section \<open>Locations that matter to sleepers\<close>

text \<open>The generation that a writer has sampled and compares when it goes to sleep.\<close>

fun about_to_sleep :: "rw_pc \<Rightarrow> u32 option" where
  "about_to_sleep (ExclusiveSlow (XS_deadline g)) = Some g"
| "about_to_sleep (ExclusiveSlow (XS_wait g)) = Some g"
| "about_to_sleep p = None"

text \<open>A writer that will look at the word again before it sleeps.\<close>

fun retries :: "rw_pc \<Rightarrow> bool" where
  "retries (ExclusiveSlow XS_woken) = True"
| "retries (ExclusiveSlow XS_gen) = True"
| "retries (ExclusiveSlow (XS_load g)) = True"
| "retries (ExclusiveSlow (XS_reserve st)) = True"
| "retries (ExclusiveSlow (XS_mark g st)) = True"
| "retries p = False"

fun writer_bump :: "rw_pc \<Rightarrow> bool" where
  "writer_bump (Notify (NW_bump b)) = True"
| "writer_bump p = False"

fun writer_wake :: "rw_pc \<Rightarrow> bool" where
  "writer_wake (Notify (NW_wake b)) = True"
| "writer_wake p = False"

fun reader_pending :: "rw_pc \<Rightarrow> bool" where
  "reader_pending (Notify WR_wake) = True"
| "reader_pending (Notify (NW_bump b)) = b"
| "reader_pending (Notify (NW_wake b)) = b"
| "reader_pending p = False"

fun writer_sample :: "rw_pc \<Rightarrow> u32 option" where
  "writer_sample (ExclusiveSlow (XS_load g)) = Some g"
| "writer_sample (ExclusiveSlow (XS_mark g st)) = Some g"
| "writer_sample (ExclusiveSlow (XS_deadline g)) = Some g"
| "writer_sample (ExclusiveSlow (XS_wait g)) = Some g"
| "writer_sample p = None"

fun drain_sample :: "rw_pc \<Rightarrow> u32 option" where
  "drain_sample (WaitForDrain (WD_load g)) = Some g"
| "drain_sample (WaitForDrain (WD_wait g)) = Some g"
| "drain_sample p = None"

fun exclusive_request :: "rw_pc \<Rightarrow> bool" where
  "exclusive_request ExclusiveFast = True"
| "exclusive_request (ExclusiveSlow q) = True"
| "exclusive_request p = False"

section \<open>What a step does for sleepers\<close>

definition writer_facts :: "NoxuRawRwLock \<Rightarrow> rw_pc \<Rightarrow> NoxuRawRwLock \<Rightarrow> rw_pc \<Rightarrow> futex_wakes \<Rightarrow> bool" where
  "writer_facts l p l' p' w \<longleftrightarrow>
     (wp (lock_word l) \<longrightarrow> wp (lock_word l') \<or> writer_bump p') \<and>
     (retries p \<longrightarrow> retries p' \<or> wp (lock_word l')) \<and>
     (\<forall>g. about_to_sleep p = Some g \<longrightarrow>
        about_to_sleep p' = Some g \<or> g = write_futex l \<and> p' = ExclusiveSlow XS_asleep \<or> retries p') \<and>
     (\<forall>g. about_to_sleep p' = Some g \<longrightarrow> about_to_sleep p = Some g \<or> wp (lock_word l')) \<and>
     (p' = ExclusiveSlow XS_asleep \<longrightarrow> about_to_sleep p = Some (write_futex l)) \<and>
     (writer_bump p \<longrightarrow> writer_wake p' \<and> write_futex l' = write_futex l + 1 \<and> lock_word l' = lock_word l) \<and>
     (\<not> writer_bump p \<longrightarrow> write_futex l' = write_futex l) \<and>
     (writer_wake p \<longleftrightarrow> w = WakeWriter) \<and>
     (\<forall>g. writer_sample p' = Some g \<longrightarrow> writer_sample p = Some g \<or> g = write_futex l)"

definition reader_facts :: "NoxuRawRwLock \<Rightarrow> rw_pc \<Rightarrow> NoxuRawRwLock \<Rightarrow> rw_pc \<Rightarrow> futex_wakes \<Rightarrow> bool" where
  "reader_facts l p l' p' w \<longleftrightarrow>
     (rp (lock_word l) \<longrightarrow> rp (lock_word l') \<or> reader_pending p') \<and>
     (reader_pending p \<longrightarrow> reader_pending p' \<or> w = WakeReaders) \<and>
     (p' = SharedSlow SS_asleep \<longrightarrow> rp (lock_word l'))"

definition drain_facts :: "NoxuRawRwLock \<Rightarrow> rw_pc \<Rightarrow> NoxuRawRwLock \<Rightarrow> rw_pc \<Rightarrow> futex_wakes \<Rightarrow> bool" where
  "drain_facts l p l' p' w \<longleftrightarrow>
     (0 < rd (lock_word l) \<and> wl (lock_word l) \<longrightarrow> 0 < rd (lock_word l') \<or> p' = Notify ND_bump) \<and>
     (p = Notify ND_bump \<longrightarrow> p' = Notify ND_wake \<and> drain_futex l' = drain_futex l + 1) \<and>
     (p \<noteq> Notify ND_bump \<longrightarrow> drain_futex l' = drain_futex l) \<and>
     (p = Notify ND_wake \<longleftrightarrow> w = WakeDrain) \<and>
     (\<forall>g. p' = WaitForDrain (WD_wait g) \<longrightarrow> 0 < rd (lock_word l')) \<and>
     (p' = WaitForDrain WD_asleep \<longrightarrow> p = WaitForDrain (WD_wait (drain_futex l))) \<and>
     (\<forall>g. drain_sample p' = Some g \<longrightarrow> drain_sample p = Some g \<or> g = drain_futex l)"

lemmas facts_defs = writer_facts_def reader_facts_def drain_facts_def

definition wake_facts :: "NoxuRawRwLock \<Rightarrow> rw_pc \<Rightarrow> NoxuRawRwLock \<Rightarrow> rw_pc \<Rightarrow> futex_wakes \<Rightarrow> bool" where
  "wake_facts l p l' p' w \<longleftrightarrow> writer_facts l p l' p' w \<and> reader_facts l p l' p' w \<and> drain_facts l p l' p' w \<and>
     (exclusive_request p' \<longrightarrow> exclusive_request p)"

lemma count_flags:
  assumes "rd st + 1 < 2 ^ 29"
  shows "wp (st + ONE_READER) = wp st" "wl (st + ONE_READER) = wl st" "rp (st + ONE_READER) = rp st" "0 < rd (st + ONE_READER)"
  using count_up [OF assms] by auto

lemma shared_fast_facts:
  assumes "try_lock_shared_fast m l q = (l', p', w)" "rd (lock_word l) + 1 < 2 ^ 29"
  shows "wake_facts l (SharedFast q) l' p' w"
  using assms(1) count_flags [OF assms(2)]
  by (cases q) (auto simp: wake_facts_def facts_defs step_defs split: if_splits)

lemma shared_slow_facts:
  assumes "lock_shared_slow expired spurious l q = (l', p', w)" "pc_ok (SharedSlow q)" "q \<noteq> SS_asleep"
    "rd (lock_word l) + 1 < 2 ^ 29"
  shows "wake_facts l (SharedSlow q) l' p' w"
  using assms(1-3) count_flags [OF assms(4)]
  by (cases q) (auto simp: wake_facts_def facts_defs step_defs split: if_splits)

lemma exclusive_slow_facts:
  assumes "lock_exclusive_slow False spurious l q = (l', p', w)" "pc_ok (ExclusiveSlow q)" "q \<noteq> XS_asleep"
  shows "wake_facts l (ExclusiveSlow q) l' p' w"
  using assms by (cases q) (auto simp: wake_facts_def facts_defs step_defs split: if_splits)

lemma drain_wait_facts:
  assumes "wait_for_drain expired l q = (l', p', w)" "q \<noteq> WD_asleep"
  shows "wake_facts l (WaitForDrain q) l' p' w"
  using assms by (cases q) (auto simp: wake_facts_def facts_defs step_defs split: if_splits)

lemma give_up_facts:
  assumes "try_give_up_reservation spurious l q = (l', p', w)"
  shows "wake_facts l (GiveUp q) l' p' w"
  using assms by (cases q) (auto simp: wake_facts_def facts_defs step_defs split: if_splits)

lemma notify_facts:
  assumes "notify l q = (l', p', w)"
  shows "wake_facts l (Notify q) l' p' w"
  using assms by (cases q) (auto simp: wake_facts_def facts_defs step_defs split: if_splits)

lemma unlock_shared_facts:
  assumes "unlock_shared l = (l', p', w)" "0 < rd (lock_word l)" "wp (lock_word l) \<longrightarrow> wl (lock_word l)"
  shows "wake_facts l UnlockShared l' p' w"
  using assms count_down [OF assms(2)]
  by (auto simp: wake_facts_def facts_defs step_defs split: if_splits)

text \<open>
  A step of a thread, given what the invariant says of the word: no overflow of the count when
  a reader enters, a reader counted when one leaves.
\<close>

lemma thread_facts:
  assumes "rw_thread_step tid m late spurious l p = (l', p', w)" "running p" "pc_ok p"
    "exclusive_request p \<longrightarrow> m \<noteq> Timed"
    "\<not> holds_read p \<longrightarrow> rd (lock_word l) + 1 < 2 ^ 29" "holds_read p \<longrightarrow> 0 < rd (lock_word l)"
    "wp (lock_word l) \<longrightarrow> wl (lock_word l)"
  shows "wake_facts l p l' p' w"
proof (cases p)
  case (SharedFast q)
  then show ?thesis using assms(1,5) shared_fast_facts by (auto simp: rw_thread_step_def)
next
  case (SharedSlow q)
  then show ?thesis using assms(1,2,3,5) shared_slow_facts by (auto simp: rw_thread_step_def Let_def running_def)
next
  case UnlockShared
  then show ?thesis using assms(1,6,7) unlock_shared_facts by (auto simp: rw_thread_step_def)
next
  case (ExclusiveSlow q)
  then show ?thesis using assms(1-4) exclusive_slow_facts by (auto simp: rw_thread_step_def running_def)
next
  case (WaitForDrain q)
  then show ?thesis using assms(1,2) drain_wait_facts by (auto simp: rw_thread_step_def Let_def running_def)
next
  case (GiveUp q)
  then show ?thesis using assms(1) give_up_facts by (auto simp: rw_thread_step_def)
next
  case (Notify q)
  then show ?thesis using assms(1) notify_facts by (auto simp: rw_thread_step_def)
qed (use assms(1-3) in \<open>auto simp: rw_thread_step_def running_def wake_facts_def facts_defs step_defs split: if_splits\<close>)

section \<open>The invariant of sleepers\<close>

text \<open>Somebody will give a waiting writer another chance: by the word, or by itself.\<close>

definition writer_chance :: "NoxuRawRwLock \<Rightarrow> (nat \<Rightarrow> rw_pc) \<Rightarrow> bool" where
  "writer_chance l ps \<longleftrightarrow> wp (lock_word l) \<or>
     (\<exists>j. retries (ps j) \<or> writer_bump (ps j) \<or> (\<exists>g. about_to_sleep (ps j) = Some g \<and> g \<noteq> write_futex l))"

definition writers_ok :: "NoxuRawRwLock \<Rightarrow> (nat \<Rightarrow> rw_pc) \<Rightarrow> bool" where
  "writers_ok l ps \<longleftrightarrow>
     ((\<exists>i. about_to_sleep (ps i) = Some (write_futex l)) \<longrightarrow> writer_chance l ps) \<and>
     ((\<exists>i. ps i = ExclusiveSlow XS_asleep) \<longrightarrow> writer_chance l ps \<or> (\<exists>j. writer_wake (ps j)))"

definition readers_ok :: "NoxuRawRwLock \<Rightarrow> (nat \<Rightarrow> rw_pc) \<Rightarrow> bool" where
  "readers_ok l ps \<longleftrightarrow>
     ((\<exists>i. ps i = SharedSlow SS_asleep) \<longrightarrow> rp (lock_word l) \<or> (\<exists>j. reader_pending (ps j)))"

definition drain_ok :: "NoxuRawRwLock \<Rightarrow> (nat \<Rightarrow> rw_pc) \<Rightarrow> bool" where
  "drain_ok l ps \<longleftrightarrow>
     ((\<exists>i. ps i = WaitForDrain (WD_wait (drain_futex l))) \<longrightarrow> 0 < rd (lock_word l) \<or> (\<exists>j. ps j = Notify ND_bump)) \<and>
     ((\<exists>i. ps i = WaitForDrain WD_asleep) \<longrightarrow>
        0 < rd (lock_word l) \<or> (\<exists>j. ps j = Notify ND_bump \<or> ps j = Notify ND_wake))"

definition samples_ok :: "NoxuRawRwLock \<Rightarrow> (nat \<Rightarrow> rw_pc) \<Rightarrow> bool" where
  "samples_ok l ps \<longleftrightarrow> (\<forall>i g. writer_sample (ps i) = Some g \<longrightarrow> unat g \<le> unat (write_futex l)) \<and>
     (\<forall>i g. drain_sample (ps i) = Some g \<longrightarrow> unat g \<le> unat (drain_futex l))"

lemma about_to_sleep_sample: "about_to_sleep p = Some g \<Longrightarrow> writer_sample p = Some g"
  by (cases p rule: about_to_sleep.cases) auto

text \<open>The step of thread \<open>i\<close>, before the threads that it notifies wake up.\<close>

lemma writer_chance_step:
  assumes "writer_facts l (ps i) l' p' w" "writer_chance l ps" "\<not> writer_bump (ps i)"
  shows "writer_chance l' (ps(i := p'))"
proof -
  have wf: "write_futex l' = write_futex l" using assms(1,3) by (simp add: writer_facts_def)
  consider "wp (lock_word l)" | "retries (ps i)" | g where "about_to_sleep (ps i) = Some g" "g \<noteq> write_futex l"
    | j where "j \<noteq> i" "retries (ps j) \<or> writer_bump (ps j) \<or> (\<exists>g. about_to_sleep (ps j) = Some g \<and> g \<noteq> write_futex l)"
    using assms(2,3) unfolding writer_chance_def by metis
  then show ?thesis
  proof cases
    case 1
    then have "wp (lock_word l') \<or> writer_bump p'" using assms(1) by (simp add: writer_facts_def)
    then show ?thesis unfolding writer_chance_def by (metis fun_upd_same)
  next
    case 2
    then have "retries p' \<or> wp (lock_word l')" using assms(1) by (simp add: writer_facts_def)
    then show ?thesis unfolding writer_chance_def by (metis fun_upd_same)
  next
    case 3
    then have "about_to_sleep p' = Some g \<or> retries p'" using assms(1) by (auto simp: writer_facts_def)
    then show ?thesis unfolding writer_chance_def wf by (metis fun_upd_same 3(2))
  next
    case 4
    then show ?thesis unfolding writer_chance_def wf by (metis fun_upd_other)
  qed
qed

lemma writers_step:
  assumes f: "writer_facts l (ps i) l' p' w" and ok: "writers_ok l ps" and s: "samples_ok l ps"
    and bound: "writer_bump (ps i) \<longrightarrow> unat (write_futex l) + 1 < 2 ^ 32"
  shows "((\<exists>j. about_to_sleep ((ps(i := p')) j) = Some (write_futex l')) \<longrightarrow> writer_chance l' (ps(i := p'))) \<and>
    ((\<exists>j. (ps(i := p')) j = ExclusiveSlow XS_asleep) \<longrightarrow>
       writer_chance l' (ps(i := p')) \<or> (\<exists>j. writer_wake ((ps(i := p')) j)) \<or> w = WakeWriter)"
proof (cases "writer_bump (ps i)")
  case True
  then have b: "writer_wake p'" "write_futex l' = write_futex l + 1" using f by (auto simp: writer_facts_def)
  have up: "unat (write_futex l') = unat (write_futex l) + 1"
    using bound True b(2) by (simp add: unat_word_ariths)
  have "about_to_sleep ((ps(i := p')) j) \<noteq> Some (write_futex l')" for j
  proof
    assume a: "about_to_sleep ((ps(i := p')) j) = Some (write_futex l')"
    moreover have "about_to_sleep p' = None" using b(1) by (cases p' rule: writer_wake.cases) auto
    ultimately have "about_to_sleep (ps j) = Some (write_futex l')" by (cases "j = i") auto
    then have "unat (write_futex l') \<le> unat (write_futex l)"
      using s about_to_sleep_sample unfolding samples_ok_def by blast
    then show False using up by simp
  qed
  then show ?thesis using b(1) by (metis fun_upd_same)
next
  case False
  then have wf: "write_futex l' = write_futex l" using f by (simp add: writer_facts_def)
  have chance: "writer_chance l' (ps(i := p'))" if "writer_chance l ps"
    by (rule writer_chance_step [OF f that False])
  have old: "about_to_sleep (ps j) = Some (write_futex l) \<Longrightarrow> writer_chance l ps"
    "ps j = ExclusiveSlow XS_asleep \<Longrightarrow> writer_chance l ps \<or> (\<exists>j. writer_wake (ps j))" for j
    using ok unfolding writers_ok_def by blast+
  show ?thesis
  proof (intro conjI impI; elim exE)
    fix j assume j: "about_to_sleep ((ps(i := p')) j) = Some (write_futex l')"
    show "writer_chance l' (ps(i := p'))"
    proof (cases "j = i")
      case True
      then have "about_to_sleep (ps i) = Some (write_futex l) \<or> wp (lock_word l')"
        using j f unfolding wf by (simp add: writer_facts_def)
      then show ?thesis
      proof
        assume "wp (lock_word l')"
        then show ?thesis by (simp add: writer_chance_def)
      qed (use old(1) chance in blast)
    next
      case False
      then have "about_to_sleep (ps j) = Some (write_futex l)" using j wf by simp
      then show ?thesis by (rule chance [OF old(1)])
    qed
  next
    fix j assume j: "(ps(i := p')) j = ExclusiveSlow XS_asleep"
    have "writer_chance l ps \<or> (\<exists>j. writer_wake (ps j))"
    proof (cases "j = i")
      case True
      then have "p' = ExclusiveSlow XS_asleep" using j by simp
      then have "about_to_sleep (ps i) = Some (write_futex l)" using f unfolding writer_facts_def by blast
      then show ?thesis using old(1) by blast
    next
      case False
      then have "ps j = ExclusiveSlow XS_asleep" using j by simp
      then show ?thesis by (rule old(2))
    qed
    moreover have "(\<exists>j. writer_wake ((ps(i := p')) j)) \<or> w = WakeWriter" if "writer_wake (ps k)" for k
      using that f unfolding writer_facts_def by (metis fun_upd_other)
    ultimately show "writer_chance l' (ps(i := p')) \<or> (\<exists>j. writer_wake ((ps(i := p')) j)) \<or> w = WakeWriter"
      using chance by blast
  qed
qed

lemma readers_step:
  assumes f: "reader_facts l (ps i) l' p' w" and ok: "readers_ok l ps"
  shows "(\<exists>j. (ps(i := p')) j = SharedSlow SS_asleep) \<longrightarrow>
    rp (lock_word l') \<or> (\<exists>j. reader_pending ((ps(i := p')) j)) \<or> w = WakeReaders"
proof (intro impI; elim exE)
  fix j assume j: "(ps(i := p')) j = SharedSlow SS_asleep"
  have kept: "rp (lock_word l') \<or> (\<exists>j. reader_pending ((ps(i := p')) j)) \<or> w = WakeReaders"
    if "rp (lock_word l) \<or> (\<exists>k. reader_pending (ps k))"
    using that f unfolding reader_facts_def by (metis fun_upd_apply)
  show "rp (lock_word l') \<or> (\<exists>j. reader_pending ((ps(i := p')) j)) \<or> w = WakeReaders"
  proof (cases "j = i")
    case True
    then show ?thesis using j f by (simp add: reader_facts_def)
  next
    case False
    then have "ps j = SharedSlow SS_asleep" using j by simp
    then show ?thesis using ok kept unfolding readers_ok_def by blast
  qed
qed

lemma drain_step:
  assumes f: "drain_facts l (ps i) l' p' w" and ok: "drain_ok l ps" and s: "samples_ok l ps"
    and bound: "ps i = Notify ND_bump \<longrightarrow> unat (drain_futex l) + 1 < 2 ^ 32"
    and owner: "\<And>j q. ps j = WaitForDrain q \<Longrightarrow> wl (lock_word l)"
  shows "((\<exists>j. (ps(i := p')) j = WaitForDrain (WD_wait (drain_futex l'))) \<longrightarrow>
       0 < rd (lock_word l') \<or> (\<exists>j. (ps(i := p')) j = Notify ND_bump)) \<and>
    ((\<exists>j. (ps(i := p')) j = WaitForDrain WD_asleep) \<longrightarrow>
       0 < rd (lock_word l') \<or> (\<exists>j. (ps(i := p')) j = Notify ND_bump \<or> (ps(i := p')) j = Notify ND_wake) \<or> w = WakeDrain)"
proof (intro conjI impI; elim exE)
  fix j assume j: "(ps(i := p')) j = WaitForDrain (WD_wait (drain_futex l'))"
  show "0 < rd (lock_word l') \<or> (\<exists>j. (ps(i := p')) j = Notify ND_bump)"
  proof (cases "j = i")
    case True
    then show ?thesis using j f by (auto simp: drain_facts_def)
  next
    case False
    then have pj: "ps j = WaitForDrain (WD_wait (drain_futex l'))" using j by simp
    have "ps i \<noteq> Notify ND_bump"
    proof
      assume "ps i = Notify ND_bump"
      then have "unat (drain_futex l') = unat (drain_futex l) + 1"
        using f bound by (simp add: drain_facts_def unat_word_ariths)
      moreover have "unat (drain_futex l') \<le> unat (drain_futex l)"
        using s pj unfolding samples_ok_def by (metis drain_sample.simps(2))
      ultimately show False by simp
    qed
    then have df: "drain_futex l' = drain_futex l" using f by (simp add: drain_facts_def)
    then have "0 < rd (lock_word l) \<or> (\<exists>k. ps k = Notify ND_bump)"
      using ok pj unfolding drain_ok_def by metis
    then show ?thesis
      using owner [OF pj] f \<open>ps i \<noteq> Notify ND_bump\<close> unfolding drain_facts_def by (metis fun_upd_apply)
  qed
next
  fix j assume j: "(ps(i := p')) j = WaitForDrain WD_asleep"
  have owned: "wl (lock_word l)"
    using j f owner [of j] owner [of i] by (cases "j = i") (auto simp: drain_facts_def)
  have "0 < rd (lock_word l) \<or> (\<exists>k. ps k = Notify ND_bump \<or> ps k = Notify ND_wake)"
    using j f ok by (cases "j = i") (auto simp: drain_facts_def drain_ok_def)
  then show "0 < rd (lock_word l') \<or> (\<exists>j. (ps(i := p')) j = Notify ND_bump \<or> (ps(i := p')) j = Notify ND_wake) \<or> w = WakeDrain"
    using owned f unfolding drain_facts_def by (metis fun_upd_apply)
qed

lemma samples_step:
  assumes "writer_facts l (ps i) l' p' w" "drain_facts l (ps i) l' p' w" "samples_ok l ps"
    "writer_bump (ps i) \<longrightarrow> unat (write_futex l) + 1 < 2 ^ 32" "ps i = Notify ND_bump \<longrightarrow> unat (drain_futex l) + 1 < 2 ^ 32"
  shows "samples_ok l' (ps(i := p'))"
proof -
  have w: "unat (write_futex l) \<le> unat (write_futex l')"
    using assms(1,4) by (cases "writer_bump (ps i)") (simp_all add: writer_facts_def unat_word_ariths)
  have d: "unat (drain_futex l) \<le> unat (drain_futex l')"
    using assms(2,5) by (cases "ps i = Notify ND_bump") (simp_all add: drain_facts_def unat_word_ariths)
  have ws: "writer_sample ((ps(i := p')) j) = Some g \<Longrightarrow> writer_sample (ps j) = Some g \<or> g = write_futex l" for j g
    using assms(1) by (cases "j = i") (simp_all add: writer_facts_def)
  have ds: "drain_sample ((ps(i := p')) j) = Some g \<Longrightarrow> drain_sample (ps j) = Some g \<or> g = drain_futex l" for j g
    using assms(2) by (cases "j = i") (simp_all add: drain_facts_def)
  show ?thesis
    unfolding samples_ok_def
  proof (intro conjI allI impI)
    fix j g assume "writer_sample ((ps(i := p')) j) = Some g"
    then have "writer_sample (ps j) = Some g \<or> g = write_futex l" by (rule ws)
    then have "unat g \<le> unat (write_futex l)" using assms(3) unfolding samples_ok_def by blast
    then show "unat g \<le> unat (write_futex l')" using w by (rule order_trans)
  next
    fix j g assume "drain_sample ((ps(i := p')) j) = Some g"
    then have "drain_sample (ps j) = Some g \<or> g = drain_futex l" by (rule ds)
    then have "unat g \<le> unat (drain_futex l)" using assms(3) unfolding samples_ok_def by blast
    then show "unat g \<le> unat (drain_futex l')" using d by (rule order_trans)
  qed
qed

text \<open>Then some of the sleeping threads wake up.\<close>

definition wakes_some :: "(nat \<Rightarrow> rw_pc) \<Rightarrow> (nat \<Rightarrow> rw_pc) \<Rightarrow> bool" where
  "wakes_some ps ps' \<longleftrightarrow> (\<forall>j. ps' j = ps j \<or> asleep (ps j) \<and> ps' j = woken (ps j))"

lemma wakes_someD:
  assumes "wakes_some ps ps'"
  shows "about_to_sleep (ps' j) = about_to_sleep (ps j)" "writer_bump (ps' j) = writer_bump (ps j)"
    "writer_wake (ps' j) = writer_wake (ps j)" "reader_pending (ps' j) = reader_pending (ps j)"
    "writer_sample (ps' j) = writer_sample (ps j)" "drain_sample (ps' j) = drain_sample (ps j)"
    "retries (ps j) \<Longrightarrow> retries (ps' j)" "ps' j = Notify q \<longleftrightarrow> ps j = Notify q"
    "ps' j = WaitForDrain (WD_wait g) \<longleftrightarrow> ps j = WaitForDrain (WD_wait g)"
    "asleep (ps' j) \<Longrightarrow> ps j = ps' j" "exclusive_request (ps' j) = exclusive_request (ps j)"
  using assms [unfolded wakes_some_def, rule_format, of j] by auto

lemma chance_wakes: "wakes_some ps ps' \<Longrightarrow> writer_chance l ps \<Longrightarrow> writer_chance l ps'"
  using wakes_someD [of ps ps'] unfolding writer_chance_def by metis

lemma writers_wake:
  assumes step: "(\<exists>j. about_to_sleep (ps j) = Some (write_futex l)) \<longrightarrow> writer_chance l ps"
    "(\<exists>j. ps j = ExclusiveSlow XS_asleep) \<longrightarrow> writer_chance l ps \<or> (\<exists>j. writer_wake (ps j)) \<or> w = WakeWriter"
    and wake: "wakes_some ps ps'" "w = WakeWriter \<Longrightarrow> wake_one (ExclusiveSlow XS_asleep) ps ps'"
  shows "writers_ok l ps'"
  unfolding writers_ok_def
proof (intro conjI impI; elim exE)
  fix j assume "about_to_sleep (ps' j) = Some (write_futex l)"
  then show "writer_chance l ps'" using step(1) chance_wakes [OF wake(1)] wakes_someD(1) [OF wake(1)] by metis
next
  fix j assume "ps' j = ExclusiveSlow XS_asleep"
  then have j: "ps j = ExclusiveSlow XS_asleep" using wakes_someD(10) [OF wake(1), of j] by auto
  then consider "writer_chance l ps" | k where "writer_wake (ps k)" | "w = WakeWriter" using step(2) by blast
  then show "writer_chance l ps' \<or> (\<exists>j. writer_wake (ps' j))"
  proof cases
    case 3
    then obtain k where "ps' = ps(k := woken (ExclusiveSlow XS_asleep))"
      using wake(2) j unfolding wake_one_def by metis
    then have "retries (ps' k)" by simp
    then show ?thesis unfolding writer_chance_def by blast
  qed (use chance_wakes [OF wake(1)] wakes_someD(3) [OF wake(1)] in metis)+
qed

lemma readers_wake:
  assumes step: "(\<exists>j. ps j = SharedSlow SS_asleep) \<longrightarrow> rp (lock_word l) \<or> (\<exists>j. reader_pending (ps j)) \<or> w = WakeReaders"
    and wake: "wakes_some ps ps'" "w = WakeReaders \<Longrightarrow> futex_wake WakeReaders ps ps'"
  shows "readers_ok l ps'"
  unfolding readers_ok_def
proof (intro impI; elim exE)
  fix j assume a: "ps' j = SharedSlow SS_asleep"
  then have j: "ps j = SharedSlow SS_asleep" using wakes_someD(10) [OF wake(1), of j] by auto
  then have "w \<noteq> WakeReaders" using a wake(2) by auto
  then show "rp (lock_word l) \<or> (\<exists>j. reader_pending (ps' j))"
    using step j wakes_someD(4) [OF wake(1)] by auto
qed

lemma drain_wake:
  assumes step: "(\<exists>j. ps j = WaitForDrain (WD_wait (drain_futex l))) \<longrightarrow> 0 < rd (lock_word l) \<or> (\<exists>j. ps j = Notify ND_bump)"
    "(\<exists>j. ps j = WaitForDrain WD_asleep) \<longrightarrow>
       0 < rd (lock_word l) \<or> (\<exists>j. ps j = Notify ND_bump \<or> ps j = Notify ND_wake) \<or> w = WakeDrain"
    and wake: "wakes_some ps ps'" "w = WakeDrain \<Longrightarrow> wake_one (WaitForDrain WD_asleep) ps ps'"
    and one: "\<And>j k. ps j = WaitForDrain WD_asleep \<Longrightarrow> ps k = WaitForDrain WD_asleep \<Longrightarrow> j = k"
  shows "drain_ok l ps'"
  unfolding drain_ok_def wakes_someD(8,9) [OF wake(1)]
proof (intro conjI impI)
  assume "\<exists>i. ps' i = WaitForDrain WD_asleep"
  then obtain j where a: "ps' j = WaitForDrain WD_asleep" by blast
  then have j: "ps j = WaitForDrain WD_asleep" using wakes_someD(10) [OF wake(1), of j] by auto
  have "w \<noteq> WakeDrain"
  proof
    assume "w = WakeDrain"
    then obtain k where "ps k = WaitForDrain WD_asleep" "ps' = ps(k := woken (WaitForDrain WD_asleep))"
      using wake(2) j unfolding wake_one_def by metis
    then show False using one [OF j, of k] a by simp
  qed
  then show "0 < rd (lock_word l) \<or> (\<exists>j. ps j = Notify ND_bump \<or> ps j = Notify ND_wake)"
    using step(2) j by blast
qed (use step(1) in blast)

section \<open>Every reachable system\<close>

definition sleep_inv :: "rw_system \<Rightarrow> bool" where
  "sleep_inv s \<longleftrightarrow> writers_ok (rw s) (pcs s) \<and> readers_ok (rw s) (pcs s) \<and> drain_ok (rw s) (pcs s) \<and>
     samples_ok (rw s) (pcs s) \<and> unat (write_futex (rw s)) + unat (drain_futex (rw s)) = hand_overs s \<and>
     (\<forall>i. exclusive_request (pcs s i) \<longrightarrow> modes s i \<noteq> Timed)"

lemma sleep_inv_init: "sleep_inv rw_init"
  by (simp add: sleep_inv_def rw_init_def RwLock_INIT_def writers_ok_def readers_ok_def drain_ok_def samples_ok_def)

text \<open>One step of thread \<open>i\<close> followed by the threads it wakes up.\<close>

lemma sleep_inv_facts:
  assumes inv: "sleep_inv s" and rwi: "rw_inv N (lock_word (rw s)) (pcs s)" "rw_inv N (lock_word l) ((pcs s)(i := p))"
    and wf: "writer_facts (rw s) (pcs s i) l p w" and rf: "reader_facts (rw s) (pcs s i) l p w"
    and df: "drain_facts (rw s) (pcs s i) l p w" and wake: "futex_wake w ((pcs s)(i := p)) pcs'"
    and s': "rw s' = l" "pcs s' = pcs'"
      "hand_overs s' = hand_overs s + of_bool (write_futex l \<noteq> write_futex (rw s)) + of_bool (drain_futex l \<noteq> drain_futex (rw s))"
    and bound: "hand_overs s' < 2 ^ 32" and modes: "\<And>j. exclusive_request (pcs' j) \<Longrightarrow> modes s' j \<noteq> Timed"
  shows "sleep_inv s'"
proof -
  have h: "unat (write_futex (rw s)) + unat (drain_futex (rw s)) = hand_overs s" using inv by (simp add: sleep_inv_def)
  have wb: "writer_bump (pcs s i) \<longrightarrow> unat (write_futex (rw s)) + 1 < 2 ^ 32"
    using h bound s'(3) wf by (auto simp: writer_facts_def)
  have db: "pcs s i = Notify ND_bump \<longrightarrow> unat (drain_futex (rw s)) + 1 < 2 ^ 32"
    using h bound s'(3) df by (auto simp: drain_facts_def)
  have count: "unat (write_futex l) + unat (drain_futex l) = hand_overs s'"
    using h s'(3) wf df wb db
    by (cases "writer_bump (pcs s i)"; cases "pcs s i = Notify ND_bump") (auto simp: writer_facts_def drain_facts_def unat_word_ariths)
  have owner: "pcs s j = WaitForDrain q \<Longrightarrow> wl (lock_word (rw s))" for j q
    using rwi(1) unfolding rw_inv_def by (metis owns_word.simps(7))
  have one: "((pcs s)(i := p)) j = WaitForDrain WD_asleep \<Longrightarrow> ((pcs s)(i := p)) k = WaitForDrain WD_asleep \<Longrightarrow> j = k" for j k
    using rwi(2) unfolding rw_inv_def by (metis owns_word.simps(7))
  have some: "wakes_some ((pcs s)(i := p)) pcs'"
    using futex_wake_woken [OF wake] by (simp add: wakes_some_def)
  have W: "w = WakeWriter \<Longrightarrow> wake_one (ExclusiveSlow XS_asleep) ((pcs s)(i := p)) pcs'"
    and D: "w = WakeDrain \<Longrightarrow> wake_one (WaitForDrain WD_asleep) ((pcs s)(i := p)) pcs'"
    and R: "w = WakeReaders \<Longrightarrow> futex_wake WakeReaders ((pcs s)(i := p)) pcs'"
    using wake by auto
  have ok: "writers_ok (rw s) (pcs s)" "readers_ok (rw s) (pcs s)" "drain_ok (rw s) (pcs s)" "samples_ok (rw s) (pcs s)"
    using inv by (simp_all add: sleep_inv_def)
  have "writers_ok l pcs'"
    using writers_step [OF wf ok(1,4) wb] writers_wake [OF _ _ some W] by blast
  moreover have "readers_ok l pcs'"
    using readers_wake [OF readers_step [OF rf ok(2)] some R] by blast
  moreover have "drain_ok l pcs'"
  proof (rule drain_wake [OF _ _ some D one])
    note ds = drain_step [OF df ok(3,4) db owner]
    show "(\<exists>j. ((pcs s)(i := p)) j = WaitForDrain (WD_wait (drain_futex l))) \<longrightarrow>
        0 < rd (lock_word l) \<or> (\<exists>j. ((pcs s)(i := p)) j = Notify ND_bump)"
      by (rule conjunct1 [OF ds])
    show "(\<exists>j. ((pcs s)(i := p)) j = WaitForDrain WD_asleep) \<longrightarrow> 0 < rd (lock_word l) \<or>
        (\<exists>j. ((pcs s)(i := p)) j = Notify ND_bump \<or> ((pcs s)(i := p)) j = Notify ND_wake) \<or> w = WakeDrain"
      by (rule conjunct2 [OF ds])
  qed
  moreover have "samples_ok l pcs'"
    using samples_step [OF wf df ok(4) wb db] unfolding samples_ok_def wakes_someD(5,6) [OF some] .
  ultimately show ?thesis using count modes by (simp add: sleep_inv_def s'(1,2))
qed

lemma sleep_inv_step:
  assumes step: "rw_step thread_id N False s s'" and inv: "sleep_inv s" and rwi: "rw_inv N (lock_word (rw s)) (pcs s)"
    and n: "N < 2 ^ 29" and bound: "hand_overs s' < 2 ^ 32"
  shows "sleep_inv s'"
proof -
  have m: "exclusive_request (pcs s j) \<Longrightarrow> modes s j \<noteq> Timed" for j using inv by (simp add: sleep_inv_def)
  have rwi': "rw_inv N (lock_word (rw s')) (pcs s')" by (rule rw_inv_step [OF step rwi n])
  have quiet: "sleep_inv s'"
    if "pcs s' = (pcs s)(i := p)" "rw s' = rw s" "hand_overs s' = hand_overs s"
      "writer_facts (rw s) (pcs s i) (rw s) p NoWake" "reader_facts (rw s) (pcs s i) (rw s) p NoWake"
      "drain_facts (rw s) (pcs s i) (rw s) p NoWake" "\<And>j. exclusive_request (pcs s' j) \<Longrightarrow> modes s' j \<noteq> Timed" for i p
  proof (rule sleep_inv_facts [where pcs' = "pcs s'", OF inv rwi _ that(4-6)])
    show "\<And>j. exclusive_request (pcs s' j) \<Longrightarrow> modes s' j \<noteq> Timed" by (rule that(7))
  qed (use that(1-3) rwi' bound in simp_all)
  from step show ?thesis
  proof cases
    case (call_shared i mo)
    then show ?thesis using m by (intro quiet [of i "SharedFast SF_load"]) (auto simp: facts_defs split: if_splits)
  next
    case (call_exclusive i mo)
    then show ?thesis using m by (intro quiet [of i ExclusiveFast]) (auto simp: facts_defs split: if_splits)
  next
    case (leave_shared i)
    then show ?thesis using m by (intro quiet [of i UnlockShared]) (auto simp: facts_defs split: if_splits)
  next
    case (leave_exclusive i)
    then show ?thesis using m by (intro quiet [of i UnlockExclusive]) (auto simp: facts_defs split: if_splits)
  next
    case (run i late spurious l p w pcs')
    have i: "i < N" using run(2) rwi by (auto simp: rw_inv_def running_def)
    have ok: "pc_ok (pcs s i)" "wp (lock_word (rw s)) \<longrightarrow> wl (lock_word (rw s))"
      using rwi unfolding rw_inv_def by blast+
    have f: "wake_facts (rw s) (pcs s i) l p w"
      using reader_room [OF rwi i n] reader_counted [OF rwi] m
      by (intro thread_facts [OF run(3,2) ok(1) _ _ _ ok(2)]) blast+
    have "pc_ok p \<and> (\<exists>e. effect e (lock_word (rw s)) (pcs s i) (lock_word l) p)"
      by (rule thread_effect [OF run(3) ok(1) run(2) ok(2)])
    then have "rw_inv N (lock_word l) ((pcs s)(i := p))" using rw_inv_effect [OF rwi _ i n] by blast
    moreover have "modes s' j \<noteq> Timed" if "exclusive_request (pcs' j)" for j
    proof -
      have "wakes_some ((pcs s)(i := p)) pcs'" using futex_wake_woken [OF run(4)] by (simp add: wakes_some_def)
      then have "exclusive_request (((pcs s)(i := p)) j)" using wakes_someD(11) that by metis
      then have "exclusive_request (pcs s j)" using f by (cases "j = i") (simp_all add: wake_facts_def)
      then show ?thesis using m by (simp add: run(1))
    qed
    ultimately show ?thesis
      using bound f by (intro sleep_inv_facts [where pcs' = pcs', OF inv rwi _ _ _ _ run(4)]) (auto simp: run(1) wake_facts_def)
  next
    case (wake_up i)
    have w: "wakes_some (pcs s) (pcs s')" using wake_up by (simp add: wakes_some_def)
    have ok: "writers_ok (rw s) (pcs s)" "readers_ok (rw s) (pcs s)" "drain_ok (rw s) (pcs s)" "samples_ok (rw s) (pcs s)"
      using inv by (simp_all add: sleep_inv_def)
    have one: "pcs s j = WaitForDrain WD_asleep \<Longrightarrow> pcs s k = WaitForDrain WD_asleep \<Longrightarrow> j = k" for j k
      using rwi unfolding rw_inv_def by (metis owns_word.simps(7))
    have "writers_ok (rw s) (pcs s')"
      by (rule writers_wake [where w = NoWake, OF _ _ w]) (use ok(1) in \<open>auto simp: writers_ok_def\<close>)
    moreover have "readers_ok (rw s) (pcs s')"
      by (rule readers_wake [where w = NoWake, OF _ w]) (use ok(2) in \<open>auto simp: readers_ok_def\<close>)
    moreover have "drain_ok (rw s) (pcs s')"
      by (rule drain_wake [where w = NoWake, OF _ _ w]) (use ok(3) one in \<open>auto simp: drain_ok_def\<close>)
    moreover have "samples_ok (rw s) (pcs s')"
      using ok(4) unfolding samples_ok_def wakes_someD(5,6) [OF w] .
    ultimately show ?thesis
      using inv m wakes_someD(11) [OF w] by (simp add: sleep_inv_def wake_up(1))
  qed
qed

lemma hand_overs_mono: "rw_step thread_id N tw s s' \<Longrightarrow> hand_overs s \<le> hand_overs s'"
  by (erule rw_step.cases) simp_all

lemma sleep_inv_reachable:
  assumes "rw_reachable thread_id N False s" "N < 2 ^ 29" "hand_overs s < 2 ^ 32"
  shows "sleep_inv s"
  using assms
proof (induction rule: rw_reachable.induct)
  case start
  show ?case by (rule sleep_inv_init)
next
  case (step s s')
  then have "hand_overs s < 2 ^ 32" using hand_overs_mono [OF step.hyps(2)] by simp
  then show ?case
    using step rw_inv_reachable [OF step.hyps(1)] by (intro sleep_inv_step [OF step.hyps(2)]) auto
qed

text \<open>
  C5. No lost notification: with blocking, trying and timed shared requests, and blocking and trying
  exclusive requests, and fewer than \<open>2 ^ 32\<close> hand-overs, a thread sleeps only while another thread
  is in its critical section or on its way through the lock; the lock never comes to rest with
  a thread asleep.
\<close>

theorem rwlock_no_lost_wakeup:
  assumes "rw_reachable thread_id N False s" "N < 2 ^ 29" "hand_overs s < 2 ^ 32" "asleep (pcs s i)"
  shows "\<exists>j. running (pcs s j) \<or> pcs s j \<in> {Reading, Writing}"
proof -
  let ?v = "lock_word (rw s)"
  have inv: "rw_inv N ?v (pcs s)" and sl: "sleep_inv s"
    using rw_inv_reachable [OF assms(1,2)] sleep_inv_reachable [OF assms(1-3)] by blast+
  have active: ?thesis if "pcs s j \<noteq> Unlocked" "\<not> asleep (pcs s j)" for j
    using that by (auto simp: running_def)
  have by_class: ?thesis
    if "holds_read (pcs s j) \<or> reader_pending (pcs s j) \<or> retries (pcs s j) \<or> writer_bump (pcs s j) \<or> writer_wake (pcs s j)
      \<or> (\<exists>g. about_to_sleep (pcs s j) = Some g) \<or> (\<exists>q. pcs s j = Notify q)" for j
    using that by (intro active [of j]) auto
  have drain: ?thesis if d: "pcs s j = WaitForDrain WD_asleep" for j
  proof (cases "0 < rd ?v")
    case True
    then have "{k. holds_read (pcs s k)} \<noteq> {}" using inv unfolding rw_inv_def by (metis card.empty less_irrefl)
    then show ?thesis using by_class by blast
  next
    case False
    moreover have "drain_ok (rw s) (pcs s)" using sl by (simp add: sleep_inv_def)
    ultimately obtain k q where "pcs s k = Notify q" using d unfolding drain_ok_def by metis
    then show ?thesis using by_class by blast
  qed
  have owned: ?thesis if w: "wl ?v"
  proof -
    obtain j where j: "owns_word (pcs s j)" using w inv unfolding rw_inv_def by blast
    show ?thesis
    proof (cases "asleep (pcs s j)")
      case True
      then have "pcs s j = WaitForDrain WD_asleep" using j by auto
      then show ?thesis by (rule drain)
    qed (use j active in force)
  qed
  have gates: "wp ?v \<or> rp ?v \<longrightarrow> wl ?v" using inv unfolding rw_inv_def by blast
  consider "pcs s i = SharedSlow SS_asleep" | "pcs s i = ExclusiveSlow XS_asleep" | "pcs s i = WaitForDrain WD_asleep"
    using assms(4) by blast
  then show ?thesis
  proof cases
    case 1
    then have "rp ?v \<or> (\<exists>j. reader_pending (pcs s j))" using sl unfolding sleep_inv_def readers_ok_def by blast
    then show ?thesis using gates owned by_class by blast
  next
    case 2
    then have "wp ?v \<or> (\<exists>j. retries (pcs s j) \<or> writer_bump (pcs s j) \<or> writer_wake (pcs s j) \<or> (\<exists>g. about_to_sleep (pcs s j) = Some g))"
      using sl unfolding sleep_inv_def writers_ok_def writer_chance_def by blast
    then show ?thesis using gates owned by_class by blast
  qed (rule drain)
qed

definition reader_behind_writer :: "rw_event list" where
  "reader_behind_writer = [CallExclusive 0 Blocking, Step 0 False 0, Step 0 False 0, CallShared 1 Blocking] @ replicate 5 (Step 1 False 0)"

theorem rwlock_no_lost_wakeup_witness:
  "\<exists>s. rw_reachable of_nat 2 False s \<and> asleep (pcs s 1) \<and> (\<exists>j. running (pcs s j) \<or> pcs s j \<in> {Reading, Writing})"
proof -
  have run: "map_option (\<lambda>s. (hand_overs s, pcs s 1)) (foldl (rw_play 2) (Some rw_init) reader_behind_writer)
    = Some (0, SharedSlow SS_asleep)" by code_simp
  have "list_all untimed reader_behind_writer" by code_simp
  then obtain s where s: "rw_reachable of_nat 2 False s" "hand_overs s = 0" "pcs s 1 = SharedSlow SS_asleep"
    using rw_play_obtains [OF run, of False] by auto
  then show ?thesis using rwlock_no_lost_wakeup [OF s(1), of 1] by auto
qed

end
