(* ===== verification/Log_Entry_Type.thy ===== *)
theory Log_Entry_Type
  imports Noxu_Prelude
begin

text \<open>
  The types of log entries and their classification (\<open>crates/noxu-log/src/entry_type.rs\<close>).
\<close>

definition LOG_VERSION :: u8 where
  "LOG_VERSION = 2"

definition FIRST_LOG_VERSION :: u8 where
  "FIRST_LOG_VERSION = 1"

datatype LogEntryType =
    FileHeader
  | IN | BIN | BINDelta
  | InsertLN | UpdateLN | DeleteLN | InsertLNTxn | UpdateLNTxn | DeleteLNTxn
  | MapLN | NameLN | NameLNTxn | FileSummaryLN
  | TxnCommit | TxnAbort | TxnPrepare
  | CkptStart | CkptEnd
  | DbTree
  | Trace
  | Matchpoint
  | RollbackStart | RollbackEnd
  | INDeleteInfo | INDupDeleteInfo
  | OldBINDelta | OldLN | DelDupLN | DupCountLN
  | ImmutableFile

fun type_num :: "LogEntryType \<Rightarrow> u8" where
  "type_num FileHeader = 1"
| "type_num IN = 2"
| "type_num BIN = 3"
| "type_num BINDelta = 4"
| "type_num InsertLN = 10"
| "type_num UpdateLN = 11"
| "type_num DeleteLN = 12"
| "type_num InsertLNTxn = 13"
| "type_num UpdateLNTxn = 14"
| "type_num DeleteLNTxn = 15"
| "type_num MapLN = 20"
| "type_num NameLN = 21"
| "type_num NameLNTxn = 22"
| "type_num FileSummaryLN = 23"
| "type_num TxnCommit = 30"
| "type_num TxnAbort = 31"
| "type_num TxnPrepare = 32"
| "type_num CkptStart = 40"
| "type_num CkptEnd = 41"
| "type_num DbTree = 50"
| "type_num Trace = 60"
| "type_num Matchpoint = 61"
| "type_num RollbackStart = 62"
| "type_num RollbackEnd = 63"
| "type_num INDeleteInfo = 64"
| "type_num INDupDeleteInfo = 65"
| "type_num OldBINDelta = 66"
| "type_num OldLN = 67"
| "type_num DelDupLN = 68"
| "type_num DupCountLN = 69"
| "type_num ImmutableFile = 70"

definition from_type_num :: "u8 \<Rightarrow> LogEntryType option" where
  "from_type_num n =
     map_of
       [(1, FileHeader), (2, IN), (3, BIN), (4, BINDelta),
        (10, InsertLN), (11, UpdateLN), (12, DeleteLN), (13, InsertLNTxn), (14, UpdateLNTxn), (15, DeleteLNTxn),
        (20, MapLN), (21, NameLN), (22, NameLNTxn), (23, FileSummaryLN),
        (30, TxnCommit), (31, TxnAbort), (32, TxnPrepare),
        (40, CkptStart), (41, CkptEnd),
        (50, DbTree),
        (60, Trace), (61, Matchpoint), (62, RollbackStart), (63, RollbackEnd),
        (64, INDeleteInfo), (65, INDupDeleteInfo),
        (66, OldBINDelta), (67, OldLN), (68, DelDupLN), (69, DupCountLN), (70, ImmutableFile)] n"

definition is_valid :: "u8 \<Rightarrow> bool" where
  "is_valid n \<longleftrightarrow> from_type_num n \<noteq> None"

definition is_transactional :: "LogEntryType \<Rightarrow> bool" where
  "is_transactional t \<longleftrightarrow>
     t \<in> {InsertLNTxn, UpdateLNTxn, DeleteLNTxn, NameLNTxn, TxnCommit, TxnAbort, TxnPrepare}"

definition is_replication_possible :: "LogEntryType \<Rightarrow> bool" where
  "is_replication_possible t \<longleftrightarrow>
     t \<in> {InsertLN, UpdateLN, DeleteLN, InsertLNTxn, UpdateLNTxn, DeleteLNTxn, NameLN, NameLNTxn,
          TxnCommit, TxnAbort, Matchpoint, Trace}"

definition is_sync_point :: "LogEntryType \<Rightarrow> bool" where
  "is_sync_point t \<longleftrightarrow> t \<in> {TxnCommit, TxnAbort, Matchpoint}"

definition marshall_inside_latch :: "LogEntryType \<Rightarrow> bool" where
  "marshall_inside_latch t \<longleftrightarrow> t \<in> {MapLN, FileSummaryLN, TxnCommit, TxnAbort, DbTree}"

definition is_node_type :: "LogEntryType \<Rightarrow> bool" where
  "is_node_type t \<longleftrightarrow>
     t \<in> {IN, BIN, BINDelta, InsertLN, UpdateLN, DeleteLN, InsertLNTxn, UpdateLNTxn, DeleteLNTxn,
          MapLN, NameLN, NameLNTxn, FileSummaryLN}"

definition is_user_ln_type :: "LogEntryType \<Rightarrow> bool" where
  "is_user_ln_type t \<longleftrightarrow> t \<in> {InsertLN, UpdateLN, DeleteLN, InsertLNTxn, UpdateLNTxn, DeleteLNTxn}"

definition is_ln_type :: "LogEntryType \<Rightarrow> bool" where
  "is_ln_type t \<longleftrightarrow>
     t \<in> {InsertLN, UpdateLN, DeleteLN, InsertLNTxn, UpdateLNTxn, DeleteLNTxn, MapLN, NameLN, NameLNTxn,
          FileSummaryLN, OldLN, DelDupLN, DupCountLN}"

definition is_in_type :: "LogEntryType \<Rightarrow> bool" where
  "is_in_type t \<longleftrightarrow> t \<in> {IN, BIN, BINDelta}"

text \<open>The persistent numbers identify the types; a number without a type is rejected.\<close>

lemma from_type_num_type_num [simp]: "from_type_num (type_num t) = Some t"
  by (cases t) (simp_all add: from_type_num_def)

lemma type_num_from_type_num: "from_type_num n = Some t \<Longrightarrow> type_num t = n"
  by (auto simp: from_type_num_def split: if_splits)

lemma from_type_num_iff: "from_type_num n = Some t \<longleftrightarrow> type_num t = n"
  using type_num_from_type_num by auto

lemma sync_point_replicated: "is_sync_point t \<Longrightarrow> is_replication_possible t"
  by (auto simp: is_sync_point_def is_replication_possible_def)

lemma node_types: "is_node_type t \<longleftrightarrow> is_in_type t \<or> is_ln_type t \<and> t \<notin> {OldLN, DelDupLN, DupCountLN}"
  by (cases t) (auto simp: is_node_type_def is_in_type_def is_ln_type_def)

end
