(* ===== verification/Vlsn_Range.thy ===== *)
theory Vlsn_Range
  imports Machine_Bytes Log_Entry_Type
begin

text \<open>
  The range of sequence numbers that a node holds (\<open>crates/noxu-rep/src/vlsn/vlsn_range.rs\<close>): the
  first and last number and the last transaction end and synchronisation point.  The number 0
  stands for none.
\<close>

section \<open>Operations\<close>

record VlsnRange =
  range_first :: u64
  range_last :: u64
  commit_vlsn :: u64
  sync_vlsn :: u64

definition VlsnRange_new :: VlsnRange where
  "VlsnRange_new = \<lparr> range_first = 0, range_last = 0, commit_vlsn = 0, sync_vlsn = 0 \<rparr>"

definition with_range :: "u64 \<Rightarrow> u64 \<Rightarrow> panic + VlsnRange" where
  "with_range f l =
     (if f = 0 \<or> f \<le> l
      then Ok \<lparr> range_first = f, range_last = l, commit_vlsn = 0, sync_vlsn = 0 \<rparr>
      else Err Assertion)"

definition range_is_empty :: "VlsnRange \<Rightarrow> bool" where
  "range_is_empty r \<longleftrightarrow> range_first r = 0"

definition range_contains :: "VlsnRange \<Rightarrow> u64 \<Rightarrow> bool" where
  "range_contains r v \<longleftrightarrow> (if range_first r = 0 then False else range_first r \<le> v \<and> v \<le> range_last r)"

definition range_len :: "VlsnRange \<Rightarrow> panic + u64" where
  "range_len r =
     (if range_first r = 0 then Ok 0
      else and_then (sub_u (range_last r) (range_first r)) (\<lambda>d. add_u d 1))"

definition range_extend :: "VlsnRange \<Rightarrow> u64 \<Rightarrow> panic + VlsnRange" where
  "range_extend r v =
     (if v = 0 then Err Assertion
      else
        let r1 = (if range_first r = 0 \<or> v < range_first r then r\<lparr>range_first := v\<rparr> else r)
        in Ok (if range_last r1 < v then r1\<lparr>range_last := v\<rparr> else r1))"

definition update_commit :: "VlsnRange \<Rightarrow> u64 \<Rightarrow> VlsnRange" where
  "update_commit r v = (if commit_vlsn r < v then r\<lparr>commit_vlsn := v\<rparr> else r)"

definition update_sync :: "VlsnRange \<Rightarrow> u64 \<Rightarrow> VlsnRange" where
  "update_sync r v = (if sync_vlsn r < v then r\<lparr>sync_vlsn := v\<rparr> else r)"

definition update_for_new_mapping :: "VlsnRange \<Rightarrow> u64 \<Rightarrow> LogEntryType \<Rightarrow> panic + VlsnRange" where
  "update_for_new_mapping r v entry_type =
     and_then (range_extend r v) (\<lambda>r1.
     let r2 = (if is_sync_point entry_type \<and> sync_vlsn r1 < v then r1\<lparr>sync_vlsn := v\<rparr> else r1)
     in Ok (if entry_type \<in> {TxnCommit, TxnAbort} \<and> commit_vlsn r2 < v then r2\<lparr>commit_vlsn := v\<rparr> else r2))"

definition range_truncate_after :: "VlsnRange \<Rightarrow> u64 \<Rightarrow> VlsnRange" where
  "range_truncate_after r v =
     (if v = 0 \<or> 0 < range_first r \<and> v < range_first r
      then r\<lparr>range_first := 0, range_last := 0, commit_vlsn := 0, sync_vlsn := 0\<rparr>
      else if range_first r = 0 then r
      else
        let r1 = r\<lparr>range_last := v\<rparr>;
            r2 = (if v < commit_vlsn r1 then r1\<lparr>commit_vlsn := v\<rparr> else r1)
        in if v < sync_vlsn r2 then r2\<lparr>sync_vlsn := v\<rparr> else r2)"

definition merge_min :: "u64 \<Rightarrow> u64 \<Rightarrow> u64" where
  "merge_min a b = (if a = 0 then b else if b = 0 then a else min a b)"

definition merge_max :: "u64 \<Rightarrow> u64 \<Rightarrow> u64" where
  "merge_max a b = (if a = 0 then b else if b = 0 then a else max a b)"

definition range_merge :: "VlsnRange \<Rightarrow> VlsnRange \<Rightarrow> VlsnRange" where
  "range_merge r other =
     \<lparr> range_first = merge_min (range_first r) (range_first other),
       range_last = merge_max (range_last r) (range_last other),
       commit_vlsn = merge_max (commit_vlsn r) (commit_vlsn other),
       sync_vlsn = merge_max (sync_vlsn r) (sync_vlsn other) \<rparr>"

definition shorten_from_head :: "VlsnRange \<Rightarrow> u64 \<Rightarrow> panic + VlsnRange" where
  "shorten_from_head r delete_end =
     and_then
       (if delete_end = range_last r then Ok (0, 0)
        else and_then (add_u delete_end 1) (\<lambda>f. Ok (f, range_last r)))
       (\<lambda>(new_first, new_last).
         let new_txn_end = (if new_first \<noteq> 0 \<and> new_first < commit_vlsn r then commit_vlsn r else 0)
         in Ok \<lparr> range_first = new_first, range_last = new_last, commit_vlsn = new_txn_end,
              sync_vlsn = (if new_first = 0 then 0 else sync_vlsn r) \<rparr>)"

section \<open>Well-formed ranges\<close>

text \<open>
  An empty range has no other field set.  The last transaction end is at most the last
  synchronisation point, as every transaction end is one, and both are in or before the range.
\<close>

definition range_wf :: "VlsnRange \<Rightarrow> bool" where
  "range_wf r \<longleftrightarrow>
     (range_first r = 0 \<longrightarrow> r = VlsnRange_new) \<and> range_first r \<le> range_last r \<and>
     commit_vlsn r \<le> sync_vlsn r \<and> sync_vlsn r \<le> range_last r"

lemma range_wf_new [simp]: "range_wf VlsnRange_new"
  by (simp add: range_wf_def VlsnRange_new_def)

lemma range_contains_iff: "range_contains r v \<longleftrightarrow> range_first r \<noteq> 0 \<and> range_first r \<le> v \<and> v \<le> range_last r"
  by (simp add: range_contains_def)

lemma range_extend_Ok:
  assumes "range_wf r" "0 < v"
  shows "\<exists>r'. range_extend r v = Ok r' \<and> range_wf r' \<and>
    range_first r' = (if range_is_empty r then v else min (range_first r) v) \<and>
    range_last r' = max (range_last r) v \<and> commit_vlsn r' = commit_vlsn r \<and> sync_vlsn r' = sync_vlsn r"
  using assms
  by (auto simp: range_extend_def range_wf_def range_is_empty_def VlsnRange_new_def min_def max_def Let_def
      word_neq_0_conv not_less not_le)

lemma update_for_new_mapping_Ok:
  assumes "range_wf r" "0 < v"
  shows "\<exists>r'. update_for_new_mapping r v et = Ok r' \<and> range_wf r' \<and>
    range_first r' = (if range_is_empty r then v else min (range_first r) v) \<and>
    range_last r' = max (range_last r) v \<and>
    sync_vlsn r' = (if is_sync_point et then max (sync_vlsn r) v else sync_vlsn r) \<and>
    commit_vlsn r' = (if et \<in> {TxnCommit, TxnAbort} then max (commit_vlsn r) v else commit_vlsn r)"
proof -
  obtain r1 where r1: "range_extend r v = Ok r1" "range_wf r1"
    "range_first r1 = (if range_is_empty r then v else min (range_first r) v)"
    "range_last r1 = max (range_last r) v" "commit_vlsn r1 = commit_vlsn r" "sync_vlsn r1 = sync_vlsn r"
    using range_extend_Ok [OF assms] by blast
  have "v \<le> range_last r1" "range_first r1 \<noteq> 0" "commit_vlsn r1 \<le> sync_vlsn r1" "sync_vlsn r1 \<le> range_last r1"
    "range_first r1 \<le> range_last r1"
    using r1 assms by (auto simp: range_wf_def range_is_empty_def min_def)
  then show ?thesis
    using r1(1,3-6)
    by (cases et) (auto simp: update_for_new_mapping_def is_sync_point_def range_wf_def Let_def max_def
        not_less intro: order_trans less_imp_le)
qed

lemma range_truncate_after_wf:
  assumes "range_wf r" "v \<le> range_last r"
  shows "range_wf (range_truncate_after r v) \<and>
    (\<forall>w. range_contains (range_truncate_after r v) w \<longleftrightarrow> range_contains r w \<and> w \<le> v)"
proof -
  consider "v = 0 \<or> 0 < range_first r \<and> v < range_first r" | "range_first r = 0"
    | "v \<noteq> 0" "range_first r \<noteq> 0" "range_first r \<le> v"
    using linorder_not_le word_neq_0_conv by blast
  then show ?thesis
  proof cases
    case 1
    then show ?thesis by (auto simp: range_truncate_after_def range_wf_def range_contains_def VlsnRange_new_def)
  next
    case 2
    then have r: "r = VlsnRange_new" using assms by (simp add: range_wf_def)
    then have "range_truncate_after r v = r" by (simp add: range_truncate_after_def VlsnRange_new_def)
    with assms 2 show ?thesis by (simp add: range_contains_def)
  next
    case 3
    then have "range_truncate_after r v = r\<lparr>range_last := v, commit_vlsn := min (commit_vlsn r) v, sync_vlsn := min (sync_vlsn r) v\<rparr>"
      by (auto simp: range_truncate_after_def Let_def min_def not_less)
    then show ?thesis
      using 3 assms by (auto simp: range_wf_def range_contains_def min_def)
  qed
qed

lemma shorten_from_head_Ok:
  assumes "range_wf r" "range_first r \<le> d" "d \<le> range_last r" "range_first r \<noteq> 0"
  shows "\<exists>r'. shorten_from_head r d = Ok r' \<and> range_wf r' \<and>
    (\<forall>w. range_contains r' w \<longleftrightarrow> range_contains r w \<and> d < w) \<and>
    (if d = range_last r then range_first r' = 0 else range_first r' = d + 1 \<and> range_last r' = range_last r)"
proof (cases "d = range_last r")
  case True
  then show ?thesis
    by (auto simp: shorten_from_head_def range_wf_def VlsnRange_new_def range_contains_def)
next
  case False
  then have lt: "d < range_last r" using assms by simp
  then have small: "unat d + 1 < 2 ^ 64"
    using unat_bound [of "range_last r"] by (simp add: word_less_nat_alt)
  then have add: "add_u d 1 = Ok (d + 1)" and suc: "unat (d + 1) = unat d + 1"
    using add_u_fits [of d 1] by simp_all
  then have up: "d + 1 \<noteq> 0" by (metis add_is_0 one_neq_zero unat_0)
  have le: "d + 1 \<le> w \<longleftrightarrow> d < w" for w using suc by (auto simp: word_le_nat_alt word_less_nat_alt)
  define r' where "r' = \<lparr> range_first = d + 1, range_last = range_last r,
      commit_vlsn = (if d + 1 < commit_vlsn r then commit_vlsn r else 0), sync_vlsn = sync_vlsn r \<rparr>"
  then have r': "range_first r' = d + 1" "range_last r' = range_last r" "sync_vlsn r' = sync_vlsn r"
    "commit_vlsn r' \<le> commit_vlsn r" by simp_all
  have "shorten_from_head r d = Ok r'" using False up add by (simp add: shorten_from_head_def r'_def)
  moreover have "range_wf r'"
    using assms(1) lt up le order_trans [OF r'(4)] unfolding range_wf_def r'(1-3) by blast
  moreover have "range_contains r' w \<longleftrightarrow> range_contains r w \<and> d < w" for w
    using assms(2,4) up unfolding range_contains_iff r'(1,2) le by (meson less_imp_le order_trans)
  ultimately show ?thesis using False r'(1,2) by auto
qed

lemma merge_max_eq: "merge_max a b = max a b"
  by (simp add: merge_max_def max_def)

lemma range_merge_wf:
  assumes "range_wf r" "range_wf other"
  shows "range_wf (range_merge r other) \<and>
    (\<forall>w. range_contains r w \<or> range_contains other w \<longrightarrow> range_contains (range_merge r other) w)"
proof -
  consider "r = VlsnRange_new" | "other = VlsnRange_new" | "range_first r \<noteq> 0" "range_first other \<noteq> 0"
    using assms unfolding range_wf_def by blast
  then show ?thesis
  proof cases
    case 1
    then have "range_merge r other = other"
      by (simp add: range_merge_def VlsnRange_new_def merge_min_def merge_max_def)
    with assms(2) 1 show ?thesis by (simp add: range_contains_def VlsnRange_new_def)
  next
    case 2
    then have "range_merge r other = r"
      by (simp add: range_merge_def VlsnRange_new_def merge_min_def merge_max_def)
    with assms(1) 2 show ?thesis by (simp add: range_contains_def VlsnRange_new_def)
  next
    case 3
    then have m: "range_first (range_merge r other) = min (range_first r) (range_first other)"
      "range_last (range_merge r other) = max (range_last r) (range_last other)"
      "commit_vlsn (range_merge r other) = max (commit_vlsn r) (commit_vlsn other)"
      "sync_vlsn (range_merge r other) = max (sync_vlsn r) (sync_vlsn other)"
      by (simp_all add: range_merge_def merge_max_eq merge_min_def)
    have "min (range_first r) (range_first other) \<noteq> 0" using 3 by (simp add: min_def)
    with assms show ?thesis
      unfolding range_wf_def range_contains_iff m by (auto intro: max.mono min.coboundedI1 max.coboundedI1
          min.coboundedI2 max.coboundedI2 simp del: min_def max_def)
  qed
qed

lemma card_word_interval: "card {a..b} = unat b + 1 - unat (a :: 'a::len word)"
proof -
  have "unat ` {a..b} = {unat a..unat b}"
  proof (intro equalityI subsetI)
    fix n assume "n \<in> {unat a..unat b}"
    then have "n < 2 ^ LENGTH('a)" using unat_bound [of b] by (meson atLeastAtMost_iff order_le_less_trans)
    then have "unat (of_nat n :: 'a word) = n" by (simp add: unat_of_nat)
    then show "n \<in> unat ` {a..b}"
      using \<open>n \<in> {unat a..unat b}\<close> by (intro image_eqI [of _ _ "of_nat n"]) (auto simp: word_le_nat_alt)
  qed (auto simp: word_le_nat_alt)
  moreover have "inj_on unat {a..b}" by (simp add: inj_on_def word_unat_eq_iff)
  ultimately show ?thesis by (metis card_atLeastAtMost card_image Suc_eq_plus1)
qed

lemma range_len_wf:
  assumes "range_wf r"
  shows "\<exists>n. range_len r = Ok n \<and> unat n = card {w. range_contains r w}"
proof (cases "range_first r = 0")
  case True
  then show ?thesis by (simp add: range_len_def range_contains_def)
next
  case False
  let ?f = "range_first r" and ?l = "range_last r"
  have le: "?f \<le> ?l" using assms by (simp add: range_wf_def)
  have f: "0 < unat ?f" using False by (simp add: unat_gt_0)
  have n: "unat (?l - ?f) = unat ?l - unat ?f" using le by (rule unat_sub)
  then have fits: "unat (?l - ?f) + 1 < 2 ^ 64" using f le unat_bound [of ?l] by (simp add: word_le_nat_alt)
  then have add: "add_u (?l - ?f) 1 = Ok (?l - ?f + 1)" "unat (?l - ?f + 1) = unat (?l - ?f) + 1"
    using add_u_fits [of "?l - ?f" 1] by simp_all
  then have "range_len r = Ok (?l - ?f + 1)" using False le by (simp add: range_len_def sub_u_def)
  moreover have "{w. range_contains r w} = {?f..?l}" using False by (auto simp: range_contains_def)
  ultimately show ?thesis using n le add by (simp add: card_word_interval word_le_nat_alt)
qed

lemma range_contains_extended:
  assumes "range_first r' = (if range_is_empty r then v else min (range_first r) v)"
    "range_last r' = max (range_last r) v" "0 < v"
  shows "range_contains r' v \<and> (range_contains r w \<longrightarrow> range_contains r' w)"
proof -
  have "range_first r' \<noteq> 0" using assms(1,3) by (auto simp: range_is_empty_def min_def)
  then show ?thesis
    using assms(1,2) unfolding range_contains_iff range_is_empty_def
    by (auto intro: min.coboundedI1 max.coboundedI1)
qed

lemma range_truncate_after_beyond:
  assumes "range_wf r" "\<not> range_is_empty r" "range_last r < v"
  shows "range_contains (range_truncate_after r v) v"
proof -
  have f: "range_first r \<noteq> 0" "range_first r \<le> v" "v \<noteq> 0"
    using assms by (auto simp: range_wf_def range_is_empty_def)
  then have "range_first (range_truncate_after r v) = range_first r" "range_last (range_truncate_after r v) = v"
    by (auto simp: range_truncate_after_def Let_def)
  with f show ?thesis by (simp add: range_contains_iff)
qed

lemma shorten_from_head_beyond:
  assumes "range_last r < d" "d \<noteq> -1"
  shows "\<exists>r'. shorten_from_head r d = Ok r' \<and> \<not> range_wf r' \<and> range_len r' = Err Overflow"
proof -
  have "unat (-1 :: u64) = 2 ^ 64 - 1" by (simp add: unsigned_minus_1_eq_mask mask_eq_exp_minus_1)
  then have "unat d \<noteq> 2 ^ 64 - 1" using assms(2) by (metis word_unat_eq_iff)
  then have "unat d + 1 < 2 ^ 64" using unat_bound [of d] by simp
  then have add: "add_u d 1 = Ok (d + 1)" and suc: "unat (d + 1) = unat d + 1"
    using add_u_fits [of d 1] by simp_all
  have up: "d + 1 \<noteq> 0" using suc by (metis add_is_0 one_neq_zero unat_0)
  have gt: "\<not> d + 1 \<le> range_last r" using assms(1) suc by (simp add: word_le_nat_alt word_less_nat_alt)
  have "d \<noteq> range_last r" using assms(1) by simp
  then obtain r' where "shorten_from_head r d = Ok r'" "range_first r' = d + 1" "range_last r' = range_last r"
    using add by (simp add: shorten_from_head_def)
  then show ?thesis using up gt by (auto simp: range_wf_def range_len_def sub_u_def)
qed



end
