(* ===== verification/Vlsn_Bucket.thy ===== *)
theory Vlsn_Bucket
  imports Machine_Bytes
begin

text \<open>
  A bucket of the index from sequence numbers to log positions
  (\<open>crates/noxu-rep/src/vlsn/vlsn_bucket.rs\<close>): the positions of every \<open>stride\<close>-th number from the
  first one on, and of the last number.  Subtractions of numbers stand behind the guards of the
  code and do not wrap; panics that callers can reach are the \<open>Err\<close> of a result.
\<close>

section \<open>Operations\<close>

type_synonym lsn = "u32 \<times> u32"

record VlsnBucket =
  first_vlsn :: u64
  last_vlsn :: u64
  stride :: u32
  offsets :: "lsn list"
  last_lsn :: "lsn option"

definition NO_OFFSET :: lsn where
  "NO_OFFSET = (0, 0)"

definition VlsnBucket_new :: "u64 \<Rightarrow> u32 \<Rightarrow> panic + VlsnBucket" where
  "VlsnBucket_new f s =
     (if f = 0 \<or> s = 0 then Err Assertion
      else Ok \<lparr> first_vlsn = f, last_vlsn = f, stride = s, offsets = [NO_OFFSET], last_lsn = None \<rparr>)"

definition bucket_is_empty :: "VlsnBucket \<Rightarrow> bool" where
  "bucket_is_empty b \<longleftrightarrow> last_lsn b = None \<and> list_all (\<lambda>x. x = NO_OFFSET) (offsets b)"

definition stride64 :: "VlsnBucket \<Rightarrow> u64" where
  "stride64 b = ucast (stride b)"

definition is_modulo :: "VlsnBucket \<Rightarrow> u64 \<Rightarrow> bool" where
  "is_modulo b v \<longleftrightarrow> (v - first_vlsn b) mod stride64 b = 0"

definition get_index :: "VlsnBucket \<Rightarrow> u64 \<Rightarrow> nat" where
  "get_index b v = unat ((v - first_vlsn b) div stride64 b)"

definition bucket_put :: "u64 \<Rightarrow> lsn \<Rightarrow> VlsnBucket \<Rightarrow> VlsnBucket \<times> bool" where
  "bucket_put v p b =
     (if v < first_vlsn b then (b, False)
      else
        let b1 =
              (if is_modulo b v then
                 let index = get_index b v; list_len = length (offsets b)
                 in if index < list_len then b\<lparr>offsets := (offsets b)[index := p]\<rparr>
                    else if index = list_len then b\<lparr>offsets := offsets b @ [p]\<rparr>
                    else b\<lparr>offsets := (offsets b @ replicate (index - list_len) NO_OFFSET) @ [p]\<rparr>
               else b)
        in (if last_vlsn b1 \<le> v then b1\<lparr>last_vlsn := v, last_lsn := Some p\<rparr> else b1, True))"

definition bucket_owns :: "VlsnBucket \<Rightarrow> u64 \<Rightarrow> bool" where
  "bucket_owns b v \<longleftrightarrow> (if v = 0 \<or> first_vlsn b = 0 then False else first_vlsn b \<le> v \<and> v \<le> last_vlsn b)"

text \<open>The loop of \<open>get_lsn\<close> over the indices \<open>i, \<dots>, 0\<close>.\<close>

fun lte_loop :: "lsn list \<Rightarrow> nat \<Rightarrow> lsn option" where
  "lte_loop xs 0 = (if xs ! 0 \<noteq> NO_OFFSET then Some (xs ! 0) else None)"
| "lte_loop xs (Suc i) = (if xs ! Suc i \<noteq> NO_OFFSET then Some (xs ! Suc i) else lte_loop xs i)"

definition bucket_get_lsn :: "VlsnBucket \<Rightarrow> u64 \<Rightarrow> panic + lsn option" where
  "bucket_get_lsn b v =
     (if \<not> bucket_owns b v then Ok None
      else if v = last_vlsn b then Ok (last_lsn b)
      else if is_modulo b v \<and> get_index b v < length (offsets b) \<and> offsets b ! get_index b v \<noteq> NO_OFFSET
      then Ok (Some (offsets b ! get_index b v))
      else
        let index = unat ((v - first_vlsn b) div stride64 b)
        in if index \<ge> length (offsets b)
           then if length (offsets b) = 0 then Err Overflow
                else Ok (lte_loop (offsets b) (length (offsets b) - 1))
           else Ok (lte_loop (offsets b) index))"

text \<open>The loop of \<open>append_entries\<close>, from the slot \<open>i\<close> on.\<close>

fun append_loop :: "VlsnBucket \<Rightarrow> nat \<Rightarrow> lsn list \<Rightarrow> (u64 \<times> lsn) list" where
  "append_loop b i [] = []"
| "append_loop b i (p # ps) =
     (let v = first_vlsn b + of_nat i * stride64 b
      in if p \<noteq> NO_OFFSET \<and> v \<le> last_vlsn b then (v, p) # append_loop b (i + 1) ps
         else append_loop b (i + 1) ps)"

definition append_entries :: "VlsnBucket \<Rightarrow> (u64 \<times> lsn) list" where
  "append_entries b =
     append_loop b 0 (offsets b) @
     (case last_lsn b of None \<Rightarrow> []
      | Some p \<Rightarrow> if (last_vlsn b - first_vlsn b) mod stride64 b \<noteq> 0 then [(last_vlsn b, p)] else [])"

definition remove_from_head :: "u64 \<Rightarrow> VlsnBucket \<Rightarrow> VlsnBucket" where
  "remove_from_head new_first b =
     (if new_first \<le> first_vlsn b then b
      else if last_vlsn b < new_first
      then b\<lparr>first_vlsn := new_first, last_vlsn := new_first, offsets := [NO_OFFSET], last_lsn := None\<rparr>
      else
        let grid_first = first_vlsn b + (new_first - first_vlsn b) div stride64 b * stride64 b;
            drop_n = unat ((grid_first - first_vlsn b) div stride64 b);
            offs = (if 0 < drop_n \<and> drop_n < length (offsets b) then drop drop_n (offsets b)
                    else if length (offsets b) \<le> drop_n then [NO_OFFSET]
                    else offsets b)
        in b\<lparr>offsets := offs, first_vlsn := grid_first\<rparr>)"

definition bucket_get_exact_lsn :: "VlsnBucket \<Rightarrow> u64 \<Rightarrow> panic + lsn option" where
  "bucket_get_exact_lsn b v =
     (if \<not> bucket_owns b v then Err Assertion
      else if v = last_vlsn b then Ok (last_lsn b)
      else if \<not> is_modulo b v then Ok None
      else if get_index b v \<ge> length (offsets b) then Ok None
      else if offsets b ! get_index b v = NO_OFFSET then Ok None
      else Ok (Some (offsets b ! get_index b v)))"

definition get_lte_lsn :: "VlsnBucket \<Rightarrow> u64 \<Rightarrow> panic + lsn option" where
  "get_lte_lsn = bucket_get_lsn"

definition div_ceil :: "u64 \<Rightarrow> u64 \<Rightarrow> u64" where
  "div_ceil a b = (if a mod b > 0 then a div b + 1 else a div b)"

text \<open>The loop of \<open>get_gte_lsn\<close>.\<close>

function gte_loop :: "lsn list \<Rightarrow> nat \<Rightarrow> nat" where
  "gte_loop xs use_index =
     (if use_index < length xs
      then if xs ! use_index \<noteq> NO_OFFSET then use_index else gte_loop xs (use_index + 1)
      else use_index)"
  by pat_completeness auto

termination gte_loop
  by (relation "measure (\<lambda>(xs, i). length xs - i)") auto

declare gte_loop.simps [simp del]

definition bucket_get_gte_lsn :: "VlsnBucket \<Rightarrow> u64 \<Rightarrow> lsn option" where
  "bucket_get_gte_lsn b v =
     (if \<not> bucket_owns b v then None
      else if v = last_vlsn b then last_lsn b
      else
        let index = (if v \<le> first_vlsn b then 0 else unat (div_ceil (v - first_vlsn b) (stride64 b)))
        in if index \<ge> length (offsets b) then last_lsn b
           else
             let use_index = gte_loop (offsets b) index
             in if use_index \<ge> length (offsets b) \<or> offsets b ! use_index = NO_OFFSET then last_lsn b
                else Some (offsets b ! use_index))"

definition get_last_lsn :: "VlsnBucket \<Rightarrow> lsn option" where
  "get_last_lsn b = last_lsn b"

text \<open>The loop of \<open>find_populated_index_back\<close>; \<open>None\<close> when no slot is populated.\<close>

fun back_loop :: "lsn list \<Rightarrow> nat \<Rightarrow> nat option" where
  "back_loop xs 0 = (if xs ! 0 \<noteq> NO_OFFSET then Some 0 else None)"
| "back_loop xs (Suc i) = (if xs ! Suc i \<noteq> NO_OFFSET then Some (Suc i) else back_loop xs i)"

definition find_populated_index_back :: "VlsnBucket \<Rightarrow> nat \<Rightarrow> nat" where
  "find_populated_index_back b start_index =
     (case back_loop (offsets b) start_index of Some i \<Rightarrow> i | None \<Rightarrow> start_index)"

text \<open>The slots that \<open>remove_from_tail\<close> keeps.\<close>

definition tail_offsets :: "VlsnBucket \<Rightarrow> nat \<Rightarrow> bool \<Rightarrow> panic + lsn list" where
  "tail_offsets b delete_index capped =
     (if delete_index < length (offsets b) then
        let last_populated = find_populated_index_back b (delete_index - 1)
        in Ok (take (if \<not> capped \<and> last_populated \<noteq> delete_index - 1 then last_populated + 1 else delete_index)
                 (offsets b))
      else if capped then Ok (offsets b)
      else if offsets b = [] then Err Overflow
      else
        let last_index = length (offsets b) - 1;
            last_populated = find_populated_index_back b last_index
        in Ok (if last_populated < last_index then take (last_populated + 1) (offsets b) else offsets b))"

definition remove_from_tail :: "u64 \<Rightarrow> lsn option \<Rightarrow> VlsnBucket \<Rightarrow> panic + VlsnBucket" where
  "remove_from_tail start_of_delete prev_lsn b =
     (if bucket_is_empty b then Ok b
      else if last_vlsn b < start_of_delete then Ok b
      else if start_of_delete \<le> first_vlsn b
      then Ok (b\<lparr>last_vlsn := first_vlsn b, last_lsn := None, offsets := []\<rparr>)
      else
        and_then
          (tail_offsets b (unat (div_ceil (start_of_delete - first_vlsn b) (stride64 b))) (prev_lsn \<noteq> None))
          (\<lambda>offs.
            let b1 = b\<lparr>offsets := offs\<rparr>
            in case prev_lsn of
                 None \<Rightarrow>
                   if last offs = NO_OFFSET then Err Assertion
                   else Ok (b1\<lparr>last_vlsn := of_nat (length offs - 1) * stride64 b + first_vlsn b,
                               last_lsn := Some (last offs)\<rparr>)
               | Some prev \<Rightarrow> Ok (b1\<lparr>last_vlsn := start_of_delete - 1, last_lsn := Some prev\<rparr>)))"

section \<open>Arithmetic of slots\<close>

definition slot :: "VlsnBucket \<Rightarrow> nat \<Rightarrow> nat" where
  "slot b i = unat (first_vlsn b) + i * unat (stride b)"

lemma unat_stride64 [simp]: "unat (stride64 b) = unat (stride b)"
  by (simp add: stride64_def unsigned_ucast_eq take_bit_nat_eq_self unat_bound order_less_trans [OF unat_bound])

lemma unat_index:
  "first_vlsn b \<le> v \<Longrightarrow>
   unat ((v - first_vlsn b) div stride64 b) = (unat v - unat (first_vlsn b)) div unat (stride b)"
  by (simp add: unat_div_distrib unat_sub)

lemma is_modulo_iff:
  assumes "first_vlsn b \<le> v"
  shows "is_modulo b v \<longleftrightarrow> slot b (get_index b v) = unat v"
proof -
  have "is_modulo b v \<longleftrightarrow> (unat v - unat (first_vlsn b)) mod unat (stride b) = 0"
    using assms by (simp add: is_modulo_def unat_sub unat_mod_distrib flip: unat_eq_zero)
  also have "\<dots> \<longleftrightarrow> slot b (get_index b v) = unat v"
    using assms div_mult_mod_eq [of "unat v - unat (first_vlsn b)" "unat (stride b)"]
    unfolding slot_def get_index_def unat_index [OF assms] word_le_nat_alt by linarith
  finally show ?thesis .
qed

lemma slot_below:
  assumes "first_vlsn b \<le> v" "0 < stride b"
  shows "slot b (get_index b v) \<le> unat v" "unat v - slot b (get_index b v) < unat (stride b)"
proof -
  let ?d = "unat v - unat (first_vlsn b)" and ?s = "unat (stride b)"
  have "?d div ?s * ?s + ?d mod ?s = ?d" "?d mod ?s < ?s"
    using assms(2) by (simp_all add: word_less_nat_alt)
  then show "slot b (get_index b v) \<le> unat v" "unat v - slot b (get_index b v) < unat (stride b)"
    using assms(1) unfolding slot_def get_index_def unat_index [OF assms(1)] word_le_nat_alt by linarith+
qed

lemma get_index_slot:
  assumes "slot b i = unat v" "first_vlsn b \<le> v" "0 < stride b"
  shows "get_index b v = i"
  using assms(3) unfolding get_index_def unat_index [OF assms(2)] assms(1) [symmetric]
  by (simp add: slot_def word_less_nat_alt)

lemma slot_less_iff: "0 < stride b \<Longrightarrow> slot b i < slot b j \<longleftrightarrow> i < j"
  by (simp add: slot_def word_less_nat_alt)

lemma slot_eq_iff: "0 < stride b \<Longrightarrow> slot b i = slot b j \<longleftrightarrow> i = j"
  by (simp add: slot_def word_less_nat_alt)

lemma unat_div_ceil:
  assumes "0 < unat b"
  shows "unat (div_ceil a b) = (if unat a mod unat b > 0 then unat a div unat b + 1 else unat a div unat b)"
proof (cases "unat a mod unat b > 0")
  case True
  then have "unat b \<noteq> 1" by auto
  then have "unat a div unat b \<le> unat a div 2" using assms by (intro div_le_mono2) auto
  then have "unat a div unat b + 1 < 2 ^ 64" using unat_bound [of a] by simp
  then have "unat (a div b + 1) = unat a div unat b + 1"
    using add_u_fits [of "a div b" 1] by (simp add: unat_div_distrib)
  moreover have "a mod b > 0" using True by (simp add: word_less_nat_alt unat_mod_distrib)
  ultimately show ?thesis using True by (simp add: div_ceil_def)
next
  case False
  then have "\<not> a mod b > 0" by (simp add: word_less_nat_alt unat_mod_distrib)
  with False show ?thesis by (simp add: div_ceil_def unat_div_distrib)
qed

lemma slot_above:
  assumes "first_vlsn b < v" "0 < stride b"
  shows "unat v \<le> slot b (unat (div_ceil (v - first_vlsn b) (stride64 b)))"
    "slot b (unat (div_ceil (v - first_vlsn b) (stride64 b))) - unat v < unat (stride b)"
proof -
  let ?d = "unat v - unat (first_vlsn b)" and ?s = "unat (stride b)"
  have s: "0 < ?s" using assms(2) by (simp add: word_less_nat_alt)
  have d: "unat (v - first_vlsn b) = ?d" using assms(1) by (simp add: unat_sub)
  have eq: "?d div ?s * ?s + ?d mod ?s = ?d" "?d mod ?s < ?s" using s by simp_all
  have c: "slot b (unat (div_ceil (v - first_vlsn b) (stride64 b))) =
      unat (first_vlsn b) + (if ?d mod ?s > 0 then ?d div ?s * ?s + ?s else ?d div ?s * ?s)"
    using s by (simp add: slot_def unat_div_ceil d)
  have lt: "unat (first_vlsn b) < unat v" using assms(1) by (simp add: word_less_nat_alt)
  show "unat v \<le> slot b (unat (div_ceil (v - first_vlsn b) (stride64 b)))"
    using eq lt unfolding c by (split if_split) linarith
  show "slot b (unat (div_ceil (v - first_vlsn b) (stride64 b))) - unat v < unat (stride b)"
    using eq lt s unfolding c by (split if_split) linarith
qed

lemma unat_of_slot: "slot b i < n \<Longrightarrow> n \<le> 2 ^ 64 \<Longrightarrow> unat (of_nat (slot b i) :: u64) = slot b i"
  by (simp add: unat_of_nat)

section \<open>What a bucket knows\<close>

text \<open>
  \<open>H\<close> maps the numbers registered so far to their positions and \<open>n\<close> is the next number of the
  stream.  A bucket covers the history when its slots below \<open>n\<close> are the positions of their
  numbers; slots and the last number at or above \<open>n\<close> may be left over from a rollback.
\<close>

definition bucket_covers :: "(u64 \<rightharpoonup> lsn) \<Rightarrow> nat \<Rightarrow> VlsnBucket \<Rightarrow> bool" where
  "bucket_covers H n b \<longleftrightarrow>
     0 < stride b \<and> 0 < first_vlsn b \<and> unat (first_vlsn b) < n \<and> n \<le> unat (last_vlsn b) + 1 \<and>
     (\<forall>i. slot b i < n \<longrightarrow>
        i < length (offsets b) \<and> offsets b ! i \<noteq> NO_OFFSET \<and> H (of_nat (slot b i)) = Some (offsets b ! i)) \<and>
     (unat (last_vlsn b) + 1 = n \<longrightarrow> last_lsn b \<noteq> None \<and> H (last_vlsn b) = last_lsn b)"

text \<open>Nothing is left over.\<close>

definition bucket_exact :: "nat \<Rightarrow> VlsnBucket \<Rightarrow> bool" where
  "bucket_exact n b \<longleftrightarrow> unat (last_vlsn b) + 1 = n \<and> (\<forall>i < length (offsets b). slot b i < n)"

lemma covers_bound: "bucket_covers H n b \<Longrightarrow> n \<le> 2 ^ 64"
  using unat_bound [of "last_vlsn b"] by (simp add: bucket_covers_def)

lemma covers_slot:
  assumes "bucket_covers H n b" "slot b i < n"
  shows "i < length (offsets b)" "offsets b ! i \<noteq> NO_OFFSET" "H (of_nat (slot b i)) = Some (offsets b ! i)"
    "unat (of_nat (slot b i) :: u64) = slot b i"
  using assms unat_of_slot [OF assms(2) covers_bound [OF assms(1)]] unfolding bucket_covers_def by blast+

lemma covers_owns:
  assumes "bucket_covers H n b" "first_vlsn b \<le> v" "unat v < n"
  shows "bucket_owns b v"
proof -
  have "v \<le> last_vlsn b" using assms unfolding bucket_covers_def word_le_nat_alt by linarith
  moreover have "0 < first_vlsn b" using assms(1) unfolding bucket_covers_def by blast
  ultimately show ?thesis using assms(2) by (auto simp: bucket_owns_def)
qed

lemma covers_last:
  assumes "bucket_covers H n b" "unat (last_vlsn b) < n"
  shows "unat (last_vlsn b) + 1 = n" "\<exists>l. last_lsn b = Some l \<and> H (last_vlsn b) = Some l"
proof -
  show n: "unat (last_vlsn b) + 1 = n" using assms unfolding bucket_covers_def by linarith
  have "last_lsn b \<noteq> None \<and> H (last_vlsn b) = last_lsn b" using assms(1) n unfolding bucket_covers_def by blast
  then show "\<exists>l. last_lsn b = Some l \<and> H (last_vlsn b) = Some l" by auto
qed

subsection \<open>Lookups\<close>

lemma bucket_get_lsn_covers:
  assumes "bucket_covers H n b" "first_vlsn b \<le> v" "unat v < n"
  shows "\<exists>l v'. bucket_get_lsn b v = Ok (Some l) \<and> H v' = Some l \<and> v' \<le> v \<and>
    unat v - unat v' < unat (stride b)"
proof (cases "v = last_vlsn b")
  case True
  then obtain l where "last_lsn b = Some l" "H v = Some l" using covers_last [OF assms(1)] assms(3) by blast
  moreover have "0 < unat (stride b)" using assms(1) by (simp add: bucket_covers_def word_less_nat_alt)
  ultimately show ?thesis using True covers_owns [OF assms] by (auto simp: bucket_get_lsn_def)
next
  case False
  have s: "0 < stride b" using assms(1) by (simp add: bucket_covers_def)
  let ?i = "get_index b v"
  note below = slot_below [OF assms(2) s]
  have "slot b ?i < n" using below(1) assms(3) by simp
  note at = covers_slot [OF assms(1) this]
  have "lte_loop (offsets b) ?i = Some (offsets b ! ?i)" using at(2) by (cases ?i) auto
  then have "bucket_get_lsn b v = Ok (Some (offsets b ! ?i))"
    using False at(1,2) covers_owns [OF assms] unfolding bucket_get_lsn_def get_index_def [symmetric] by simp
  moreover have "of_nat (slot b ?i) \<le> v" "unat v - unat (of_nat (slot b ?i) :: u64) < unat (stride b)"
    using below at(4) by (simp_all add: word_le_nat_alt)
  ultimately show ?thesis using at(3) by blast
qed

lemma bucket_get_exact_lsn_covers:
  assumes "bucket_covers H n b" "first_vlsn b \<le> v" "unat v < n"
  shows "\<exists>r. bucket_get_exact_lsn b v = Ok r \<and> (r \<noteq> None \<longrightarrow> H v = r) \<and> (is_modulo b v \<or> v = last_vlsn b \<longrightarrow> r \<noteq> None)"
proof (cases "v = last_vlsn b")
  case True
  then obtain l where "last_lsn b = Some l" "H v = Some l" using covers_last [OF assms(1)] assms(3) by blast
  then show ?thesis using True covers_owns [OF assms] by (simp add: bucket_get_exact_lsn_def)
next
  case False
  show ?thesis
  proof (cases "is_modulo b v")
    case True
    then have i: "slot b (get_index b v) = unat v" using is_modulo_iff [OF assms(2)] by blast
    then have "slot b (get_index b v) < n" using assms(3) by simp
    note at = covers_slot [OF assms(1) this]
    have "bucket_get_exact_lsn b v = Ok (Some (offsets b ! get_index b v))"
      using False True at(1,2) covers_owns [OF assms] by (simp add: bucket_get_exact_lsn_def)
    with at(3) show ?thesis unfolding i by simp
  next
    case neither: False
    then show ?thesis using False covers_owns [OF assms] by (simp add: bucket_get_exact_lsn_def)
  qed
qed

lemma bucket_get_gte_lsn_exact:
  assumes "bucket_covers H n b" "bucket_exact n b" "first_vlsn b \<le> v" "unat v < n"
  shows "\<exists>l v'. bucket_get_gte_lsn b v = Some l \<and> H v' = Some l \<and> v \<le> v' \<and>
    unat v' - unat v < unat (stride b)"
proof -
  have s: "0 < stride b" "0 < unat (stride b)" using assms(1) by (simp_all add: bucket_covers_def word_less_nat_alt)
  have n: "unat (last_vlsn b) + 1 = n" using assms(2) by (simp add: bucket_exact_def)
  then obtain l where l: "last_lsn b = Some l" "H (last_vlsn b) = Some l"
    using covers_last [OF assms(1)] by auto
  have owns: "bucket_owns b v" by (rule covers_owns [OF assms(1,3,4)])
  define i where "i = (if v \<le> first_vlsn b then 0 else unat (div_ceil (v - first_vlsn b) (stride64 b)))"
  have above: "unat v \<le> slot b i" "slot b i - unat v < unat (stride b)"
    using slot_above [of b v] s assms(3) by (auto simp: slot_def i_def)
  show ?thesis
  proof (cases "v = last_vlsn b")
    case True
    then show ?thesis using owns l s by (auto simp: bucket_get_gte_lsn_def)
  next
    case False
    show ?thesis
    proof (cases "i < length (offsets b)")
      case True
      then have "slot b i < n" using assms(2) by (simp add: bucket_exact_def)
      note at = covers_slot [OF assms(1) this]
      have "gte_loop (offsets b) i = i" using True at(2) by (subst gte_loop.simps) simp
      then have "bucket_get_gte_lsn b v = Some (offsets b ! i)"
        using False owns True at(2) by (simp add: bucket_get_gte_lsn_def Let_def flip: i_def)
      moreover have "v \<le> of_nat (slot b i)" "unat (of_nat (slot b i) :: u64) - unat v < unat (stride b)"
        using above unfolding word_le_nat_alt at(4) by blast+
      ultimately show ?thesis using at(3) by blast
    next
      case out: False
      then have "n \<le> slot b i" using covers_slot(1) [OF assms(1), of i] by (meson not_le)
      then have "unat (last_vlsn b) - unat v < unat (stride b)" using above(2) n by linarith
      moreover have "v \<le> last_vlsn b" using assms(4) n by (simp add: word_le_nat_alt)
      moreover have "bucket_get_gte_lsn b v = Some l"
        using False owns out l by (simp add: bucket_get_gte_lsn_def Let_def flip: i_def)
      ultimately show ?thesis using l by blast
    qed
  qed
qed

subsection \<open>Registrations\<close>

text \<open>In a stream without gaps a slot is appended or overwritten, never skipped.\<close>

lemma bucket_put_next:
  assumes "bucket_covers H n b" "unat v = n"
  obtains os where "bucket_put v p b =
      (b\<lparr>offsets := os, last_vlsn := max (last_vlsn b) v,
         last_lsn := (if last_vlsn b \<le> v then Some p else last_lsn b)\<rparr>, True)"
    "\<And>i. slot b i < n \<Longrightarrow> i < length os \<and> os ! i = offsets b ! i"
    "\<And>i. slot b i = n \<Longrightarrow> i < length os \<and> os ! i = p"
    "\<And>i. i < length os \<Longrightarrow> i < length (offsets b) \<or> slot b i = n"
proof -
  have s: "0 < stride b" and f: "first_vlsn b \<le> v" "\<not> v < first_vlsn b"
    using assms by (simp_all add: bucket_covers_def word_le_nat_alt word_less_nat_alt)
  let ?i = "get_index b v"
  define os where "os = (if \<not> is_modulo b v then offsets b
    else if ?i < length (offsets b) then (offsets b)[?i := p] else offsets b @ [p])"
  have early: "i < length (offsets b)" if "slot b i < n" for i using covers_slot(1) [OF assms(1) that] .
  have le: "?i \<le> length (offsets b)" if m: "is_modulo b v"
  proof (rule ccontr)
    assume "\<not> ?i \<le> length (offsets b)"
    then have "slot b (length (offsets b)) < slot b ?i" using slot_less_iff [OF s] by simp
    then have "slot b (length (offsets b)) < n" using m is_modulo_iff [OF f(1)] assms(2) by simp
    then show False using early by blast
  qed
  have "bucket_put v p b = (b\<lparr>offsets := os, last_vlsn := max (last_vlsn b) v,
         last_lsn := (if last_vlsn b \<le> v then Some p else last_lsn b)\<rparr>, True)"
    using f(2) le unfolding bucket_put_def os_def by (auto simp: Let_def max_def)
  moreover have "i < length os \<and> os ! i = offsets b ! i" if "slot b i < n" for i
  proof -
    have "is_modulo b v \<Longrightarrow> i \<noteq> ?i" using is_modulo_iff [OF f(1)] assms(2) that by auto
    then show ?thesis using early [OF that] unfolding os_def by (auto simp: nth_append)
  qed
  moreover have "i < length os \<and> os ! i = p" if "slot b i = n" for i
  proof -
    have i: "?i = i" using that assms(2) f(1) s by (intro get_index_slot) simp_all
    then have "is_modulo b v" using is_modulo_iff [OF f(1)] that assms(2) by simp
    then show ?thesis using i le unfolding os_def by (auto simp: nth_append)
  qed
  moreover have "i < length (offsets b) \<or> slot b i = n" if "i < length os" for i
    using that is_modulo_iff [OF f(1)] assms(2) le unfolding os_def
    by (auto split: if_splits simp: less_Suc_eq)
  ultimately show thesis by (rule that)
qed

lemma bucket_put_covers:
  assumes "bucket_covers H n b" "unat v = n" "p \<noteq> NO_OFFSET" "bucket_put v p b = (b', ok)"
  shows "ok" "bucket_covers (H(v \<mapsto> p)) (n + 1) b'" "first_vlsn b' = first_vlsn b" "stride b' = stride b"
    "bucket_exact n b \<Longrightarrow> bucket_exact (n + 1) b'"
proof -
  obtain os where b': "b' = b\<lparr>offsets := os, last_vlsn := max (last_vlsn b) v,
         last_lsn := (if last_vlsn b \<le> v then Some p else last_lsn b)\<rparr>" and ok
    and old: "\<And>i. slot b i < n \<Longrightarrow> i < length os \<and> os ! i = offsets b ! i"
    and new: "\<And>i. slot b i = n \<Longrightarrow> i < length os \<and> os ! i = p"
    and bound: "\<And>i. i < length os \<Longrightarrow> i < length (offsets b) \<or> slot b i = n"
    using bucket_put_next [OF assms(1,2), of p] assms(4) by (metis Pair_inject)
  have slot: "slot b' = slot b" by (rule ext) (simp add: b' slot_def)
  have c: "0 < stride b" "0 < first_vlsn b" "unat (first_vlsn b) < n" "n \<le> unat (last_vlsn b) + 1"
    using assms(1) unfolding bucket_covers_def by blast+
  show ok by fact
  show "first_vlsn b' = first_vlsn b" "stride b' = stride b" by (simp_all add: b')
  have slots: "i < length os \<and> os ! i \<noteq> NO_OFFSET \<and> (H(v \<mapsto> p)) (of_nat (slot b i)) = Some (os ! i)"
    if lt: "slot b i < n + 1" for i
  proof (cases "slot b i = n")
    case True
    then have "of_nat (slot b i) = v" by (simp flip: assms(2))
    then show ?thesis using new [OF True] assms(3) by simp
  next
    case False
    then have lt': "slot b i < n" using lt by simp
    note at = covers_slot [OF assms(1) lt']
    have "of_nat (slot b i) \<noteq> v" using at(4) lt' assms(2) by (metis less_irrefl)
    then show ?thesis using old [OF lt'] at by simp
  qed
  have last: "n + 1 \<le> unat (max (last_vlsn b) v) + 1" using assms(2) by (simp add: max_def word_le_nat_alt)
  have cap: "unat (max (last_vlsn b) v) + 1 = n + 1 \<Longrightarrow> last_vlsn b \<le> v \<and> max (last_vlsn b) v = v"
    using assms(2) by (auto simp: max_def word_le_nat_alt word_unat_eq_iff split: if_splits)
  show "bucket_covers (H(v \<mapsto> p)) (n + 1) b'"
    unfolding bucket_covers_def slot using c slots last cap by (auto simp: b')
  show "bucket_exact (n + 1) b'" if e: "bucket_exact n b"
  proof -
    have "unat (last_vlsn b) + 1 = n" "\<And>i. i < length (offsets b) \<Longrightarrow> slot b i < n"
      using e unfolding bucket_exact_def by blast+
    moreover from this have "max (last_vlsn b) v = v" using assms(2) by (simp add: max_def word_le_nat_alt)
    ultimately show ?thesis unfolding bucket_exact_def slot using assms(2) bound
      by (auto simp: b') (metis less_SucI lessI)
  qed
qed

lemma bucket_new_covers:
  assumes "VlsnBucket_new v s = Ok b" "p \<noteq> NO_OFFSET" "bucket_put v p b = (b', ok)"
  shows "ok" "bucket_covers (H(v \<mapsto> p)) (unat v + 1) b'" "first_vlsn b' = v" "stride b' = s" "bucket_exact (unat v + 1) b'"
proof -
  have b: "0 < v" "0 < s" "b = \<lparr> first_vlsn = v, last_vlsn = v, stride = s, offsets = [NO_OFFSET], last_lsn = None \<rparr>"
    using assms(1) by (auto simp: VlsnBucket_new_def word_neq_0_conv split: if_splits)
  have b': "b' = \<lparr> first_vlsn = v, last_vlsn = v, stride = s, offsets = [p], last_lsn = Some p \<rparr>" and ok
    using assms(3) by (auto simp: b(3) bucket_put_def is_modulo_def get_index_def)
  have slots: "slot b' i < unat v + 1 \<longleftrightarrow> i = 0" "slot b' 0 = unat v" for i
    using b(2) by (auto simp: b' slot_def word_less_nat_alt)
  show ok by fact
  show "first_vlsn b' = v" "stride b' = s" by (simp_all add: b')
  show "bucket_covers (H(v \<mapsto> p)) (unat v + 1) b'"
    unfolding bucket_covers_def slots(1) using b assms(2) slots(2) by (auto simp: b')
  show "bucket_exact (unat v + 1) b'" unfolding bucket_exact_def slots(1) by (simp add: b')
qed

subsection \<open>Truncations\<close>

lemma bucket_covers_truncated:
  assumes "bucket_covers H n b" "unat t < n" "first_vlsn b \<le> t"
  shows "bucket_covers (H |` {..t}) (unat t + 1) b"
proof -
  have c: "0 < stride b" "0 < first_vlsn b" "n \<le> unat (last_vlsn b) + 1"
    using assms(1) unfolding bucket_covers_def by blast+
  have slots: "i < length (offsets b) \<and> offsets b ! i \<noteq> NO_OFFSET \<and> (H |` {..t}) (of_nat (slot b i)) = Some (offsets b ! i)"
    if lt: "slot b i < unat t + 1" for i
  proof -
    have "slot b i < n" using lt assms(2) by simp
    note at = covers_slot [OF assms(1) this]
    moreover have "of_nat (slot b i) \<le> t" using at(4) lt by (simp add: word_le_nat_alt)
    ultimately show ?thesis by (simp add: restrict_map_def)
  qed
  have last: "last_lsn b \<noteq> None \<and> (H |` {..t}) (last_vlsn b) = last_lsn b" if e: "unat (last_vlsn b) + 1 = unat t + 1"
  proof -
    have t: "last_vlsn b = t" using e by (simp add: word_unat_eq_iff)
    have "unat (last_vlsn b) + 1 = n" using c(3) assms(2) e by simp
    then show ?thesis using assms(1) t unfolding bucket_covers_def by (auto simp: restrict_map_def)
  qed
  show ?thesis unfolding bucket_covers_def using c assms(2,3) slots last by (auto simp: word_le_nat_alt)
qed

lemma remove_from_head_covers:
  assumes "bucket_covers H n b" "unat f < n"
  shows "bucket_covers H n (remove_from_head f b)" "stride (remove_from_head f b) = stride b"
    "first_vlsn b \<le> f \<Longrightarrow> first_vlsn (remove_from_head f b) \<le> f"
    "bucket_exact n b \<Longrightarrow> bucket_exact n (remove_from_head f b)"
proof -
  let ?b = "remove_from_head f b"
  have "bucket_covers H n ?b \<and> stride ?b = stride b \<and> (first_vlsn b \<le> f \<longrightarrow> first_vlsn ?b \<le> f) \<and>
    (bucket_exact n b \<longrightarrow> bucket_exact n ?b)"
  proof (cases "f \<le> first_vlsn b")
    case True
    then show ?thesis using assms(1) by (simp add: remove_from_head_def)
  next
    case False
    then have f: "first_vlsn b \<le> f" by simp
    have c: "0 < stride b" "0 < first_vlsn b" "n \<le> unat (last_vlsn b) + 1"
      using assms(1) unfolding bucket_covers_def by blast+
    have in_bucket: "\<not> last_vlsn b < f" using c(3) assms(2) by (simp add: word_less_nat_alt)
    let ?k = "get_index b f" and ?g = "first_vlsn b + (f - first_vlsn b) div stride64 b * stride64 b"
    have below: "slot b ?k \<le> unat f" by (rule slot_below(1) [OF f c(1)])
    then have lt: "slot b ?k < n" using assms(2) by simp
    note at = covers_slot [OF assms(1) lt]
    have "?g = of_nat (slot b ?k)" by (simp add: slot_def get_index_def stride64_def)
    then have g: "unat ?g = slot b ?k" using at(4) by simp
    have d: "unat ((?g - first_vlsn b) div stride64 b) = ?k"
    proof -
      have "first_vlsn b \<le> ?g" using g by (simp add: word_le_nat_alt slot_def)
      then have "get_index b ?g = ?k" using g c(1) by (intro get_index_slot) auto
      then show ?thesis by (simp add: get_index_def)
    qed
    have b': "?b = b\<lparr>offsets := drop ?k (offsets b), first_vlsn := ?g\<rparr>"
      unfolding remove_from_head_def Let_def d using False in_bucket at(1) by auto
    have slot: "slot ?b i = slot b (?k + i)" for i
      unfolding b' slot_def using g by (simp add: slot_def algebra_simps)
    have "0 < ?g" using g c(2) by (simp add: word_less_nat_alt slot_def)
    moreover have "?g \<le> f" using g below by (simp add: word_le_nat_alt)
    moreover have "i < length (drop ?k (offsets b)) \<and> drop ?k (offsets b) ! i \<noteq> NO_OFFSET \<and>
        H (of_nat (slot b (?k + i))) = Some (drop ?k (offsets b) ! i)" if "slot b (?k + i) < n" for i
      using covers_slot [OF assms(1) that] at(1) by simp
    moreover have "unat (last_vlsn b) + 1 = n \<longrightarrow> last_lsn b \<noteq> None \<and> H (last_vlsn b) = last_lsn b"
      using assms(1) unfolding bucket_covers_def by blast
    ultimately show ?thesis
      unfolding bucket_covers_def bucket_exact_def slot using c lt g by (simp add: b' f)
  qed
  then show "bucket_covers H n ?b" "stride ?b = stride b" "first_vlsn b \<le> f \<Longrightarrow> first_vlsn ?b \<le> f"
    "bucket_exact n b \<Longrightarrow> bucket_exact n ?b" by blast+
qed

text \<open>
  Cutting the tail, with the position of the number before the cut, leaves nothing over.
\<close>

lemma remove_from_tail_exact:
  assumes "bucket_covers H n b" "bucket_exact n b" "first_vlsn b < t" "unat t < n" "H (t - 1) = Some prev"
  obtains b' where "remove_from_tail t (Some prev) b = Ok b'" "bucket_covers (H |` {..<t}) (unat t) b'"
    "bucket_exact (unat t) b'"
proof -
  have c: "0 < stride b" "0 < first_vlsn b" "n = unat (last_vlsn b) + 1"
    using assms(1,2) unfolding bucket_covers_def bucket_exact_def by auto
  have lt: "unat (first_vlsn b) < unat t" using assms(3) by (simp add: word_less_nat_alt)
  then have t: "0 < t" by (simp add: word_less_nat_alt)
  then have t1: "unat (t - 1) + 1 = unat t" using unat_sub [of 1 t] by (simp add: word_le_nat_alt word_less_nat_alt)
  let ?d = "unat (div_ceil (t - first_vlsn b) (stride64 b))"
  note above = slot_above [OF assms(3) c(1)]
  define os where "os = take ?d (offsets b)"
  have "\<not> bucket_is_empty b"
  proof -
    have "slot b 0 < n" using lt assms(4) by (simp add: slot_def)
    then show ?thesis using covers_slot(1,2) [OF assms(1), of 0] by (auto simp: bucket_is_empty_def list_all_length)
  qed
  moreover have "\<not> last_vlsn b < t" "\<not> t \<le> first_vlsn b" using assms(3,4) c(3) by (simp_all add: word_less_nat_alt word_le_nat_alt)
  moreover have "tail_offsets b ?d True = Ok os" by (simp add: tail_offsets_def os_def Let_def)
  ultimately have r: "remove_from_tail t (Some prev) b = Ok (b\<lparr>offsets := os, last_vlsn := t - 1, last_lsn := Some prev\<rparr>)"
    by (simp add: remove_from_tail_def)
  let ?b = "b\<lparr>offsets := os, last_vlsn := t - 1, last_lsn := Some prev\<rparr>"
  have slot: "slot ?b i = slot b i" for i by (simp add: slot_def)
  have d: "slot b i < unat t \<longleftrightarrow> i < ?d" for i
  proof
    show "i < ?d" if "slot b i < unat t" using that above(1) slot_less_iff [OF c(1)] by (meson order_less_le_trans)
    assume "i < ?d"
    then have "slot b i + unat (stride b) \<le> slot b ?d"
      using mult_le_mono1 [of "i + 1" ?d "unat (stride b)"] by (simp add: slot_def)
    then show "slot b i < unat t" using above by linarith
  qed
  have slots: "i < length os \<and> os ! i \<noteq> NO_OFFSET \<and> (H |` {..<t}) (of_nat (slot b i)) = Some (os ! i)"
    if i: "slot b i < unat t" for i
  proof -
    have "slot b i < n" using i assms(4) by simp
    note at = covers_slot [OF assms(1) this]
    moreover have "of_nat (slot b i) < t" using at(4) i by (simp add: word_less_nat_alt)
    ultimately show ?thesis using i d by (simp add: os_def restrict_map_def)
  qed
  have "t - 1 < t" using t1 by (simp add: word_less_nat_alt)
  then have "(H |` {..<t}) (t - 1) = Some prev" using assms(5) by (simp add: restrict_map_def)
  then have "bucket_covers (H |` {..<t}) (unat t) ?b"
    unfolding bucket_covers_def slot using c lt t1 slots by auto
  moreover have "bucket_exact (unat t) ?b"
    unfolding bucket_exact_def slot using t1 d by (simp add: os_def)
  ultimately show thesis using that r by blast
qed

end
