(* ===== verification/Vlsn_Index.thy ===== *)
theory Vlsn_Index
  imports Vlsn_Range Vlsn_Bucket "HOL-Library.Multiset"
begin

text \<open>
  The index from sequence numbers to log positions (\<open>crates/noxu-rep/src/vlsn/vlsn_index.rs\<close>): the
  range of numbers and a list of buckets.  Each operation holds the two locks of the index
  throughout and is one function.  The order that \<open>sort_unstable_by_key\<close> gives to equal keys is
  not specified, so the sort is an argument, constrained by \<open>sorts_by\<close> where a property needs it.
\<close>

section \<open>Operations\<close>

record VlsnIndex =
  vrange :: VlsnRange
  buckets :: "VlsnBucket list"
  bucket_stride :: u32

definition sorts_by :: "('a \<Rightarrow> u64) \<Rightarrow> ('a list \<Rightarrow> 'a list) \<Rightarrow> bool" where
  "sorts_by key srt \<longleftrightarrow> (\<forall>xs. mset (srt xs) = mset xs \<and> sorted (map key (srt xs)))"

definition VlsnIndex_new :: "u32 \<Rightarrow> panic + VlsnIndex" where
  "VlsnIndex_new s =
     (if s = 0 then Err Assertion
      else Ok \<lparr> vrange = VlsnRange_new, buckets = [], bucket_stride = s \<rparr>)"

definition insert_last :: "VlsnBucket list \<Rightarrow> u64 \<Rightarrow> lsn \<Rightarrow> VlsnBucket list \<times> bool" where
  "insert_last bs v p =
     (if bs \<noteq> [] \<and> (bucket_owns (last bs) v \<or> last_vlsn (last bs) < v)
      then let (b, accepted) = bucket_put v p (last bs) in (butlast bs @ [b], accepted)
      else (bs, False))"

definition index_insert ::
  "(VlsnBucket list \<Rightarrow> VlsnBucket list) \<Rightarrow> u64 \<Rightarrow> lsn \<Rightarrow> LogEntryType option \<Rightarrow> VlsnIndex \<Rightarrow> panic + VlsnIndex" where
  "index_insert srt v p entry_type idx =
     (if v = 0 then Err Assertion
      else
        let (bs, accepted) = insert_last (buckets idx) v p
        in and_then
             (if accepted then Ok bs
              else and_then (VlsnBucket_new v (bucket_stride idx)) (\<lambda>nb. Ok (srt (bs @ [fst (bucket_put v p nb)]))))
             (\<lambda>bs'.
               and_then
                 (case entry_type of
                    Some et \<Rightarrow> update_for_new_mapping (vrange idx) v et
                  | None \<Rightarrow> range_extend (vrange idx) v)
                 (\<lambda>r. Ok (idx\<lparr>buckets := bs', vrange := r\<rparr>))))"

definition index_put where
  "index_put srt v p = index_insert srt v p None"

definition put_with_type where
  "put_with_type srt v p entry_type = index_insert srt v p (Some entry_type)"

text \<open>\<open>partition_point\<close> on a list that the predicate splits into a prefix and a suffix.\<close>

definition partition_point :: "('a \<Rightarrow> bool) \<Rightarrow> 'a list \<Rightarrow> nat" where
  "partition_point P xs = length (takeWhile P xs)"

definition index_get_lsn :: "VlsnIndex \<Rightarrow> u64 \<Rightarrow> panic + lsn option" where
  "index_get_lsn idx v =
     (if v = 0 then Ok None
      else if \<not> range_contains (vrange idx) v then Ok None
      else
        let pos = partition_point (\<lambda>b. first_vlsn b \<le> v) (buckets idx)
        in if pos = 0 then Ok None else bucket_get_lsn (buckets idx ! (pos - 1)) v)"

definition index_get_exact_lsn :: "VlsnIndex \<Rightarrow> u64 \<Rightarrow> panic + lsn option" where
  "index_get_exact_lsn idx v =
     (if v = 0 then Ok None
      else if \<not> range_contains (vrange idx) v then Ok None
      else
        let pos = partition_point (\<lambda>b. first_vlsn b \<le> v) (buckets idx)
        in if pos = 0 then Ok None
           else
             let bucket = buckets idx ! (pos - 1)
             in if \<not> bucket_owns bucket v then Ok None else bucket_get_exact_lsn bucket v)"

definition index_get_gte_lsn :: "VlsnIndex \<Rightarrow> u64 \<Rightarrow> lsn option" where
  "index_get_gte_lsn idx v =
     (if v = 0 then None
      else if range_is_empty (vrange idx) \<or> range_last (vrange idx) < v then None
      else
        let pos = partition_point (\<lambda>b. first_vlsn b \<le> v) (buckets idx)
        in if 0 < pos \<and> bucket_owns (buckets idx ! (pos - 1)) v
           then bucket_get_gte_lsn (buckets idx ! (pos - 1)) v
           else if pos < length (buckets idx)
           then bucket_get_gte_lsn (buckets idx ! pos) (first_vlsn (buckets idx ! pos))
           else None)"

definition get_latest_vlsn :: "VlsnIndex \<Rightarrow> u64" where
  "get_latest_vlsn idx = range_last (vrange idx)"

definition index_truncate_after :: "u64 \<Rightarrow> VlsnIndex \<Rightarrow> VlsnIndex" where
  "index_truncate_after v idx =
     idx\<lparr>buckets := filter (\<lambda>b. first_vlsn b \<le> v) (buckets idx), vrange := range_truncate_after (vrange idx) v\<rparr>"

text \<open>The buckets after \<open>truncate_from_head\<close>, for the new first number.\<close>

definition trim_head :: "u64 \<Rightarrow> VlsnBucket list \<Rightarrow> VlsnBucket list" where
  "trim_head new_first bs =
     (case filter (\<lambda>b. new_first \<le> last_vlsn b) bs of
        [] \<Rightarrow> []
      | b # bs' \<Rightarrow> (if first_vlsn b < new_first then remove_from_head new_first b else b) # bs')"

definition truncate_from_head :: "u64 \<Rightarrow> VlsnIndex \<Rightarrow> panic + VlsnIndex \<times> bool" where
  "truncate_from_head delete_end idx =
     (if delete_end = 0 then Ok (idx, False)
      else if range_is_empty (vrange idx) then Ok (idx, False)
      else if delete_end < range_first (vrange idx) then Ok (idx, False)
      else if sync_vlsn (vrange idx) \<noteq> 0 \<and> sync_vlsn (vrange idx) < delete_end then Ok (idx, False)
      else
        and_then (shorten_from_head (vrange idx) delete_end) (\<lambda>r.
          if range_is_empty r then Ok (idx\<lparr>vrange := r, buckets := []\<rparr>, True)
          else Ok (idx\<lparr>vrange := r, buckets := trim_head (range_first r) (buckets idx)\<rparr>, True)))"

definition bucket_count :: "VlsnIndex \<Rightarrow> nat" where
  "bucket_count idx = length (buckets idx)"

text \<open>\<open>dedup_by_key\<close> keeps the first of consecutive elements with the same key.\<close>

fun dedup_by_fst :: "('a \<times> 'b) list \<Rightarrow> ('a \<times> 'b) list" where
  "dedup_by_fst (x # y # xs) =
     (if fst y = fst x then dedup_by_fst (x # xs) else x # dedup_by_fst (y # xs))"
| "dedup_by_fst xs = xs"

definition snapshot_entries ::
  "((u64 \<times> lsn) list \<Rightarrow> (u64 \<times> lsn) list) \<Rightarrow> VlsnIndex \<Rightarrow> (u64 \<times> lsn) list" where
  "snapshot_entries srt idx = dedup_by_fst (srt (concat (map append_entries (buckets idx))))"

section \<open>The index of a replication stream\<close>

text \<open>
  A node registers the numbers of the stream in order, rolls back to a number before the next one,
  after which the stream resumes from there, and deletes the head of the range when log files are
  cleaned.  \<open>H\<close> maps the numbers registered and not rolled back to their positions, \<open>n\<close> is the next
  number, and \<open>rollbacks\<close> tells whether there are rollbacks.
\<close>

inductive vlsn_stream ::
  "(VlsnBucket list \<Rightarrow> VlsnBucket list) \<Rightarrow> bool \<Rightarrow> VlsnIndex \<Rightarrow> (u64 \<rightharpoonup> lsn) \<Rightarrow> nat \<Rightarrow> bool"
  for srt rollbacks where
  start: "VlsnIndex_new s = Ok idx \<Longrightarrow> 0 < n \<Longrightarrow> vlsn_stream srt rollbacks idx Map.empty n"
| register: "vlsn_stream srt rollbacks idx H n \<Longrightarrow> unat v = n \<Longrightarrow> p \<noteq> NO_OFFSET \<Longrightarrow>
    index_insert srt v p et idx = Ok idx' \<Longrightarrow> vlsn_stream srt rollbacks idx' (H(v \<mapsto> p)) (n + 1)"
| roll_back: "vlsn_stream srt rollbacks idx H n \<Longrightarrow> rollbacks \<Longrightarrow> unat t < n \<Longrightarrow>
    vlsn_stream srt rollbacks (index_truncate_after t idx) (H |` {..t}) (unat t + 1)"
| clean: "vlsn_stream srt rollbacks idx H n \<Longrightarrow> unat d < n \<Longrightarrow>
    truncate_from_head d idx = Ok (idx', ok) \<Longrightarrow> vlsn_stream srt rollbacks idx' H n"

text \<open>The index of a stream has at most one bucket, and it covers the history.\<close>

definition index_inv :: "bool \<Rightarrow> (u64 \<rightharpoonup> lsn) \<Rightarrow> nat \<Rightarrow> VlsnIndex \<Rightarrow> bool" where
  "index_inv rollbacks H n idx \<longleftrightarrow>
     0 < n \<and> range_wf (vrange idx) \<and> 0 < bucket_stride idx \<and>
     (\<not> range_is_empty (vrange idx) \<longrightarrow> unat (range_last (vrange idx)) + 1 = n) \<and>
     (\<forall>v. range_contains (vrange idx) v \<longrightarrow> v \<in> dom H) \<and>
     (buckets idx = [] \<and> range_is_empty (vrange idx) \<or>
      (\<exists>b. buckets idx = [b] \<and> bucket_covers H n b \<and> stride b = bucket_stride idx \<and>
         (\<not> range_is_empty (vrange idx) \<longrightarrow> first_vlsn b \<le> range_first (vrange idx)) \<and>
         (rollbacks \<or> bucket_exact n b)))"

lemma index_inv_none: "index_inv rollbacks H n idx \<Longrightarrow> buckets idx = [] \<Longrightarrow> range_is_empty (vrange idx)"
  by (auto simp: index_inv_def)

lemma index_inv_one:
  assumes "index_inv rollbacks H n idx" "buckets idx \<noteq> []"
  obtains b where "buckets idx = [b]" "bucket_covers H n b" "stride b = bucket_stride idx"
    "\<not> range_is_empty (vrange idx) \<Longrightarrow> first_vlsn b \<le> range_first (vrange idx)" "rollbacks \<or> bucket_exact n b"
  using assms unfolding index_inv_def by blast

lemma index_inv_new: "VlsnIndex_new s = Ok idx \<Longrightarrow> 0 < n \<Longrightarrow> index_inv rollbacks H n idx"
  by (auto simp: VlsnIndex_new_def index_inv_def range_is_empty_def range_contains_def VlsnRange_new_def
      range_wf_def word_neq_0_conv split: if_splits)

lemma sorts_by_singleton: "sorts_by key srt \<Longrightarrow> srt [x] = [x]"
  unfolding sorts_by_def by (metis mset_single_iff mset_single_iff_right mset.simps)

text \<open>The two ways to update the range agree on its bounds.\<close>

lemma insert_range:
  assumes "range_wf r" "0 < v"
  obtains r' where "(case et of Some t \<Rightarrow> update_for_new_mapping r v t | None \<Rightarrow> range_extend r v) = Ok r'"
    "range_wf r'" "range_first r' = (if range_is_empty r then v else min (range_first r) v)"
    "range_last r' = max (range_last r) v"
proof (cases et)
  case None
  then show thesis using range_extend_Ok [OF assms] that by auto
next
  case (Some t)
  then show thesis using update_for_new_mapping_Ok [OF assms, of t] that by auto
qed

lemma index_insert_total:
  assumes "range_wf (vrange idx)" "0 < bucket_stride idx" "0 < v"
  shows "\<exists>idx'. index_insert srt v p et idx = Ok idx'"
proof -
  obtain r' where "(case et of Some t \<Rightarrow> update_for_new_mapping (vrange idx) v t | None \<Rightarrow> range_extend (vrange idx) v) = Ok r'"
    using insert_range [OF assms(1,3)] by blast
  moreover obtain nb where "VlsnBucket_new v (bucket_stride idx) = Ok nb"
    using assms(2,3) by (simp add: VlsnBucket_new_def word_gt_0)
  ultimately show ?thesis
    using assms(3) by (auto simp: index_insert_def word_gt_0 split: prod.splits)
qed

lemma index_inv_insert:
  assumes inv: "index_inv rollbacks H n idx" and srt: "sorts_by first_vlsn srt"
    and v: "unat v = n" and p: "p \<noteq> NO_OFFSET" and ins: "index_insert srt v p et idx = Ok idx'"
  shows "index_inv rollbacks (H(v \<mapsto> p)) (n + 1) idx'"
proof -
  let ?r = "vrange idx"
  have n: "0 < n" and wf: "range_wf ?r" and s: "0 < bucket_stride idx"
    and last: "\<not> range_is_empty ?r \<Longrightarrow> unat (range_last ?r) + 1 = n"
    and dom: "\<And>w. range_contains ?r w \<Longrightarrow> w \<in> dom H"
    using inv unfolding index_inv_def by blast+
  have v0: "0 < v" using n v by (simp add: word_less_nat_alt)
  obtain r' where r': "(case et of Some t \<Rightarrow> update_for_new_mapping ?r v t | None \<Rightarrow> range_extend ?r v) = Ok r'"
    "range_wf r'" "range_first r' = (if range_is_empty ?r then v else min (range_first ?r) v)"
    "range_last r' = max (range_last ?r) v"
    using insert_range [OF wf v0] by blast
  have le: "range_last ?r \<le> v"
  proof (cases "range_is_empty ?r")
    case True
    then show ?thesis using wf by (simp add: range_wf_def range_is_empty_def VlsnRange_new_def)
  qed (use last v in \<open>simp add: word_le_nat_alt\<close>)
  have f: "range_first r' = (if range_is_empty ?r then v else range_first ?r)" and l: "range_last r' = v"
    using r'(3,4) le wf by (auto simp: range_wf_def min_def max_def)
  have dom': "w \<in> dom (H(v \<mapsto> p))" if w: "range_contains r' w" for w
  proof (cases "w = v")
    case False
    then have "w < v" using w l by (simp add: range_contains_iff order_less_le)
    moreover from this have "\<not> range_is_empty ?r" "range_first ?r \<le> w"
      using w f unfolding range_contains_iff by (auto split: if_splits)
    moreover from calculation have "w \<le> range_last ?r"
      using last v unfolding word_le_nat_alt word_less_nat_alt by simp
    ultimately have "range_contains ?r w" by (simp add: range_contains_iff range_is_empty_def)
    then show ?thesis using dom by auto
  qed simp
  obtain b' where b': "buckets idx' = [b']" "vrange idx' = r'" "bucket_stride idx' = bucket_stride idx"
    "bucket_covers (H(v \<mapsto> p)) (n + 1) b'" "stride b' = bucket_stride idx"
    "first_vlsn b' \<le> range_first r'" "rollbacks \<or> bucket_exact (n + 1) b'"
  proof (cases "buckets idx = []")
    case True
    obtain nb where nb: "VlsnBucket_new v (bucket_stride idx) = Ok nb"
      using s v0 by (simp add: VlsnBucket_new_def word_gt_0)
    obtain b' ok where b': "bucket_put v p nb = (b', ok)" by force
    have e: "range_is_empty ?r" using inv True by (rule index_inv_none)
    have "idx' = idx\<lparr>buckets := [b'], vrange := r'\<rparr>"
      using ins True nb b' v0 r'(1) sorts_by_singleton [OF srt]
      by (simp add: index_insert_def insert_last_def word_gt_0)
    then show thesis using bucket_new_covers [OF nb p b'] e f v that [of b'] by simp
  next
    case False
    then obtain b where b: "buckets idx = [b]" "bucket_covers H n b" "stride b = bucket_stride idx"
      "\<not> range_is_empty ?r \<Longrightarrow> first_vlsn b \<le> range_first ?r" "rollbacks \<or> bucket_exact n b"
      using index_inv_one [OF inv] by blast
    obtain b' ok where b': "bucket_put v p b = (b', ok)" by force
    note put = bucket_put_covers [OF b(2) v p b']
    have first: "first_vlsn b \<le> v" "0 < first_vlsn b"
      using b(2) v unfolding bucket_covers_def word_le_nat_alt by auto
    then have "bucket_owns b v \<or> last_vlsn b < v" using v0 by (auto simp: bucket_owns_def)
    then have "idx' = idx\<lparr>buckets := [b'], vrange := r'\<rparr>"
      using ins b(1) b' put(1) v0 r'(1) by (simp add: index_insert_def insert_last_def word_gt_0)
    then show thesis using put b(3-5) f first(1) that [of b'] by (cases "range_is_empty ?r") auto
  qed
  have "\<not> range_is_empty r'" using f v0 by (auto simp: range_is_empty_def)
  then show ?thesis unfolding index_inv_def b'(1-3) using b'(4-7) r'(2) s dom' l v by auto
qed

lemma range_truncate_after_fields:
  assumes "\<not> range_is_empty (range_truncate_after r t)"
  shows "\<not> range_is_empty r" "range_first (range_truncate_after r t) = range_first r"
    "range_last (range_truncate_after r t) = t" "range_first r \<le> t"
  using assms by (auto simp: range_truncate_after_def range_is_empty_def Let_def word_neq_0_conv not_less split: if_splits)

lemma index_inv_truncate_after:
  assumes inv: "index_inv True H n idx" and t: "unat t < n"
  shows "index_inv True (H |` {..t}) (unat t + 1) (index_truncate_after t idx)"
proof -
  let ?r = "vrange idx" and ?r' = "range_truncate_after (vrange idx) t"
  have wf: "range_wf ?r" and s: "0 < bucket_stride idx"
    and last: "\<not> range_is_empty ?r \<Longrightarrow> unat (range_last ?r) + 1 = n"
    and dom: "\<And>w. range_contains ?r w \<Longrightarrow> w \<in> dom H"
    using inv unfolding index_inv_def by blast+
  note fields = range_truncate_after_fields [of ?r t]
  have r': "range_wf ?r'" "range_contains ?r' w \<longrightarrow> range_contains ?r w \<and> w \<le> t" for w
  proof -
    have "range_wf ?r' \<and> (range_contains ?r' w \<longrightarrow> range_contains ?r w \<and> w \<le> t)"
    proof (cases "range_is_empty ?r'")
      case True
      then have "?r' = VlsnRange_new" using wf
        by (auto simp: range_truncate_after_def range_is_empty_def range_wf_def VlsnRange_new_def Let_def split: if_splits)
      then show ?thesis by (simp add: range_contains_def, simp add: VlsnRange_new_def)
    next
      case False
      then have "t \<le> range_last ?r" using last fields(1) t by (simp add: word_le_nat_alt)
      then show ?thesis using range_truncate_after_wf [OF wf] by blast
    qed
    then show "range_wf ?r'" "range_contains ?r' w \<longrightarrow> range_contains ?r w \<and> w \<le> t" by blast+
  qed
  have dom': "w \<in> dom (H |` {..t})" if "range_contains ?r' w" for w
    using r'(2) [of w] dom [of w] that by auto
  have buckets: "(filter (\<lambda>b. first_vlsn b \<le> t) (buckets idx) = [] \<and> range_is_empty ?r') \<or>
      (\<exists>b. filter (\<lambda>b. first_vlsn b \<le> t) (buckets idx) = [b] \<and> bucket_covers (H |` {..t}) (unat t + 1) b \<and>
        stride b = bucket_stride idx \<and> (\<not> range_is_empty ?r' \<longrightarrow> first_vlsn b \<le> range_first ?r'))"
  proof (cases "buckets idx = []")
    case True
    then show ?thesis using index_inv_none [OF inv True] fields(1) by auto
  next
    case False
    then obtain b where b: "buckets idx = [b]" "bucket_covers H n b" "stride b = bucket_stride idx"
      "\<not> range_is_empty ?r \<Longrightarrow> first_vlsn b \<le> range_first ?r"
      using index_inv_one [OF inv] by blast
    show ?thesis
    proof (cases "first_vlsn b \<le> t")
      case True
      then show ?thesis using b fields(1,2) bucket_covers_truncated [OF b(2) t True] by auto
    next
      case gone: False
      then have "range_is_empty ?r'" using b(4) fields(1,4) by (meson order_trans)
      then show ?thesis using b(1) gone by simp
    qed
  qed
  show ?thesis
    unfolding index_inv_def index_truncate_after_def using r'(1) s fields(3) dom' buckets by simp
qed

lemma truncate_from_head_cases:
  assumes inv: "index_inv rollbacks H n idx" and d: "unat d < n"
  obtains (refused) "truncate_from_head d idx = Ok (idx, False)"
  | (emptied) "truncate_from_head d idx = Ok (idx\<lparr>vrange := VlsnRange_new, buckets := []\<rparr>, True)"
  | (trimmed) r' b where "truncate_from_head d idx = Ok (idx\<lparr>vrange := r', buckets := [remove_from_head (range_first r') b]\<rparr>, True)"
      "range_wf r'" "\<not> range_is_empty r'" "range_last r' = range_last (vrange idx)" "unat (range_first r') < n"
      "first_vlsn b \<le> range_first r'" "\<And>w. range_contains r' w \<Longrightarrow> range_contains (vrange idx) w"
      "buckets idx = [b]" "\<not> range_is_empty (vrange idx)"
proof -
  let ?r = "vrange idx"
  have wf: "range_wf ?r" and last: "\<not> range_is_empty ?r \<Longrightarrow> unat (range_last ?r) + 1 = n"
    using inv unfolding index_inv_def by blast+
  consider "d = 0 \<or> range_is_empty ?r \<or> d < range_first ?r \<or> sync_vlsn ?r \<noteq> 0 \<and> sync_vlsn ?r < d"
    | "d \<noteq> 0" "\<not> range_is_empty ?r" "\<not> d < range_first ?r" "\<not> (sync_vlsn ?r \<noteq> 0 \<and> sync_vlsn ?r < d)"
    by blast
  then show thesis
  proof cases
    case 1
    then show thesis using refused by (auto simp: truncate_from_head_def)
  next
    case 2
    have le: "d \<le> range_last ?r" using last [OF 2(2)] d by (simp add: word_le_nat_alt)
    obtain r' where r': "shorten_from_head ?r d = Ok r'" "range_wf r'"
      "\<And>w. range_contains r' w \<longleftrightarrow> range_contains ?r w \<and> d < w"
      "if d = range_last ?r then range_first r' = 0 else range_first r' = d + 1 \<and> range_last r' = range_last ?r"
      using shorten_from_head_Ok [OF wf _ le] 2(2,3) unfolding range_is_empty_def not_less by blast
    have t: "truncate_from_head d idx = (if range_is_empty r' then Ok (idx\<lparr>vrange := r', buckets := []\<rparr>, True)
        else Ok (idx\<lparr>vrange := r', buckets := trim_head (range_first r') (buckets idx)\<rparr>, True))"
      using 2 r'(1) by (auto simp: truncate_from_head_def)
    show thesis
    proof (cases "range_is_empty r'")
      case True
      then have "r' = VlsnRange_new" using r'(2) by (simp add: range_wf_def range_is_empty_def)
      then show thesis using emptied t True by simp
    next
      case False
      then have rl: "range_last r' = range_last ?r" using r'(4) by (auto simp: range_is_empty_def split: if_splits)
      have f: "unat (range_first r') < n"
        using r'(2) last [OF 2(2)] by (simp add: range_wf_def rl word_le_nat_alt)
      have "buckets idx \<noteq> []" using index_inv_none [OF inv] 2(2) by blast
      then obtain b where b: "buckets idx = [b]" "bucket_covers H n b" "first_vlsn b \<le> range_first ?r"
        using index_inv_one [OF inv] 2(2) by metis
      have ge: "range_first ?r \<le> range_first r'"
        using r'(3) [of "range_first r'"] r'(2) False by (auto simp: range_contains_iff range_wf_def range_is_empty_def)
      have "n \<le> unat (last_vlsn b) + 1" using b(2) unfolding bucket_covers_def by blast
      then have "range_first r' \<le> last_vlsn b" using f by (simp add: word_le_nat_alt)
      then have "trim_head (range_first r') (buckets idx) = [remove_from_head (range_first r') b]"
        using b(1) by (auto simp: trim_head_def remove_from_head_def)
      then show thesis using trimmed [of r' b] t False r'(2,3) rl f b(1) order_trans [OF b(3) ge] 2(2) by simp
    qed
  qed
qed

lemma index_inv_truncate_from_head:
  assumes inv: "index_inv rollbacks H n idx" and d: "unat d < n" and t: "truncate_from_head d idx = Ok (idx', ok)"
  shows "index_inv rollbacks H n idx'"
  using inv d
proof (cases rule: truncate_from_head_cases)
  case refused
  then show ?thesis using t inv by simp
next
  case emptied
  then show ?thesis using t inv unfolding index_inv_def
    by (auto simp: range_is_empty_def range_contains_def VlsnRange_new_def range_wf_def)
next
  case (trimmed r' b)
  have "buckets idx \<noteq> []" using trimmed by simp
  then have b: "bucket_covers H n b" "stride b = bucket_stride idx" "rollbacks \<or> bucket_exact n b"
    using index_inv_one [OF inv] trimmed(8) by (metis list.inject)+
  note trim = remove_from_head_covers [OF b(1) trimmed(5)]
  have "idx' = idx\<lparr>vrange := r', buckets := [remove_from_head (range_first r') b]\<rparr>" using t trimmed(1) by simp
  moreover have "unat (range_last (vrange idx)) + 1 = n" "0 < n" "0 < bucket_stride idx"
    "\<And>w. range_contains (vrange idx) w \<Longrightarrow> w \<in> dom H"
    using inv trimmed(9) unfolding index_inv_def by blast+
  ultimately show ?thesis
    unfolding index_inv_def using trim trimmed(2-4,6,7) b(2,3) by auto
qed

lemma vlsn_stream_inv:
  assumes "vlsn_stream srt rollbacks idx H n" "sorts_by first_vlsn srt"
  shows "index_inv rollbacks H n idx"
  using assms(1)
proof induction
  case (start s idx n)
  then show ?case by (rule index_inv_new)
next
  case (register idx H n v p et idx')
  then show ?case using index_inv_insert [OF _ assms(2)] by blast
next
  case (roll_back idx H n t)
  then show ?case using index_inv_truncate_after by simp
next
  case (clean idx H n d idx' ok)
  then show ?case using index_inv_truncate_from_head by blast
qed

section \<open>Lookups\<close>

lemma partition_point_one [simp]: "partition_point (\<lambda>b. first_vlsn b \<le> v) [b] = (if first_vlsn b \<le> v then 1 else 0)"
  by (simp add: partition_point_def)

lemma index_inv_contains:
  assumes inv: "index_inv rollbacks H n idx" and v: "range_contains (vrange idx) v"
  obtains b where "buckets idx = [b]" "bucket_covers H n b" "stride b = bucket_stride idx" "first_vlsn b \<le> v"
    "unat v < n" "v \<noteq> 0" "rollbacks \<or> bucket_exact n b"
proof -
  have r: "\<not> range_is_empty (vrange idx)" "range_first (vrange idx) \<le> v" "v \<le> range_last (vrange idx)"
    using v by (simp_all add: range_contains_iff range_is_empty_def)
  have "unat (range_last (vrange idx)) + 1 = n" using inv r(1) unfolding index_inv_def by blast
  then have "unat v < n" using r(3) by (simp add: word_le_nat_alt)
  moreover have "v \<noteq> 0" using r(1,2) by (auto simp: range_is_empty_def)
  moreover have "buckets idx \<noteq> []" using index_inv_none [OF inv] r(1) by blast
  ultimately show thesis using index_inv_one [OF inv] r(1,2) that by (metis order_trans)
qed

lemma vlsn_lookup_in_range:
  assumes inv: "index_inv rollbacks H n idx" and v: "range_contains (vrange idx) v"
  shows "\<exists>l v'. index_get_lsn idx v = Ok (Some l) \<and> H v' = Some l \<and> v' \<le> v \<and>
      unat v - unat v' < unat (bucket_stride idx)"
    "\<exists>r. index_get_exact_lsn idx v = Ok r \<and> (r \<noteq> None \<longrightarrow> H v = r) \<and>
      (\<not> rollbacks \<and> v = get_latest_vlsn idx \<longrightarrow> r \<noteq> None)"
    "\<not> rollbacks \<Longrightarrow> \<exists>l v'. index_get_gte_lsn idx v = Some l \<and> H v' = Some l \<and> v \<le> v' \<and>
      unat v' - unat v < unat (bucket_stride idx)"
proof -
  obtain b where b: "buckets idx = [b]" "bucket_covers H n b" "stride b = bucket_stride idx" "first_vlsn b \<le> v"
    "unat v < n" "v \<noteq> 0" "rollbacks \<or> bucket_exact n b"
    by (rule index_inv_contains [OF inv v])
  have owns: "bucket_owns b v" by (rule covers_owns [OF b(2,4,5)])
  have "index_get_lsn idx v = bucket_get_lsn b v" using v b(1,4,6) by (simp add: index_get_lsn_def)
  then show "\<exists>l v'. index_get_lsn idx v = Ok (Some l) \<and> H v' = Some l \<and> v' \<le> v \<and>
      unat v - unat v' < unat (bucket_stride idx)"
    using bucket_get_lsn_covers [OF b(2,4,5)] b(3) by simp
  have r: "\<not> range_is_empty (vrange idx)" "\<not> range_last (vrange idx) < v"
    using v by (auto simp: range_contains_iff range_is_empty_def)
  have latest: "v = last_vlsn b" if "\<not> rollbacks" "v = get_latest_vlsn idx"
  proof -
    have "unat (last_vlsn b) + 1 = n" using that(1) b(7) by (simp add: bucket_exact_def)
    moreover have "unat (range_last (vrange idx)) + 1 = n" using inv r(1) unfolding index_inv_def by blast
    ultimately show ?thesis using that(2) by (simp add: get_latest_vlsn_def word_unat_eq_iff)
  qed
  have "index_get_exact_lsn idx v = bucket_get_exact_lsn b v"
    using v b(1,4,6) owns by (simp add: index_get_exact_lsn_def)
  then show "\<exists>r. index_get_exact_lsn idx v = Ok r \<and> (r \<noteq> None \<longrightarrow> H v = r) \<and>
      (\<not> rollbacks \<and> v = get_latest_vlsn idx \<longrightarrow> r \<noteq> None)"
    using bucket_get_exact_lsn_covers [OF b(2,4,5)] latest by metis
  have "index_get_gte_lsn idx v = bucket_get_gte_lsn b v"
    using r b(1,4,6) owns by (simp add: index_get_gte_lsn_def)
  then show "\<exists>l v'. index_get_gte_lsn idx v = Some l \<and> H v' = Some l \<and> v \<le> v' \<and>
      unat v' - unat v < unat (bucket_stride idx)" if "\<not> rollbacks"
    using bucket_get_gte_lsn_exact [OF b(2) _ b(4,5)] b(3,7) that by simp
qed

text \<open>
  C37. Lookups in the index of a replication stream with rollbacks and deletions of the head: a
  number of the range was registered and not rolled back; its lookup gives the position of a number
  at or before it, less than a stride away, from which the log is scanned forward; an
  exact lookup gives its own position or nothing.  Without rollbacks the upward
  lookup gives the position of a number at or after it, less than a stride away, and the
  latest number has an exact position.  Other numbers have no position.  The latest number is the
  one before the next of the stream, and a registration never panics.
\<close>

theorem vlsn_lookup_correct:
  assumes "vlsn_stream srt rollbacks idx H n" "sorts_by first_vlsn srt"
  shows "(range_contains (vrange idx) v \<longrightarrow> v \<in> dom H \<and>
        (\<exists>l v'. index_get_lsn idx v = Ok (Some l) \<and> H v' = Some l \<and> v' \<le> v \<and>
          unat v - unat v' < unat (bucket_stride idx)) \<and>
        (\<exists>r. index_get_exact_lsn idx v = Ok r \<and> (r \<noteq> None \<longrightarrow> H v = r) \<and>
          (\<not> rollbacks \<and> v = get_latest_vlsn idx \<longrightarrow> r \<noteq> None)) \<and>
        (\<not> rollbacks \<longrightarrow> (\<exists>l v'. index_get_gte_lsn idx v = Some l \<and> H v' = Some l \<and> v \<le> v' \<and>
          unat v' - unat v < unat (bucket_stride idx)))) \<and>
     (\<not> range_contains (vrange idx) v \<longrightarrow> index_get_lsn idx v = Ok None \<and> index_get_exact_lsn idx v = Ok None) \<and>
     (\<not> range_is_empty (vrange idx) \<longrightarrow> unat (get_latest_vlsn idx) + 1 = n) \<and>
     (0 < v \<longrightarrow> (\<exists>idx'. index_insert srt v p et idx = Ok idx'))"
proof -
  have inv: "index_inv rollbacks H n idx" by (rule vlsn_stream_inv [OF assms])
  have "range_contains (vrange idx) v \<Longrightarrow> v \<in> dom H"
    "\<not> range_is_empty (vrange idx) \<Longrightarrow> unat (get_latest_vlsn idx) + 1 = n"
    "range_wf (vrange idx)" "0 < bucket_stride idx"
    using inv unfolding index_inv_def get_latest_vlsn_def by blast+
  moreover have "\<not> range_contains (vrange idx) v \<Longrightarrow> index_get_lsn idx v = Ok None \<and> index_get_exact_lsn idx v = Ok None"
    by (simp add: index_get_lsn_def index_get_exact_lsn_def)
  ultimately show ?thesis
    using vlsn_lookup_in_range [OF inv] index_insert_total by simp
qed

lemma sorts_by_sort_key: "sorts_by key (sort_key key)"
  by (simp add: sorts_by_def)

theorem vlsn_lookup_correct_witness:
  "\<exists>idx H. vlsn_stream (sort_key first_vlsn) True idx H 7 \<and> range_contains (vrange idx) 6 \<and>
     (\<exists>l v'. index_get_lsn idx 6 = Ok (Some l) \<and> H v' = Some l \<and> v' \<le> 6 \<and> 6 - unat v' < 2)"
proof -
  let ?S = "sort_key first_vlsn" and ?p = "(0, 100) :: lsn"
  let ?i = "\<lambda>r bs. \<lparr> vrange = r, buckets = bs, bucket_stride = 2 \<rparr>"
  let ?r = "\<lambda>l. \<lparr> range_first = 5, range_last = l, commit_vlsn = 0, sync_vlsn = 0 \<rparr>"
  let ?b = "\<lambda>l os. \<lparr> first_vlsn = 5, last_vlsn = l, stride = 2, offsets = os, last_lsn = Some ?p \<rparr>"
  have "vlsn_stream ?S True (?i VlsnRange_new []) Map.empty 5"
    by (rule vlsn_stream.start [where s = 2]) (simp_all add: VlsnIndex_new_def)
  then have "vlsn_stream ?S True (?i (?r 5) [?b 5 [?p]]) (Map.empty(5 \<mapsto> ?p)) (5 + 1)"
    by (rule vlsn_stream.register [where et = None])
      (simp_all add: NO_OFFSET_def index_insert_def insert_last_def VlsnBucket_new_def bucket_put_def is_modulo_def
        get_index_def stride64_def range_extend_def VlsnRange_new_def)
  then have "vlsn_stream ?S True (?i (?r 6) [?b 6 [?p]]) (Map.empty(5 \<mapsto> ?p, 6 \<mapsto> ?p)) (5 + 1 + 1)"
    by (rule vlsn_stream.register [where et = None])
      (simp_all add: NO_OFFSET_def index_insert_def insert_last_def bucket_owns_def bucket_put_def is_modulo_def
        get_index_def stride64_def range_extend_def)
  then have "vlsn_stream ?S True (?i (?r 7) [?b 7 [?p, ?p]]) (Map.empty(5 \<mapsto> ?p, 6 \<mapsto> ?p, 7 \<mapsto> ?p)) (5 + 1 + 1 + 1)"
    by (rule vlsn_stream.register [where et = None])
      (simp_all add: NO_OFFSET_def index_insert_def insert_last_def bucket_owns_def bucket_put_def is_modulo_def
        get_index_def stride64_def range_extend_def)
  then have "vlsn_stream ?S True (index_truncate_after 6 (?i (?r 7) [?b 7 [?p, ?p]]))
      ((Map.empty(5 \<mapsto> ?p, 6 \<mapsto> ?p, 7 \<mapsto> ?p)) |` {..6}) (unat (6 :: u64) + 1)"
    by (rule vlsn_stream.roll_back) simp_all
  then obtain idx H where s: "vlsn_stream ?S True idx H 7" and
    idx: "idx = index_truncate_after 6 (?i (?r 7) [?b 7 [?p, ?p]])" by simp
  have "range_contains (vrange idx) 6" "bucket_stride idx = 2"
    by (simp_all add: idx index_truncate_after_def range_truncate_after_def range_contains_def)
  moreover from this have "\<exists>l v'. index_get_lsn idx 6 = Ok (Some l) \<and> H v' = Some l \<and> v' \<le> 6 \<and> 6 - unat v' < 2"
    using vlsn_lookup_correct [OF s sorts_by_sort_key, of 6 ?p None] by simp
  ultimately show ?thesis using s by blast
qed

end
