(* ===== verification/Vlsn_Persist.thy ===== *)
theory Vlsn_Persist
  imports Vlsn_Index Util_Lsn
begin

text \<open>
  The file of the index from sequence numbers to log positions
  (\<open>crates/noxu-rep/src/vlsn/persist.rs\<close>).  The checksum is the argument \<open>crc\<close>, since it comes from a
  library; a flush takes how the replacement of the file ended as an argument, and the file
  is its content, if there is one.
\<close>

section \<open>Writing\<close>

definition VIDX_MAGIC :: bytes where
  "VIDX_MAGIC = [0x56, 0x49, 0x44, 0x58]"

definition VIDX_VERSION :: u16 where
  "VIDX_VERSION = 1"

definition HEADER_LEN :: nat where
  "HEADER_LEN = 32"

datatype VlsnPersistError =
    Io
  | BadMagic bytes
  | BadVersion u16
  | Truncated nat nat
  | BadChecksum u32 u32

fun entry_bytes :: "u64 \<times> lsn \<Rightarrow> bytes" where
  "entry_bytes (v, f, off) = le_bytes 8 v @ le_bytes 4 f @ le_bytes 4 off"

definition file_header :: "u32 \<Rightarrow> nat \<Rightarrow> u64 \<Rightarrow> u64 \<Rightarrow> bytes" where
  "file_header s entry_count f l =
     VIDX_MAGIC @ le_bytes 2 VIDX_VERSION @ le_bytes 4 s @ le_bytes 4 (of_nat entry_count :: u32)
     @ le_bytes 4 (ucast f :: u32) @ le_bytes 4 (ucast (drop_bit 32 f) :: u32)
     @ le_bytes 4 (ucast l :: u32) @ le_bytes 4 (ucast (drop_bit 32 l) :: u32) @ [0, 0]"

definition file_body :: "u32 \<Rightarrow> (u64 \<times> lsn) list \<Rightarrow> u64 \<Rightarrow> u64 \<Rightarrow> bytes" where
  "file_body s entries f l = file_header s (length entries) f l @ concat (map entry_bytes entries)"

definition file_bytes :: "(bytes \<Rightarrow> u32) \<Rightarrow> u32 \<Rightarrow> (u64 \<times> lsn) list \<Rightarrow> u64 \<Rightarrow> u64 \<Rightarrow> bytes" where
  "file_bytes crc s entries f l = file_body s entries f l @ le_bytes 4 (crc (file_body s entries f l))"

definition write_file ::
  "flush_outcome \<Rightarrow> bytes \<Rightarrow> nat \<Rightarrow> bytes option \<Rightarrow> bytes option \<times> (VlsnPersistError + u32)" where
  "write_file io bs written file =
     (case io of
        FlushOk \<Rightarrow> (Some bs, Ok (of_nat written))
      | FlushFailed \<Rightarrow> (file, Err Io)
      | FlushFailedAfterRename \<Rightarrow> (Some bs, Err Io))"

definition flush_to_disk ::
  "(bytes \<Rightarrow> u32) \<Rightarrow> ((u64 \<times> lsn) list \<Rightarrow> (u64 \<times> lsn) list) \<Rightarrow> flush_outcome \<Rightarrow> VlsnIndex \<Rightarrow> bytes option \<Rightarrow>
     bytes option \<times> (VlsnPersistError + u32)" where
  "flush_to_disk crc srt io idx file =
     (let entries = snapshot_entries srt idx;
          r = vrange idx
      in write_file io (file_bytes crc (bucket_stride idx) entries (range_first r) (range_last r)) (length entries) file)"

text \<open>The entries at or before a position; comparing with the null position panics.\<close>

fun cap_entries :: "Lsn \<Rightarrow> (u64 \<times> lsn) list \<Rightarrow> panic + (u64 \<times> lsn) list" where
  "cap_entries cap [] = Ok []"
| "cap_entries cap ((v, f, off) # es) =
     and_then (Lsn_cmp (Lsn_new f off) cap) (\<lambda>c.
     and_then (cap_entries cap es) (\<lambda>es'.
     Ok (if c = Greater then es' else (v, f, off) # es')))"

definition flush_to_disk_capped ::
  "(bytes \<Rightarrow> u32) \<Rightarrow> ((u64 \<times> lsn) list \<Rightarrow> (u64 \<times> lsn) list) \<Rightarrow> flush_outcome \<Rightarrow> VlsnIndex \<Rightarrow> Lsn \<Rightarrow> bytes option \<Rightarrow>
     panic + bytes option \<times> (VlsnPersistError + u32)" where
  "flush_to_disk_capped crc srt io idx cap_lsn file =
     (if cap_lsn = NULL_LSN then Ok (file, Ok 0)
      else
        and_then (cap_entries cap_lsn (snapshot_entries srt idx)) (\<lambda>capped.
          if capped = [] then Ok (file, Ok 0)
          else
            Ok (write_file io
                  (file_bytes crc (bucket_stride idx) capped (fst (hd capped)) (fst (last capped)))
                  (length capped) file)))"

section \<open>Reading\<close>

fun load_entries ::
  "(VlsnBucket list \<Rightarrow> VlsnBucket list) \<Rightarrow> bytes \<Rightarrow> nat \<Rightarrow> nat \<Rightarrow> VlsnIndex \<Rightarrow> panic + VlsnIndex" where
  "load_entries srt bs off 0 idx = Ok idx"
| "load_entries srt bs off (Suc n) idx =
     (let v = from_le_bytes (slice bs off (off + 8)) :: u64;
          file_no = from_le_bytes (slice bs (off + 8) (off + 12));
          offset = from_le_bytes (slice bs (off + 12) (off + 16))
      in and_then (if v \<noteq> 0 then index_put srt v (file_no, offset) idx else Ok idx)
           (load_entries srt bs (off + 16) n))"

text \<open>A panic is the outer error, an error that is returned the inner one.\<close>

definition index_load_from_disk ::
  "(bytes \<Rightarrow> u32) \<Rightarrow> (VlsnBucket list \<Rightarrow> VlsnBucket list) \<Rightarrow> bool \<Rightarrow> bytes option \<Rightarrow>
     panic + (VlsnPersistError + VlsnIndex option)" where
  "index_load_from_disk crc srt readable file =
     (case file of None \<Rightarrow> Ok (Ok None)
      | Some bs \<Rightarrow>
        if \<not> readable then Ok (Err Io)
        else if length bs < HEADER_LEN + 4 then Ok (Err (Truncated (HEADER_LEN + 4) (length bs)))
        else
          let body_end = length bs - 4;
              stored_crc = from_le_bytes (drop body_end bs);
              computed_crc = crc (take body_end bs)
          in if stored_crc \<noteq> computed_crc then Ok (Err (BadChecksum stored_crc computed_crc))
          else if slice bs 0 4 \<noteq> VIDX_MAGIC then Ok (Err (BadMagic (slice bs 0 4)))
          else
            let version = from_le_bytes (slice bs 4 6)
            in if version \<noteq> VIDX_VERSION then Ok (Err (BadVersion version))
            else
              let s = from_le_bytes (slice bs 6 10) :: u32;
                  entry_count = unat (from_le_bytes (slice bs 10 14) :: u32);
                  want = HEADER_LEN + entry_count * 16 + 4
              in if length bs < want then Ok (Err (Truncated want (length bs)))
                 else
                   and_then (VlsnIndex_new (if s = 0 then 10 else s)) (\<lambda>index.
                   and_then (load_entries srt bs HEADER_LEN entry_count index) (\<lambda>index'.
                   Ok (Ok (Some index')))))"

section \<open>Round trip of the file\<close>

fun put_all :: "(VlsnBucket list \<Rightarrow> VlsnBucket list) \<Rightarrow> (u64 \<times> lsn) list \<Rightarrow> VlsnIndex \<Rightarrow> panic + VlsnIndex" where
  "put_all srt [] idx = Ok idx"
| "put_all srt ((v, p) # es) idx = and_then (index_put srt v p idx) (put_all srt es)"

lemma length_entry_bytes [simp]: "length (entry_bytes e) = 16"
  by (cases e rule: entry_bytes.cases) simp

lemma length_entries [simp]: "length (concat (map entry_bytes es)) = length es * 16"
  by (induction es) simp_all

lemma length_file_header [simp]: "length (file_header s c f l) = HEADER_LEN"
  by (simp add: file_header_def VIDX_MAGIC_def HEADER_LEN_def)

lemma load_entries_put_all:
  assumes "0 \<notin> fst ` set es"
  shows "load_entries srt (pre @ concat (map entry_bytes es) @ post) (length pre) (length es) idx = put_all srt es idx"
  using assms
proof (induction es arbitrary: pre idx)
  case (Cons e es)
  obtain v f off where e: "e = (v, f, off)" by (cases e) auto
  let ?bs = "pre @ concat (map entry_bytes (e # es)) @ post"
  have "slice ?bs (length pre) (length pre + 8) = le_bytes 8 v"
    "slice ?bs (length pre + 8) (length pre + 12) = le_bytes 4 f"
    "slice ?bs (length pre + 12) (length pre + 16) = le_bytes 4 off"
    by (simp_all add: e slice_def)
  moreover have "?bs = (pre @ entry_bytes e) @ concat (map entry_bytes es) @ post" by simp
  moreover have "length (pre @ entry_bytes e) = length pre + 16" by simp
  ultimately have "load_entries srt ?bs (length pre) (length (e # es)) idx =
      and_then (index_put srt v (f, off) idx) (load_entries srt ((pre @ entry_bytes e) @ concat (map entry_bytes es) @ post)
        (length (pre @ entry_bytes e)) (length es))"
    using Cons.prems by (simp add: e Let_def)
  also have "\<dots> = and_then (index_put srt v (f, off) idx) (put_all srt es)"
    using Cons.IH [of "pre @ entry_bytes e"] Cons.prems by (cases "index_put srt v (f, off) idx") auto
  finally show ?case by (simp add: e)
qed simp

lemma load_file_bytes:
  assumes "0 \<notin> fst ` set es" "length es < 2 ^ 32" "s \<noteq> 0"
  shows "index_load_from_disk crc srt True (Some (file_bytes crc s es f l)) =
    and_then (VlsnIndex_new s) (\<lambda>idx. and_then (put_all srt es idx) (\<lambda>idx'. Ok (Ok (Some idx'))))"
proof -
  define bs where "bs = file_bytes crc s es f l"
  have len: "length bs = HEADER_LEN + length es * 16 + 4" by (simp add: bs_def file_bytes_def file_body_def)
  have body: "take (length bs - 4) bs = file_body s es f l" "drop (length bs - 4) bs = le_bytes 4 (crc (file_body s es f l))"
    by (simp_all add: bs_def file_bytes_def)
  have fields: "slice bs 0 4 = VIDX_MAGIC" "slice bs 4 6 = le_bytes 2 VIDX_VERSION" "slice bs 6 10 = le_bytes 4 s"
    "slice bs 10 14 = le_bytes 4 (of_nat (length es) :: u32)"
    by (simp_all add: bs_def file_bytes_def file_body_def file_header_def slice_def VIDX_MAGIC_def)
  have count: "unat (of_nat (length es) :: u32) = length es" using assms(2) by (simp add: unat_of_nat)
  have "load_entries srt bs HEADER_LEN (length es) = put_all srt es"
  proof
    fix idx
    show "load_entries srt bs HEADER_LEN (length es) idx = put_all srt es idx"
      using load_entries_put_all [OF assms(1), of srt "file_header s (length es) f l" _ idx]
      by (simp add: bs_def file_bytes_def file_body_def)
  qed
  then show ?thesis
    unfolding index_load_from_disk_def bs_def [symmetric] option.case Let_def body fields
    using assms(3) len by (simp add: count)
qed

section \<open>Restarts\<close>

text \<open>The entries of a bucket with nothing left over: its slots, and the last number.\<close>

definition slot_entries :: "VlsnBucket \<Rightarrow> nat \<Rightarrow> (u64 \<times> lsn) list" where
  "slot_entries b k = map (\<lambda>i. (of_nat (slot b i), offsets b ! i)) [0..<k]"

definition last_entry :: "VlsnBucket \<Rightarrow> (u64 \<times> lsn) list" where
  "last_entry b = (if is_modulo b (last_vlsn b) then [] else [(last_vlsn b, the (last_lsn b))])"

lemma exact_slot:
  assumes "bucket_covers H n b" "bucket_exact n b" "i < length (offsets b)"
  shows "slot b i < n" "unat (of_nat (slot b i) :: u64) = slot b i" "of_nat (slot b i) \<le> last_vlsn b"
    "offsets b ! i \<noteq> NO_OFFSET" "H (of_nat (slot b i)) = Some (offsets b ! i)" "of_nat (slot b i) \<noteq> (0 :: u64)"
proof -
  show lt: "slot b i < n" using assms(2,3) by (simp add: bucket_exact_def)
  note at = covers_slot [OF assms(1) lt]
  show u: "unat (of_nat (slot b i) :: u64) = slot b i" by (rule at(4))
  show "offsets b ! i \<noteq> NO_OFFSET" "H (of_nat (slot b i)) = Some (offsets b ! i)" by (rule at(2), rule at(3))
  have "unat (last_vlsn b) + 1 = n" using assms(2) by (simp add: bucket_exact_def)
  then show "of_nat (slot b i) \<le> last_vlsn b" using lt u by (simp add: word_le_nat_alt)
  have "0 < first_vlsn b" using assms(1) by (simp add: bucket_covers_def)
  then have "0 < slot b i" by (simp add: slot_def word_less_nat_alt)
  then show "of_nat (slot b i) \<noteq> (0 :: u64)" using u by (metis less_irrefl unat_0)
qed

lemma append_loop_exact:
  assumes "bucket_covers H n b" "bucket_exact n b" "k \<le> length (offsets b)"
  shows "append_loop b k (drop k (offsets b)) = map (\<lambda>i. (of_nat (slot b i), offsets b ! i)) [k..<length (offsets b)]"
  using assms(3)
proof (induction "length (offsets b) - k" arbitrary: k)
  case (Suc m)
  then have k: "k < length (offsets b)" by simp
  have v: "first_vlsn b + of_nat k * stride64 b = of_nat (slot b k)" by (simp add: slot_def stride64_def)
  have "append_loop b (k + 1) (drop (k + 1) (offsets b)) =
      map (\<lambda>i. (of_nat (slot b i), offsets b ! i)) [k + 1..<length (offsets b)]"
    using Suc by (intro Suc.hyps(1)) auto
  moreover have "drop k (offsets b) = offsets b ! k # drop (k + 1) (offsets b)" using Cons_nth_drop_Suc [OF k] by simp
  ultimately show ?case
    using exact_slot(3,4) [OF assms(1,2) k] k by (simp add: v upt_conv_Cons)
qed simp

lemma append_entries_exact:
  assumes "bucket_covers H n b" "bucket_exact n b"
  shows "append_entries b = slot_entries b (length (offsets b)) @ last_entry b"
proof -
  obtain l where "last_lsn b = Some l" using covers_last [OF assms(1)] assms(2) by (auto simp: bucket_exact_def)
  then show ?thesis
    using append_loop_exact [OF assms, of 0]
    by (simp add: append_entries_def slot_entries_def last_entry_def is_modulo_def)
qed

lemma entries_strict:
  assumes "bucket_covers H n b" "bucket_exact n b"
  shows "sorted_wrt (<) (map fst (append_entries b))" "0 \<notin> fst ` set (append_entries b)"
proof -
  let ?k = "length (offsets b)"
  have s: "0 < stride b" and f: "0 < first_vlsn b" and n: "unat (last_vlsn b) + 1 = n"
    using assms by (auto simp: bucket_covers_def bucket_exact_def)
  have "(of_nat (slot b i) :: u64) < of_nat (slot b j)" if "i < j" "j < ?k" for i j
    using exact_slot(2) [OF assms, of i] exact_slot(2) [OF assms, of j] that slot_less_iff [OF s, of i j]
    by (simp add: word_less_nat_alt)
  then have slots: "sorted_wrt (<) (map fst (slot_entries b ?k))"
    by (auto simp: slot_entries_def sorted_wrt_iff_nth_less)
  have le: "first_vlsn b \<le> last_vlsn b" using assms(1) n by (simp add: bucket_covers_def word_le_nat_alt)
  have "(of_nat (slot b i) :: u64) < last_vlsn b" if m: "\<not> is_modulo b (last_vlsn b)" and i: "i < ?k" for i
  proof -
    have "slot b i \<noteq> unat (last_vlsn b)"
      using m is_modulo_iff [OF le] get_index_slot [OF _ le s] by metis
    then have "of_nat (slot b i) \<noteq> last_vlsn b" using exact_slot(2) [OF assms i] by auto
    then show ?thesis using exact_slot(3) [OF assms i] by simp
  qed
  then show "sorted_wrt (<) (map fst (append_entries b))"
    using slots unfolding append_entries_exact [OF assms]
    by (auto simp: sorted_wrt_append last_entry_def slot_entries_def)
  show "0 \<notin> fst ` set (append_entries b)"
    using exact_slot(6) [OF assms] f le unfolding append_entries_exact [OF assms]
    by (auto simp: slot_entries_def last_entry_def)
qed

lemma dedup_strict: "sorted_wrt (<) (map fst xs) \<Longrightarrow> dedup_by_fst (xs :: ('a::order \<times> 'b) list) = xs"
  by (induction xs rule: dedup_by_fst.induct) auto

lemma sorts_by_strict:
  assumes "sorts_by key srt" "sorted_wrt (<) (map key xs)"
  shows "srt xs = xs"
proof -
  have m: "mset (srt xs) = mset xs" and sd: "sorted (map key (srt xs))" using assms(1) by (auto simp: sorts_by_def)
  have x: "sorted (map key xs)" "distinct (map key xs)"
    using assms(2) by (auto simp: strict_sorted_iff)
  have "mset (map key (srt xs)) = mset (map key xs)" using m by simp
  then have "distinct (map key (srt xs))" using x(2) by (metis mset_eq_imp_distinct_iff)
  moreover have st: "set (srt xs) = set xs" using m by (metis set_mset_mset)
  moreover have "inj_on key (set xs)" using x(2) by (simp add: distinct_map)
  ultimately show ?thesis using x sd by (intro map_sorted_distinct_set_unique [of key]) auto
qed

lemma snapshot_exact:
  assumes "buckets idx = [b]" "bucket_covers H n b" "bucket_exact n b" "sorts_by fst srt"
  shows "snapshot_entries srt idx = append_entries b"
  using sorts_by_strict [OF assms(4) entries_strict(1) [OF assms(2,3)]] dedup_strict [OF entries_strict(1) [OF assms(2,3)]]
  by (simp add: snapshot_entries_def assms(1))

text \<open>The index after the first \<open>j + 1\<close> slots have been registered again.\<close>

definition rebuilt_bucket :: "VlsnBucket \<Rightarrow> nat \<Rightarrow> VlsnBucket" where
  "rebuilt_bucket b j = b\<lparr>offsets := take (Suc j) (offsets b), last_vlsn := of_nat (slot b j),
     last_lsn := Some (offsets b ! j)\<rparr>"

definition rebuilt_index :: "VlsnBucket \<Rightarrow> VlsnBucket \<Rightarrow> VlsnIndex" where
  "rebuilt_index b b' = \<lparr> vrange = \<lparr> range_first = first_vlsn b, range_last = last_vlsn b', commit_vlsn = 0, sync_vlsn = 0 \<rparr>,
     buckets = [b'], bucket_stride = stride b \<rparr>"

lemma put_all_append: "put_all srt (xs @ ys) idx = and_then (put_all srt xs idx) (put_all srt ys)"
proof (induction xs arbitrary: idx)
  case (Cons x xs)
  then show ?case by (cases x; cases "index_put srt (fst x) (snd x) idx") auto
qed simp

lemma bucket_put_append:
  assumes "first_vlsn b \<le> v" "is_modulo b v" "get_index b v = length (offsets b)" "last_vlsn b \<le> v"
  shows "bucket_put v p b = (b\<lparr>offsets := offsets b @ [p], last_vlsn := v, last_lsn := Some p\<rparr>, True)"
  using assms by (simp add: bucket_put_def Let_def not_less [symmetric])

lemma bucket_put_between:
  assumes "first_vlsn b \<le> v" "\<not> is_modulo b v" "last_vlsn b \<le> v"
  shows "bucket_put v p b = (b\<lparr>last_vlsn := v, last_lsn := Some p\<rparr>, True)"
  using assms by (simp add: bucket_put_def Let_def not_less [symmetric])

lemma index_put_rebuilt:
  assumes "0 < first_vlsn b" "first_vlsn b \<le> last_vlsn b'" "last_vlsn b' < v" "bucket_put v p b' = (b'', True)"
    "last_vlsn b'' = v"
  shows "index_put srt v p (rebuilt_index b b') = Ok (rebuilt_index b b'')"
proof -
  have v: "v \<noteq> 0" "\<not> v < first_vlsn b" "first_vlsn b \<noteq> 0" using assms(1-3) by auto
  have "range_extend (vrange (rebuilt_index b b')) v = Ok (vrange (rebuilt_index b b''))"
    using v assms(3,5) by (simp add: range_extend_def rebuilt_index_def)
  moreover have "insert_last (buckets (rebuilt_index b b')) v p = ([b''], True)"
    using assms(3,4) by (simp add: insert_last_def rebuilt_index_def)
  ultimately show ?thesis using v(1) by (simp add: index_put_def index_insert_def, simp add: rebuilt_index_def)
qed

lemma put_all_slots:
  assumes "bucket_covers H n b" "bucket_exact n b" "sorts_by first_vlsn srt" "VlsnIndex_new (stride b) = Ok idx"
    "j < length (offsets b)"
  shows "put_all srt (slot_entries b (Suc j)) idx = Ok (rebuilt_index b (rebuilt_bucket b j))"
  using assms(5)
proof (induction j)
  case 0
  have f: "first_vlsn b \<noteq> 0" "stride b \<noteq> 0" using assms(1) by (auto simp: bucket_covers_def)
  have v: "of_nat (slot b 0) = first_vlsn b" by (simp add: slot_def)
  have t: "take (Suc 0) (offsets b) = [offsets b ! 0]" using 0 by (simp add: take_Suc_conv_app_nth)
  show ?case
    using f v t assms(4) sorts_by_singleton [OF assms(3)]
    by (auto simp: slot_entries_def index_put_def index_insert_def insert_last_def VlsnIndex_new_def VlsnBucket_new_def
        bucket_put_def is_modulo_def get_index_def range_extend_def VlsnRange_new_def rebuilt_index_def
        rebuilt_bucket_def word_gt_0)
next
  case (Suc j)
  let ?v = "of_nat (slot b (Suc j)) :: u64" and ?b = "rebuilt_bucket b j"
  have s: "0 < stride b" "0 < first_vlsn b" using assms(1) by (simp_all add: bucket_covers_def)
  have j: "j < length (offsets b)" using Suc.prems by simp
  note at = exact_slot [OF assms(1,2) Suc.prems] and at_j = exact_slot [OF assms(1,2) j]
  have slot: "slot ?b = slot b" by (rule ext) (simp add: rebuilt_bucket_def slot_def)
  have lt: "last_vlsn ?b < ?v"
    using at(2) at_j(2) slot_less_iff [OF s(1), of j "Suc j"] by (simp add: rebuilt_bucket_def word_less_nat_alt)
  have first: "first_vlsn ?b \<le> ?v" "first_vlsn b \<le> last_vlsn ?b"
    using at(2) at_j(2) by (simp_all add: rebuilt_bucket_def word_le_nat_alt slot_def)
  have i: "get_index ?b ?v = Suc j"
    using at(2) s by (intro get_index_slot [OF _ first(1)]) (simp_all add: slot, simp add: rebuilt_bucket_def)
  then have m: "is_modulo ?b ?v" using is_modulo_iff [OF first(1)] at(2) by (simp add: slot)
  have "length (offsets ?b) = Suc j" using j by (simp add: rebuilt_bucket_def)
  then have "bucket_put ?v (offsets b ! Suc j) ?b = (rebuilt_bucket b (Suc j), True)"
    using bucket_put_append [OF first(1) m _ less_imp_le [OF lt]] i Suc.prems
    by (simp, simp add: rebuilt_bucket_def take_Suc_conv_app_nth)
  then have "index_put srt ?v (offsets b ! Suc j) (rebuilt_index b ?b) = Ok (rebuilt_index b (rebuilt_bucket b (Suc j)))"
    by (intro index_put_rebuilt [OF s(2) first(2) lt]) (simp_all add: rebuilt_bucket_def)
  moreover have "slot_entries b (Suc (Suc j)) = slot_entries b (Suc j) @ [(?v, offsets b ! Suc j)]"
    by (simp add: slot_entries_def)
  ultimately show ?case using Suc.IH [OF j] by (simp add: put_all_append)
qed

lemma put_all_exact:
  assumes "bucket_covers H n b" "bucket_exact n b" "sorts_by first_vlsn srt" "VlsnIndex_new (stride b) = Ok idx"
  shows "put_all srt (append_entries b) idx = Ok (rebuilt_index b b)"
proof -
  have s: "0 < stride b" "0 < first_vlsn b" and n: "unat (last_vlsn b) + 1 = n" "slot b 0 < n"
    using assms(1,2) by (auto simp: bucket_covers_def bucket_exact_def slot_def)
  have "0 < length (offsets b)" using covers_slot(1) [OF assms(1) n(2)] .
  then obtain j where j: "length (offsets b) = Suc j" by (cases "length (offsets b)") auto
  let ?b = "rebuilt_bucket b j" and ?l = "last_vlsn b"
  have jl: "j < length (offsets b)" using j by simp
  note at = exact_slot [OF assms(1,2) jl]
  have slots: "put_all srt (slot_entries b (Suc j)) idx = Ok (rebuilt_index b ?b)"
    by (rule put_all_slots [OF assms jl])
  have le: "first_vlsn b \<le> ?l" using assms(1) n(1) by (simp add: bucket_covers_def word_le_nat_alt)
  obtain p where p: "last_lsn b = Some p" "H ?l = Some p" using covers_last(2) [OF assms(1)] n(1) by auto
  have offs: "take (Suc j) (offsets b) = offsets b" using j by simp
  show ?thesis
  proof (cases "is_modulo b ?l")
    case True
    then have g: "slot b (get_index b ?l) = unat ?l" using is_modulo_iff [OF le] by blast
    then have "slot b (get_index b ?l) < n" using n(1) by simp
    then have "get_index b ?l < Suc j" using covers_slot(1) [OF assms(1)] j by metis
    moreover have "slot b j \<le> slot b (get_index b ?l)" using g at(1) n(1) by simp
    then have "\<not> get_index b ?l < j" using slot_less_iff [OF s(1)] by (metis not_le)
    ultimately have "get_index b ?l = j" by simp
    then have e: "of_nat (slot b j) = ?l" using g by simp
    then have "offsets b ! j = p" using at(5) p(2) by simp
    then have "?b = b" using e offs p(1) by (simp add: rebuilt_bucket_def)
    then show ?thesis using slots True by (simp add: append_entries_exact [OF assms(1,2)] j last_entry_def)
  next
    case False
    have "slot b j \<noteq> unat ?l" using False is_modulo_iff [OF le] get_index_slot [OF _ le s(1)] by metis
    then have "of_nat (slot b j) \<noteq> ?l" using at(2) by auto
    then have lt: "last_vlsn ?b < ?l" using at(3) by (simp add: rebuilt_bucket_def)
    have first: "first_vlsn b \<le> last_vlsn ?b" using at(2) by (simp add: rebuilt_bucket_def word_le_nat_alt slot_def)
    have "\<not> is_modulo ?b ?l" using False by (simp add: is_modulo_def rebuilt_bucket_def stride64_def)
    then have "bucket_put ?l p ?b = (b, True)"
      using bucket_put_between [OF _ _ less_imp_le [OF lt]] le offs p(1) by (simp add: rebuilt_bucket_def)
    then have "index_put srt ?l p (rebuilt_index b ?b) = Ok (rebuilt_index b b)"
      by (intro index_put_rebuilt [OF s(2) first lt]) simp_all
    then show ?thesis
      using slots False p(1) by (simp add: append_entries_exact [OF assms(1,2)] j last_entry_def put_all_append)
  qed
qed

lemma cap_entries_filter:
  assumes "cap \<noteq> NULL_LSN" "\<forall>(v, f, off) \<in> set es. Lsn_new f off \<noteq> NULL_LSN"
  shows "cap_entries cap es = Ok (filter (\<lambda>(v, f, off). as_u64 (Lsn_new f off) \<le> as_u64 cap) es)"
  using assms(2)
proof (induction es)
  case (Cons e es)
  obtain v f off where e: "e = (v, f, off)" by (cases e) auto
  have "Lsn_cmp (Lsn_new f off) cap = Ok (cmp (as_u64 (Lsn_new f off)) (as_u64 cap))"
    using assms(1) Cons.prems by (intro Lsn_cmp_raw) (auto simp: e)
  then show ?case using Cons by (auto simp: e not_less)
qed simp

lemma flush_then_load:
  assumes "s \<noteq> 0" "bucket_stride idx = s" "0 \<notin> fst ` set (snapshot_entries esrt idx)" "length (snapshot_entries esrt idx) < 2 ^ 32"
  shows "index_load_from_disk crc bsrt True (fst (flush_to_disk crc esrt FlushOk idx disk)) =
    and_then (VlsnIndex_new s) (\<lambda>i. and_then (put_all bsrt (snapshot_entries esrt idx) i) (\<lambda>i'. Ok (Ok (Some i'))))"
  using load_file_bytes [OF assms(3,4,1)] by (simp add: flush_to_disk_def write_file_def Let_def assms(2))

lemma restarted_index:
  assumes inv: "index_inv False H n idx" and srt: "sorts_by first_vlsn bsrt" "sorts_by fst esrt"
    and len: "length (snapshot_entries esrt idx) < 2 ^ 32"
  obtains idx' where "index_load_from_disk crc bsrt True (fst (flush_to_disk crc esrt FlushOk idx disk)) = Ok (Ok (Some idx'))"
    "buckets idx' = buckets idx" "bucket_stride idx' = bucket_stride idx" "sync_vlsn (vrange idx') = 0"
    "commit_vlsn (vrange idx') = 0"
    "buckets idx \<noteq> [] \<Longrightarrow> range_first (vrange idx') = first_vlsn (hd (buckets idx))"
    "\<not> range_is_empty (vrange idx) \<Longrightarrow> range_last (vrange idx') = range_last (vrange idx)"
proof -
  have s: "bucket_stride idx \<noteq> 0" using inv by (auto simp: index_inv_def)
  then have new: "VlsnIndex_new (bucket_stride idx) = Ok \<lparr> vrange = VlsnRange_new, buckets = [], bucket_stride = bucket_stride idx \<rparr>"
    by (simp add: VlsnIndex_new_def)
  show thesis
  proof (cases "buckets idx = []")
    case True
    have "esrt [] = []" using srt(2) by (metis mset_zero_iff sorts_by_def mset.simps(1))
    then have "snapshot_entries esrt idx = []" by (simp add: snapshot_entries_def True)
    then have "index_load_from_disk crc bsrt True (fst (flush_to_disk crc esrt FlushOk idx disk)) =
        Ok (Ok (Some \<lparr> vrange = VlsnRange_new, buckets = [], bucket_stride = bucket_stride idx \<rparr>))"
      using flush_then_load [OF s refl, of esrt] len new by simp
    then show thesis
      using that index_inv_none [OF inv True] True by (simp add: VlsnRange_new_def)
  next
    case False
    then obtain b where b: "buckets idx = [b]" "bucket_covers H n b" "stride b = bucket_stride idx" "bucket_exact n b"
      using index_inv_one [OF inv] by blast
    note snap = snapshot_exact [OF b(1,2,4) srt(2)]
    have "put_all bsrt (snapshot_entries esrt idx) \<lparr> vrange = VlsnRange_new, buckets = [], bucket_stride = bucket_stride idx \<rparr> =
        Ok (rebuilt_index b b)"
      unfolding snap using new b(3) by (intro put_all_exact [OF b(2,4) srt(1)]) simp
    then have "index_load_from_disk crc bsrt True (fst (flush_to_disk crc esrt FlushOk idx disk)) = Ok (Ok (Some (rebuilt_index b b)))"
      using flush_then_load [OF s refl, of esrt] entries_strict(2) [OF b(2,4)] len new by (simp add: snap)
    moreover have "last_vlsn b = range_last (vrange idx)" if "\<not> range_is_empty (vrange idx)"
    proof -
      have "unat (range_last (vrange idx)) + 1 = n" using inv that unfolding index_inv_def by blast
      then show ?thesis using b(4) by (simp add: bucket_exact_def word_unat_eq_iff)
    qed
    ultimately show thesis using that [of "rebuilt_index b b"] b(1,3) by (simp add: rebuilt_index_def)
  qed
qed

text \<open>A stream of three numbers, for examples.\<close>

definition example_index :: VlsnIndex where
  "example_index = \<lparr> vrange = \<lparr> range_first = 1, range_last = 3, commit_vlsn = 0, sync_vlsn = 0 \<rparr>,
     buckets = [\<lparr> first_vlsn = 1, last_vlsn = 3, stride = 2, offsets = [(0, 100), (0, 300)], last_lsn = Some (0, 300) \<rparr>],
     bucket_stride = 2 \<rparr>"

lemmas registration_eval = NO_OFFSET_def index_insert_def insert_last_def VlsnBucket_new_def bucket_owns_def bucket_put_def
  is_modulo_def get_index_def stride64_def range_extend_def VlsnRange_new_def

lemma example_stream:
  "vlsn_stream (sort_key first_vlsn) rollbacks example_index (Map.empty(1 \<mapsto> (0, 100), 2 \<mapsto> (0, 200), 3 \<mapsto> (0, 300))) 4"
proof -
  let ?S = "vlsn_stream (sort_key first_vlsn) rollbacks"
  let ?i = "\<lambda>l os p. \<lparr> vrange = \<lparr> range_first = 1, range_last = l, commit_vlsn = 0, sync_vlsn = 0 \<rparr>,
     buckets = [\<lparr> first_vlsn = 1, last_vlsn = l, stride = 2, offsets = os, last_lsn = Some p \<rparr>], bucket_stride = 2 \<rparr>"
  have "?S \<lparr> vrange = VlsnRange_new, buckets = [], bucket_stride = 2 \<rparr> Map.empty 1"
    by (rule vlsn_stream.start [where s = 2]) (simp_all add: VlsnIndex_new_def)
  then have "?S (?i 1 [(0, 100)] (0, 100)) (Map.empty(1 \<mapsto> (0, 100))) (1 + 1)"
    by (rule vlsn_stream.register [where et = None]) (simp_all add: registration_eval)
  then have "?S (?i 2 [(0, 100)] (0, 200)) (Map.empty(1 \<mapsto> (0, 100), 2 \<mapsto> (0, 200))) (1 + 1 + 1)"
    by (rule vlsn_stream.register [where et = None]) (simp_all add: registration_eval)
  then have "?S (?i 3 [(0, 100), (0, 300)] (0, 300)) (Map.empty(1 \<mapsto> (0, 100), 2 \<mapsto> (0, 200), 3 \<mapsto> (0, 300))) (1 + 1 + 1 + 1)"
    by (rule vlsn_stream.register [where et = None]) (simp_all add: registration_eval)
  then show ?thesis by (simp add: example_index_def eval_nat_numeral)
qed

lemma example_entries:
  "buckets idx = buckets example_index \<Longrightarrow> snapshot_entries (sort_key fst) idx = [(1, 0, 100), (3, 0, 300)]"
  by (simp add: snapshot_entries_def append_entries_def example_index_def NO_OFFSET_def stride64_def)

text \<open>
  C38. A restart: the file that a flush writes for the index of a stream without rollbacks is loaded
  again without an error, whatever the checksum function, and gives an index with the same buckets
  and the same last number, in which every number of the range is found as before.  The file
  does not carry the rest of the range: the synchronisation point and the last
  transaction end are lost, and the range starts at the first slot, before its old start when
  the head had been deleted.  A flush that fails before the rename leaves the old file.
\<close>

theorem vlsn_index_survives_restart:
  assumes "vlsn_stream bsrt False idx H n" "sorts_by first_vlsn bsrt" "sorts_by fst esrt"
    "length (snapshot_entries esrt idx) < 2 ^ 32"
  shows "(\<exists>idx'. index_load_from_disk crc bsrt True (fst (flush_to_disk crc esrt FlushOk idx disk)) = Ok (Ok (Some idx')) \<and>
       buckets idx' = buckets idx \<and> bucket_stride idx' = bucket_stride idx \<and>
       sync_vlsn (vrange idx') = 0 \<and> commit_vlsn (vrange idx') = 0 \<and>
       (buckets idx \<noteq> [] \<longrightarrow> range_first (vrange idx') = first_vlsn (hd (buckets idx))) \<and>
       (\<forall>v. range_contains (vrange idx) v \<longrightarrow> range_contains (vrange idx') v \<and> get_latest_vlsn idx' = get_latest_vlsn idx \<and>
          index_get_lsn idx' v = index_get_lsn idx v \<and> index_get_exact_lsn idx' v = index_get_exact_lsn idx v \<and>
          index_get_gte_lsn idx' v = index_get_gte_lsn idx v)) \<and>
     flush_to_disk crc esrt FlushFailed idx disk = (disk, Err Io)"
proof -
  have inv: "index_inv False H n idx" by (rule vlsn_stream_inv [OF assms(1,2)])
  obtain idx' where i: "index_load_from_disk crc bsrt True (fst (flush_to_disk crc esrt FlushOk idx disk)) = Ok (Ok (Some idx'))"
    "buckets idx' = buckets idx" "bucket_stride idx' = bucket_stride idx" "sync_vlsn (vrange idx') = 0"
    "commit_vlsn (vrange idx') = 0"
    "buckets idx \<noteq> [] \<Longrightarrow> range_first (vrange idx') = first_vlsn (hd (buckets idx))"
    "\<not> range_is_empty (vrange idx) \<Longrightarrow> range_last (vrange idx') = range_last (vrange idx)"
    by (rule restarted_index [OF inv assms(2-4), where crc = crc and disk = disk]) blast
  have same: "range_contains (vrange idx') v \<and> get_latest_vlsn idx' = get_latest_vlsn idx \<and>
      index_get_lsn idx' v = index_get_lsn idx v \<and> index_get_exact_lsn idx' v = index_get_exact_lsn idx v \<and>
      index_get_gte_lsn idx' v = index_get_gte_lsn idx v" if v: "range_contains (vrange idx) v" for v
  proof -
    obtain b where b: "buckets idx = [b]" "bucket_covers H n b" "first_vlsn b \<le> v"
      using index_inv_contains [OF inv v] by metis
    have r: "\<not> range_is_empty (vrange idx)" "v \<le> range_last (vrange idx)"
      using v by (simp_all add: range_contains_iff range_is_empty_def)
    have f: "range_first (vrange idx') = first_vlsn b" "first_vlsn b \<noteq> 0" using i(6) b(1,2) by (auto simp: bucket_covers_def)
    then have "range_contains (vrange idx') v" using i(7) r b(3) by (simp add: range_contains_iff)
    then show ?thesis
      using v i(7) [OF r(1)] r f
      unfolding index_get_lsn_def index_get_exact_lsn_def index_get_gte_lsn_def get_latest_vlsn_def range_is_empty_def i(2)
      by simp
  qed
  have "flush_to_disk crc esrt FlushFailed idx disk = (disk, Err Io)"
    by (simp add: flush_to_disk_def write_file_def Let_def)
  then show ?thesis using i(1-6) same by blast
qed

theorem vlsn_index_survives_restart_witness:
  "\<exists>idx'. index_load_from_disk (\<lambda>_. 0) (sort_key first_vlsn) True
       (fst (flush_to_disk (\<lambda>_. 0) (sort_key fst) FlushOk example_index None)) = Ok (Ok (Some idx')) \<and>
     range_contains (vrange idx') 2 \<and> index_get_lsn idx' 2 = index_get_lsn example_index 2"
proof -
  have "length (snapshot_entries (sort_key fst) example_index) < 2 ^ 32" by (simp add: example_entries)
  moreover have "range_contains (vrange example_index) 2" by (simp add: example_index_def range_contains_def)
  ultimately show ?thesis
    using vlsn_index_survives_restart [OF example_stream sorts_by_sort_key sorts_by_sort_key, of "\<lambda>_. 0" None] by blast
qed

text \<open>
  C39. A rollback does not reach the slots of the bucket it cuts.  After three registrations and a
  rollback of the third, the upward lookup of the second number gives the position of the third,
  which was rolled back; and when the index is flushed and loaded again, the third number
  is back in the range with its old position.
\<close>

theorem rolled_back_number_returns:
  "\<exists>idx H. vlsn_stream (sort_key first_vlsn) True idx H 3 \<and> (0, 300) \<notin> ran H \<and> H 3 = None \<and>
     range_contains (vrange idx) 2 \<and> \<not> range_contains (vrange idx) 3 \<and> index_get_gte_lsn idx 2 = Some (0, 300) \<and>
     (\<exists>idx'. index_load_from_disk crc (sort_key first_vlsn) True
          (fst (flush_to_disk crc (sort_key fst) FlushOk idx disk)) = Ok (Ok (Some idx')) \<and>
        range_contains (vrange idx') 3 \<and> index_get_lsn idx' 3 = Ok (Some (0, 300)))"
proof -
  let ?H = "(Map.empty(1 \<mapsto> (0, 100), 2 \<mapsto> (0, 200), 3 \<mapsto> (0, 300))) |` {..2} :: u64 \<rightharpoonup> lsn"
  define idx where "idx = index_truncate_after 2 example_index"
  have "vlsn_stream (sort_key first_vlsn) True idx ?H (unat (2 :: u64) + 1)"
    unfolding idx_def by (rule vlsn_stream.roll_back [OF example_stream]) simp_all
  then have s: "vlsn_stream (sort_key first_vlsn) True idx ?H 3" by simp
  have idx: "vrange idx = \<lparr> range_first = 1, range_last = 2, commit_vlsn = 0, sync_vlsn = 0 \<rparr>"
    "buckets idx = buckets example_index" "bucket_stride idx = 2"
    by (simp_all add: idx_def index_truncate_after_def range_truncate_after_def example_index_def)
  have snap: "snapshot_entries (sort_key fst) idx = [(1, 0, 100), (3, 0, 300)]" by (rule example_entries [OF idx(2)])
  have "index_load_from_disk crc (sort_key first_vlsn) True (fst (flush_to_disk crc (sort_key fst) FlushOk idx disk)) =
      Ok (Ok (Some example_index))"
    using flush_then_load [of 2 idx "sort_key fst" crc "sort_key first_vlsn" disk] idx(3)
    by (simp add: snap VlsnIndex_new_def index_put_def registration_eval, simp add: example_index_def)
  moreover have "index_get_gte_lsn idx 2 = Some (0, 300)"
    by (simp add: index_get_gte_lsn_def idx example_index_def range_is_empty_def bucket_owns_def bucket_get_gte_lsn_def
        div_ceil_def stride64_def gte_loop.simps NO_OFFSET_def, simp add: word_le_nat_alt)
  moreover have "range_contains (vrange example_index) 3" "index_get_lsn example_index 3 = Ok (Some (0, 300))"
    by (simp_all add: range_contains_def index_get_lsn_def example_index_def bucket_get_lsn_def bucket_owns_def)
  moreover have "range_contains (vrange idx) 2" "\<not> range_contains (vrange idx) 3"
    by (simp_all add: idx range_contains_def)
  moreover have "(0, 300) \<notin> ran ?H" "?H 3 = None" by (auto simp: ran_def restrict_map_def)
  ultimately show ?thesis using s by blast
qed

end
