(* ===== verification/Spec2Isabelle.thy ===== *)
theory Spec2Isabelle
  imports Lock_Manager_Props Util_Lsn Packed_Integer Election_Safety Raw_Rwlock_Wakeup Vlsn_Persist
begin

text \<open>
  Noxu DB is an embedded transactional key-value store written in Rust: a B-tree over a
  write-ahead log, record locks with deadlock detection, a log cleaner, an evictor, recovery,
  and replication with elections.  This development models parts of it as functions on explicit
  state and proves what makes them correct.

  \<^bold>\<open>Locking\<close> (\<open>crates/noxu-txn/src\<close>).  A record lock is \<open>LockImpl\<close> (\<open>lock_impl.rs\<close>), or
  \<open>ThinLockImpl\<close> (\<open>thin_lock_impl.rs\<close>) while it has one owner, behind the enum \<open>Lock\<close>
  (\<open>lock.rs\<close>).  The lock manager (\<open>lock_manager.rs\<close>) keeps locks in sharded tables, queues
  requests that must wait, and runs the deadlock detector (\<open>deadlock_detector.rs\<close>) on a
  waits-for graph.

    \<^item> \<open>Noxu_Prelude\<close>: types and list, option and map lemmas the components share.
    \<^item> \<open>Lock_Types\<close>: lock types, conflict and upgrade matrices, grants.
    \<^item> \<open>Lock_Impl\<close>: the full lock, with its owner and waiter slots and the index loops over
      them as in the source; the loops are shown equal to scans of the owner list, and every
      operation keeps the invariant that owners are pairwise compatible.
    \<^item> \<open>Lock_Enum\<close>: the thin lock and the enum.  The locale \<open>record_lock\<close> is the contract the lock
      manager relies on; it is interpreted on the full lock and on the enum.
    \<^item> \<open>Deadlock_Detector\<close>: the depth-first search, sound and complete, and the victim.
    \<^item> \<open>Lock_Manager\<close>: the manager.  A blocking request leaves its mutex while it waits, so it is
      the sequence of its critical sections (\<open>lock_phase1\<close>, \<open>lock_begin_wait\<close>, \<open>wait_top\<close>,
      \<open>wait_wake\<close>), which \<open>lm_step\<close> interleaves with all other operations.  The locale
      \<open>lock_store\<close> is what the operations rely on of the tables.
    \<^item> \<open>Lock_Manager_Props\<close>: mutual exclusion and memory accounting in every reachable manager,
      how waits end, bounds on waiting, the deadlock check, sweeps, thefts and the read probe.

  \<^bold>\<open>Positions and encodings\<close> (\<open>crates/noxu-util/src\<close>).

    \<^item> \<open>Machine_Bytes\<close>: machine arithmetic with the panics of overflow written out, bytes of
      integers in both byte orders, and reads from a byte stream.
    \<^item> \<open>Util_Lsn\<close>: positions in the log (\<open>lsn.rs\<close>), which are also the keys of the lock table, and
      replication sequence numbers (\<open>vlsn.rs\<close>): fields, order, distances, and the made-up
      positions that lock names and keys, which never collide with real ones.
    \<^item> \<open>Packed_Integer\<close>: the variable-length integers and sortable numbers of \<open>packed.rs\<close>: round
      trips, what readers do on truncated and malformed input, and that the order of the bytes is
      the order of the numbers.

  \<^bold>\<open>Replication groups and elections\<close> (\<open>crates/noxu-rep/src\<close>).  A node that wants to be master runs
  the two phases of an election over the channels to its peers (\<open>elections/paxos.rs\<close>); every
  node answers with an acceptor whose state survives restarts (\<open>elections/acceptor_state.rs\<close>).

    \<^item> \<open>Rep_Group\<close>: members (\<open>rep_group.rs\<close>), sizes of quorums (\<open>quorum_policy.rs\<close>) and of
      acknowledgements (\<open>commit_durability.rs\<close>), and the ranking of candidates (\<open>proposal.rs\<close>).
    \<^item> \<open>Election_Acceptor\<close>: the acceptor and its file.  The checksum is the argument \<open>crc\<close>, since it
      comes from a library; a flush takes how it ended as an argument.
    \<^item> \<open>Election_Paxos\<close>: the proposer, as a function of the replies it received, the two parts of a
      session of the acceptor, and the latch that freezes commits during an election
      (\<open>commit_freeze_latch.rs\<close>).
    \<^item> \<open>Election_Safety\<close>: all acceptors together, with sessions, own votes, failed writes and
      restarts in any order (\<open>election_step\<close>): one master per term for majorities, two masters for
      a validated flexible policy, and that elections keep commits acknowledged by a
      majority.  The locale \<open>quorum_sizes\<close> is the contract between quorum policies and
      elections.

  \<^bold>\<open>The reader-writer lock\<close> (\<open>crates/noxu-sync/src/raw_rwlock.rs\<close>), a word with a count of readers and
  three bits, and two generation words on which writers sleep.

    \<^item> \<open>Raw_Rwlock\<close>: each function as steps between its atomic accesses; \<open>rw_step\<close> interleaves the
      threads of a system, with time-outs, spurious wake-ups and spurious failures of the weak
      compare-exchange.
    \<^item> \<open>Raw_Rwlock_Props\<close>: exclusion and what the word counts, for fewer than \<open>2 ^ 29\<close> threads (the
      field of the word that counts readers has 29 bits); a run in which a notification is lost to
      a timed writer.
    \<^item> \<open>Raw_Rwlock_Wakeup\<close>: without timed writers no notification is lost, as long as the generation
      words have not wrapped around.

  \<^bold>\<open>The index of sequence numbers\<close> (\<open>crates/noxu-rep/src/vlsn\<close>), from which a feeder finds where in the
  log to start reading.

    \<^item> \<open>Log_Entry_Type\<close>: the types of log entries (\<open>crates/noxu-log/src/entry_type.rs\<close>), some of which
      move the synchronisation point.
    \<^item> \<open>Vlsn_Range\<close>: the range of numbers (\<open>vlsn_range.rs\<close>) and what each operation does to it.
    \<^item> \<open>Vlsn_Bucket\<close>: sparse positions at a stride (\<open>vlsn_bucket.rs\<close>); \<open>bucket_covers\<close> relates a bucket to
      the history of registrations.
    \<^item> \<open>Vlsn_Index\<close>: the index (\<open>vlsn_index.rs\<close>) under the registrations, rollbacks and deletions of a
      replication stream (\<open>vlsn_stream\<close>), and the correctness of its lookups.
    \<^item> \<open>Vlsn_Persist\<close>: its file (\<open>persist.rs\<close>), what a restart keeps and what it loses, and a
      rolled-back number that a restart brings back.

  Not modelled: condition variables and clocks (an iteration of a wait loop takes
  the flag and the elapsed time it read as arguments), memory orders weaker than sequential
  consistency, the rendering of messages and labels,
  file and network I/O, and the crates the manifest lists as not modelled.
\<close>

end
